(* ===== verification/Amity_Prelude.thy ===== *)
theory Amity_Prelude
  imports Main "HOL-Library.Word"
begin

unbundle bit_operations_syntax

text \<open>
  Shared vocabulary of the development: the machine integers of a 64-bit target, the ways a
  call can fail, the contracts (locales) that several components meet, and the generic lemmas
  on lists, options and reachability that the component proofs use.

  A Rust call that can panic, or whose unsafe code can leave the defined behaviour of the
  language, returns a value of \<open>fault + 'a\<close>: \<open>Inl\<close> is the failure and \<open>Inr\<close> the result. Nothing
  is hidden in an unspecified HOL value.
\<close>

section \<open>Machine integers\<close>

type_synonym u8 = "8 word"
type_synonym u64 = "64 word"
type_synonym usize = "64 word"

definition usize_max :: nat where
  "usize_max = 2 ^ 64 - 1"

definition isize_max :: nat where
  "isize_max = 2 ^ 63 - 1"

section \<open>Failures\<close>

datatype fault =
    Debug_assert        \<comment> \<open>a \<open>debug_assert!\<close> or \<open>assert!\<close> that does not hold\<close>
  | Arith_overflow      \<comment> \<open>\<open>+\<close>, \<open>-\<close> out of range (a panic with overflow checks)\<close>
  | Capacity_overflow   \<comment> \<open>\<open>capacity_overflow()\<close> and the allocation limit of \<open>Vec\<close>\<close>
  | Index_bounds        \<comment> \<open>a checked index out of bounds\<close>
  | Explicit_panic      \<comment> \<open>\<open>panic!\<close>, \<open>unreachable!\<close>\<close>
  | Undefined_behaviour \<comment> \<open>uninitialised or out-of-bounds access, \<open>unreachable_unchecked\<close>\<close>

type_synonym 'a res = "fault + 'a"

definition bind_res :: "'a res \<Rightarrow> ('a \<Rightarrow> 'b res) \<Rightarrow> 'b res" where
  "bind_res r f = (case r of Inl e \<Rightarrow> Inl e | Inr x \<Rightarrow> f x)"

lemma bind_res_simps [simp]:
  "bind_res (Inl e) f = Inl e"
  "bind_res (Inr x) f = f x"
  by (simp_all add: bind_res_def)

lemma bind_res_Inl_conv: "bind_res r f = Inl e \<longleftrightarrow> r = Inl e \<or> (\<exists>x. r = Inr x \<and> f x = Inl e)"
  by (cases r) simp_all

lemma bind_res_Inr_conv: "bind_res r f = Inr y \<longleftrightarrow> (\<exists>x. r = Inr x \<and> f x = Inr y)"
  by (cases r) simp_all

text \<open>Checked subtraction and addition on \<open>usize\<close> values, read as natural numbers.\<close>

definition usize_sub :: "nat \<Rightarrow> nat \<Rightarrow> nat res" where
  "usize_sub a b = (if b \<le> a then Inr (a - b) else Inl Arith_overflow)"

definition usize_add :: "nat \<Rightarrow> nat \<Rightarrow> nat res" where
  "usize_add a b = (if a + b \<le> usize_max then Inr (a + b) else Inl Arith_overflow)"

lemma usize_sub_ok [simp]: "b \<le> a \<Longrightarrow> usize_sub a b = Inr (a - b)"
  by (simp add: usize_sub_def)

lemma usize_add_ok [simp]: "a + b \<le> usize_max \<Longrightarrow> usize_add a b = Inr (a + b)"
  by (simp add: usize_add_def)

text \<open>\<open>Option::or\<close>: both arguments are values, so both have been evaluated.\<close>

definition option_or :: "'a option \<Rightarrow> 'a option \<Rightarrow> 'a option" where
  "option_or a b = (case a of None \<Rightarrow> b | Some x \<Rightarrow> Some x)"

lemma option_or_simps [simp]:
  "option_or None b = b"
  "option_or (Some x) b = Some x"
  by (simp_all add: option_or_def)

section \<open>Lists\<close>

lemma map_upt_take_drop: "s + n \<le> length xs \<Longrightarrow> map (\<lambda>i. xs ! (s + i)) [0..<n] = take n (drop s xs)"
  by (rule nth_equalityI) auto

lemma sum_list_map_update:
  fixes f :: "'a \<Rightarrow> nat"
  assumes "i < length xs"
  shows "sum_list (map f (xs[i := y])) + f (xs ! i) = sum_list (map f xs) + f y"
  using assms by (induction xs arbitrary: i) (auto split: nat.splits)

lemma sum_list_map_ge:
  fixes f :: "'a \<Rightarrow> nat"
  assumes "i < length xs"
  shows "f (xs ! i) \<le> sum_list (map f xs)"
  using elem_le_sum_list[of i "map f xs"] assms by simp

text \<open>The sum without element \<open>i\<close> stays when the element is replaced.\<close>

lemma sum_list_map_frame:
  fixes f :: "'a \<Rightarrow> nat"
  assumes "i < length xs"
  shows "\<exists>n. sum_list (map f xs) = n + f (xs ! i) \<and> (\<forall>y. sum_list (map f (xs[i := y])) = n + f y)"
  using sum_list_map_update[OF assms, of f] sum_list_map_ge[OF assms, of f]
  by (intro exI[of _ "sum_list (map f xs) - f (xs ! i)"]) (metis add_diff_cancel_right' le_add_diff_inverse2
      add.commute add.assoc)

lemma sum_list_map_two_le:
  fixes f :: "'a \<Rightarrow> nat"
  assumes "i < length xs" "j < length xs" "i \<noteq> j"
  shows "f (xs ! i) + f (xs ! j) \<le> sum_list (map f xs)"
proof -
  have "sum_list (map f xs) = (\<Sum>k<length xs. f (xs ! k))"
    by (simp add: sum_list_sum_nth atLeast0LessThan)
  moreover have "(\<Sum>k\<in>{i, j}. f (xs ! k)) \<le> (\<Sum>k<length xs. f (xs ! k))"
    using assms by (intro sum_mono2) auto
  ultimately show ?thesis using assms(3) by simp
qed

lemma nth_update: "xs[i := y] ! j = (if i = j \<and> j < length xs then y else xs ! j)"
  by (cases "i = j") (simp_all add: list_update_beyond)

lemma map_update_same: "i < length xs \<Longrightarrow> f y = f (xs ! i) \<Longrightarrow> map f (xs[i := y]) = map f xs"
  by (simp add: map_update list_update_same_conv)

text \<open>Replacing one element of a list replaces its part of a concatenation.\<close>

lemma concat_map_frame:
  assumes "i < length xs"
  shows "\<exists>us vs. concat (map f xs) = us @ f (xs ! i) @ vs \<and> (\<forall>y. concat (map f (xs[i := y])) = us @ f y @ vs)"
proof -
  have "concat (map f (xs[i := y])) = concat (map f (take i xs)) @ f y @ concat (map f (drop (Suc i) xs))" for y
    using assms by (simp add: upd_conv_take_nth_drop)
  from this[of "xs ! i"] this show ?thesis by (metis list_update_id)
qed

lemma concat_map_Nil: "(\<And>x. x \<in> set xs \<Longrightarrow> f x = []) \<Longrightarrow> concat (map f xs) = []"
  by simp

section \<open>Reachable states\<close>

inductive reachable :: "('s \<Rightarrow> bool) \<Rightarrow> ('s \<Rightarrow> 's \<Rightarrow> bool) \<Rightarrow> 's \<Rightarrow> bool"
  for init :: "'s \<Rightarrow> bool" and step :: "'s \<Rightarrow> 's \<Rightarrow> bool"
where
  reach_init: "init s \<Longrightarrow> reachable init step s"
| reach_step: "reachable init step s \<Longrightarrow> step s t \<Longrightarrow> reachable init step t"

text \<open>
  The contract of a component given by a step relation: an invariant that holds at the start
  and that every step keeps. What the contract gives is that the invariant holds in every
  reachable state.
\<close>

locale transition_system =
  fixes init :: "'s \<Rightarrow> bool"
    and step :: "'s \<Rightarrow> 's \<Rightarrow> bool"
    and inv :: "'s \<Rightarrow> bool"
  assumes init_inv: "init s \<Longrightarrow> inv s"
    and step_inv: "step s t \<Longrightarrow> inv s \<Longrightarrow> inv t"
begin

lemma reachable_inv: "reachable init step s \<Longrightarrow> inv s"
  by (induction rule: reachable.induct) (auto intro: init_inv step_inv)

end

text \<open>
  A system that is built on another: each of its steps, from a state in which its invariant holds, is a
  sequence of steps of the other system, seen through an abstraction. Its reachable states are then
  reachable states of the other system. Without an invariant (\<open>simulation\<close>), what the other system
  keeps it keeps.
\<close>

locale inv_simulation = transition_system initc stepc inv
  for initc :: "'c \<Rightarrow> bool" and stepc :: "'c \<Rightarrow> 'c \<Rightarrow> bool" and inv :: "'c \<Rightarrow> bool" +
  fixes inita :: "'a \<Rightarrow> bool"
    and stepa :: "'a \<Rightarrow> 'a \<Rightarrow> bool"
    and abs :: "'c \<Rightarrow> 'a"
  assumes init_abs: "initc s \<Longrightarrow> inita (abs s)"
    and step_abs: "stepc s t \<Longrightarrow> inv s \<Longrightarrow> stepa\<^sup>*\<^sup>* (abs s) (abs t)"
begin

lemma steps_reachable: "stepa\<^sup>*\<^sup>* a b \<Longrightarrow> reachable inita stepa a \<Longrightarrow> reachable inita stepa b"
  by (induction rule: rtranclp_induct) (auto intro: reach_step)

lemma reachable_abs: "reachable initc stepc s \<Longrightarrow> reachable inita stepa (abs s)"
proof (induction rule: reachable.induct)
  case (reach_step s t)
  from step_abs[OF reach_step.hyps(2) reachable_inv[OF reach_step.hyps(1)]] reach_step.IH show ?case
    by (rule steps_reachable)
qed (auto intro: reach_init init_abs)

end

locale simulation =
  fixes initc :: "'c \<Rightarrow> bool"
    and stepc :: "'c \<Rightarrow> 'c \<Rightarrow> bool"
    and inita :: "'a \<Rightarrow> bool"
    and stepa :: "'a \<Rightarrow> 'a \<Rightarrow> bool"
    and abs :: "'c \<Rightarrow> 'a"
  assumes init_sim: "initc s \<Longrightarrow> inita (abs s)"
    and step_sim: "stepc s t \<Longrightarrow> stepa\<^sup>*\<^sup>* (abs s) (abs t)"
begin

lemma step_keeps:
  assumes "stepc s t" and "P (abs s)" and "\<And>a b. stepa a b \<Longrightarrow> P a \<Longrightarrow> P b"
  shows "P (abs t)"
  using step_sim[OF assms(1)] assms(2) by (induction rule: rtranclp_induct) (auto intro: assms(3))

end

sublocale simulation \<subseteq> inv_simulation initc stepc "\<lambda>_. True" inita stepa abs
  by unfold_locales (auto intro: init_sim step_sim)

text \<open>
  A system of numbered threads in which some hold a resource exclusively: \<open>excl s i\<close> says that
  thread \<open>i\<close> is the exclusive holder, \<open>holds s i\<close> that it holds the resource in any mode.
\<close>

locale exclusion_system = transition_system +
  fixes excl :: "'a \<Rightarrow> nat \<Rightarrow> bool"
    and holds :: "'a \<Rightarrow> nat \<Rightarrow> bool"
  assumes inv_exclusive: "inv s \<Longrightarrow> excl s i \<Longrightarrow> holds s j \<Longrightarrow> i = j"
    and excl_holds: "excl s i \<Longrightarrow> holds s i"
begin

lemma reachable_exclusive: "reachable init step s \<Longrightarrow> excl s i \<Longrightarrow> holds s j \<Longrightarrow> i = j"
  using reachable_inv inv_exclusive by blast

lemma reachable_one_writer: "reachable init step s \<Longrightarrow> excl s i \<Longrightarrow> excl s j \<Longrightarrow> i = j"
  using reachable_exclusive excl_holds by blast

end

section \<open>First-in first-out queues\<close>

datatype 'a queue_op = Push 'a | Pop

text \<open>
  Running a list of operations collects what the pops return, and stops at the first failure.
  \<open>fifo_spec\<close> is the same run on a list. The invariant of a queue has a budget: \<open>inv n s\<close> says that
  \<open>s\<close> is valid and stays so for \<open>n\<close> operations, for a queue with counters that could wrap around.
\<close>

fun fifo_run :: "('a \<Rightarrow> 's \<Rightarrow> 's res) \<Rightarrow> ('s \<Rightarrow> ('a option \<times> 's) res) \<Rightarrow> 'a queue_op list \<Rightarrow> 's
    \<Rightarrow> ('a option list \<times> 's) res" where
  "fifo_run push pop [] s = Inr ([], s)"
| "fifo_run push pop (Push v # ops) s = bind_res (push v s) (fifo_run push pop ops)"
| "fifo_run push pop (Pop # ops) s =
     bind_res (pop s) (\<lambda>(r, s'). bind_res (fifo_run push pop ops s') (\<lambda>(rs, s''). Inr (r # rs, s'')))"

fun fifo_spec :: "'a queue_op list \<Rightarrow> 'a list \<Rightarrow> 'a option list \<times> 'a list" where
  "fifo_spec [] q = ([], q)"
| "fifo_spec (Push v # ops) q = fifo_spec ops (q @ [v])"
| "fifo_spec (Pop # ops) [] = (case fifo_spec ops [] of (rs, q') \<Rightarrow> (None # rs, q'))"
| "fifo_spec (Pop # ops) (x # q) = (case fifo_spec ops q of (rs, q') \<Rightarrow> (Some x # rs, q'))"

locale fifo =
  fixes abs :: "'s \<Rightarrow> 'a list"
    and inv :: "nat \<Rightarrow> 's \<Rightarrow> bool"
    and push :: "'a \<Rightarrow> 's \<Rightarrow> 's res"
    and pop :: "'s \<Rightarrow> ('a option \<times> 's) res"
  assumes push_inv: "inv (Suc n) s \<Longrightarrow> push v s = Inr s' \<Longrightarrow> inv n s'"
    and push_abs: "inv (Suc n) s \<Longrightarrow> push v s = Inr s' \<Longrightarrow> abs s' = abs s @ [v]"
    and push_fault: "inv (Suc n) s \<Longrightarrow> push v s = Inl e \<Longrightarrow> e = Capacity_overflow"
    and pop_empty: "inv (Suc n) s \<Longrightarrow> abs s = [] \<Longrightarrow> \<exists>s'. pop s = Inr (None, s') \<and> inv n s' \<and> abs s' = []"
    and pop_cons: "inv (Suc n) s \<Longrightarrow> abs s = x # xs \<Longrightarrow> \<exists>s'. pop s = Inr (Some x, s') \<and> inv n s' \<and> abs s' = xs"
begin

lemma run_refines:
  "inv (length ops) s \<Longrightarrow> fifo_run push pop ops s = Inr (rs, s') \<Longrightarrow>
    inv 0 s' \<and> fifo_spec ops (abs s) = (rs, abs s')"
proof (induction ops arbitrary: s rs)
  case Nil
  then show ?case by simp
next
  case (Cons op ops)
  then have inv: "inv (Suc (length ops)) s" by simp
  show ?case
  proof (cases op)
    case (Push v)
    with Cons.prems obtain s1 where s1: "push v s = Inr s1" "fifo_run push pop ops s1 = Inr (rs, s')"
      by (auto simp: bind_res_Inr_conv)
    with inv have "inv (length ops) s1" "abs s1 = abs s @ [v]"
      by (auto intro: push_inv push_abs)
    with Cons.IH[OF _ s1(2)] Push show ?thesis by simp
  next
    case Pop
    show ?thesis
    proof (cases "abs s")
      case Nil
      with pop_empty[OF inv] obtain s1 where s1: "pop s = Inr (None, s1)" "inv (length ops) s1" "abs s1 = []"
        by blast
      with Cons.prems Pop obtain rs1 where "rs = None # rs1" "fifo_run push pop ops s1 = Inr (rs1, s')"
        by (auto simp: bind_res_Inr_conv)
      with Cons.IH[OF s1(2), of rs1] s1 Nil Pop show ?thesis by auto
    next
      case (Cons x xs)
      with pop_cons[OF inv] obtain s1 where s1: "pop s = Inr (Some x, s1)" "inv (length ops) s1" "abs s1 = xs"
        by blast
      with Cons.prems Pop obtain rs1 where "rs = Some x # rs1" "fifo_run push pop ops s1 = Inr (rs1, s')"
        by (auto simp: bind_res_Inr_conv)
      with Cons.IH[OF s1(2), of rs1] s1 Cons Pop show ?thesis by auto
    qed
  qed
qed

lemma run_fault: "inv (length ops) s \<Longrightarrow> fifo_run push pop ops s = Inl e \<Longrightarrow> e = Capacity_overflow"
proof (induction ops arbitrary: s)
  case Nil
  then show ?case by simp
next
  case (Cons op ops)
  then have inv: "inv (Suc (length ops)) s" by simp
  show ?case
  proof (cases op)
    case (Push v)
    with Cons inv show ?thesis
      by (cases "push v s") (auto intro: push_inv push_fault)
  next
    case Pop
    obtain r s1 where s1: "pop s = Inr (r, s1)" "inv (length ops) s1"
      using pop_empty[OF inv] pop_cons[OF inv] by (cases "abs s") blast+
    with Cons Pop show ?thesis
      by (cases "fifo_run push pop ops s1") auto
  qed
qed

end

end
