(* ===== verification/Ring_Buffer.thy ===== *)
theory Ring_Buffer
  imports Amity_Prelude
begin

text \<open>
  The growable ring buffer of \<open>src/src/ring_buffer.rs\<close>: \<open>RingBuffer\<close>, its \<open>Drain\<close> iterator and the
  free functions \<open>ring_index\<close>, \<open>new_cap\<close> and \<open>drop_two_slices\<close>.

  The boxed slice \<open>[MaybeUninit<T>]\<close> is a list of cells, \<open>None\<close> for an uninitialised one. Reading an
  uninitialised cell or a cell out of bounds through unsafe code is the fault
  \<open>Undefined_behaviour\<close>. \<open>size_of::<T>()\<close> is the parameter \<open>sz\<close>. Moving a value out of a cell leaves
  the bits in place, as \<open>assume_init_read\<close> does. Operations that drop elements also return the list
  of the values they dropped, in the order of the drops; \<open>dp x\<close> says that the destructor of \<open>x\<close>
  panics. The abstraction \<open>rb_contents\<close> is the queue of the values between head and tail.
\<close>

section \<open>State\<close>

record 'a ring_buffer =
  rb_head :: nat
  rb_len :: nat
  rb_array :: "'a option list"

abbreviation rb_cap :: "('a, 'b) ring_buffer_scheme \<Rightarrow> nat" where
  "rb_cap rb \<equiv> length (rb_array rb)"

definition rb_capacity :: "'a ring_buffer \<Rightarrow> nat" where
  "rb_capacity rb = length (rb_array rb)"

definition rb_is_empty :: "'a ring_buffer \<Rightarrow> bool" where
  "rb_is_empty rb \<longleftrightarrow> rb_len rb = 0"

definition rb_set_len :: "nat \<Rightarrow> 'a ring_buffer \<Rightarrow> 'a ring_buffer" where
  "rb_set_len n rb = rb\<lparr>rb_len := n\<rparr>"

definition rb_set_head :: "nat \<Rightarrow> 'a ring_buffer \<Rightarrow> 'a ring_buffer" where
  "rb_set_head h rb = rb\<lparr>rb_head := h\<rparr>"

section \<open>Raw memory: cells, slices, copies, destructors\<close>

definition read_cell :: "'a option list \<Rightarrow> nat \<Rightarrow> 'a res" where
  "read_cell cells i =
     (if i < length cells
      then (case cells ! i of None \<Rightarrow> Inl Undefined_behaviour | Some v \<Rightarrow> Inr v)
      else Inl Undefined_behaviour)"

definition write_cell :: "'a option list \<Rightarrow> nat \<Rightarrow> 'a \<Rightarrow> 'a option list res" where
  "write_cell cells i v =
     (if i < length cells then Inr (cells[i := Some v]) else Inl Undefined_behaviour)"

text \<open>A slice pointer is a start index and a length; \<open>read_slice\<close> is \<open>&*ptr\<close>.\<close>

definition read_slice :: "'a option list \<Rightarrow> nat \<times> nat \<Rightarrow> 'a list res" where
  "read_slice cells p =
     (case p of (start, n) \<Rightarrow>
        if start + n \<le> length cells \<and> None \<notin> set (take n (drop start cells))
        then Inr (map the (take n (drop start cells))) else Inl Undefined_behaviour)"

definition copy_nonoverlapping ::
  "'a option list \<Rightarrow> nat \<Rightarrow> 'a option list \<Rightarrow> nat \<Rightarrow> nat \<Rightarrow> 'a option list res" where
  "copy_nonoverlapping src s dst d n =
     (if s + n \<le> length src \<and> d + n \<le> length dst
      then Inr (take d dst @ take n (drop s src) @ drop (d + n) dst)
      else Inl Undefined_behaviour)"

text \<open>
  Dropping a slice runs the destructors in order. When one panics, the rest of the slice is still
  dropped while unwinding; a second panic during unwinding aborts the process.
\<close>

datatype unwinding = Normal | Unwinding | Aborted

fun drop_in_place :: "('a \<Rightarrow> bool) \<Rightarrow> unwinding \<Rightarrow> 'a list \<Rightarrow> 'a list \<times> unwinding" where
  "drop_in_place dp u [] = ([], u)"
| "drop_in_place dp u (x # xs) =
     (if u = Aborted then ([], Aborted)
      else if dp x \<and> u = Unwinding then ([x], Aborted)
      else (case drop_in_place dp (if dp x then Unwinding else u) xs of (d, u') \<Rightarrow> (x # d, u')))"

text \<open>The guard \<open>_back_dropped\<close> drops the back slice also when the front unwinds.\<close>

definition drop_two_slices :: "('a \<Rightarrow> bool) \<Rightarrow> 'a list \<Rightarrow> 'a list \<Rightarrow> 'a list \<times> unwinding" where
  "drop_two_slices dp front back =
     (case drop_in_place dp Normal front of (d, u) \<Rightarrow>
        case drop_in_place dp u back of (d', u') \<Rightarrow> (d @ d', u'))"

section \<open>Index arithmetic and allocation\<close>

definition ring_index :: "nat \<Rightarrow> nat \<Rightarrow> nat \<Rightarrow> nat res" where
  "ring_index head index cap =
     (if \<not> head < cap then Inl Debug_assert
      else if \<not> index \<le> cap then Inl Debug_assert
      else bind_res (usize_sub cap head) (\<lambda>tail.
        if tail > index then usize_add head index else usize_sub index tail))"

definition min_non_zero_cap :: "nat \<Rightarrow> nat" where
  "min_non_zero_cap sz = (if sz = 1 then 8 else if sz \<le> 1024 then 4 else 1)"

definition new_cap :: "nat \<Rightarrow> nat \<Rightarrow> nat res" where
  "new_cap sz cap =
     (if cap + cap \<le> usize_max then Inr (max (cap + cap) (min_non_zero_cap sz))
      else Inl Capacity_overflow)"

text \<open>
  \<open>Vec::with_capacity\<close> and \<open>Vec::capacity\<close>: a zero-sized element type has capacity \<open>usize::MAX\<close>, and
  an allocation of more than \<open>isize::MAX\<close> bytes panics.
\<close>

definition vec_with_capacity :: "nat \<Rightarrow> nat \<Rightarrow> nat res" where
  "vec_with_capacity sz cap =
     (if sz = 0 then Inr usize_max
      else if cap * sz > isize_max then Inl Capacity_overflow else Inr cap)"

definition rb_with_capacity :: "nat \<Rightarrow> nat \<Rightarrow> 'a ring_buffer res" where
  "rb_with_capacity sz cap =
     bind_res (vec_with_capacity sz cap) (\<lambda>c.
       Inr \<lparr>rb_head = 0, rb_len = 0, rb_array = replicate c None\<rparr>)"

definition rb_new :: "nat \<Rightarrow> 'a ring_buffer res" where
  "rb_new sz = (if sz = 0 then rb_with_capacity sz usize_max else rb_with_capacity sz 0)"

section \<open>Operations\<close>

definition rb_as_slice_pointers :: "'a ring_buffer \<Rightarrow> ((nat \<times> nat) \<times> nat \<times> nat) res" where
  "rb_as_slice_pointers rb =
     bind_res (usize_sub (rb_cap rb) (rb_head rb)) (\<lambda>tail.
       let front_len = min (rb_len rb) tail;
           back_len = rb_len rb - front_len
       in Inr ((rb_head rb, front_len), (0, back_len)))"

definition rb_as_mut_slice_pointers :: "'a ring_buffer \<Rightarrow> ((nat \<times> nat) \<times> nat \<times> nat) res" where
  "rb_as_mut_slice_pointers rb =
     bind_res (usize_sub (rb_cap rb) (rb_head rb)) (\<lambda>tail.
       let front_len = min (rb_len rb) tail;
           back_len = rb_len rb - front_len
       in Inr ((rb_head rb, front_len), (0, back_len)))"

definition rb_as_slices :: "'a ring_buffer \<Rightarrow> ('a list \<times> 'a list) res" where
  "rb_as_slices rb =
     bind_res (rb_as_slice_pointers rb) (\<lambda>(front, back).
       bind_res (read_slice (rb_array rb) front) (\<lambda>xs.
         bind_res (read_slice (rb_array rb) back) (\<lambda>ys. Inr (xs, ys))))"

definition rb_as_mut_slices :: "'a ring_buffer \<Rightarrow> ('a list \<times> 'a list) res" where
  "rb_as_mut_slices rb =
     bind_res (rb_as_mut_slice_pointers rb) (\<lambda>(front, back).
       bind_res (read_slice (rb_array rb) front) (\<lambda>xs.
         bind_res (read_slice (rb_array rb) back) (\<lambda>ys. Inr (xs, ys))))"

text \<open>The destructor of the buffer: the values it drops and how the drops ended.\<close>

definition rb_drop :: "('a \<Rightarrow> bool) \<Rightarrow> 'a ring_buffer \<Rightarrow> ('a list \<times> unwinding) res" where
  "rb_drop dp rb =
     bind_res (rb_as_mut_slice_pointers rb) (\<lambda>(front, back).
       bind_res (read_slice (rb_array rb) front) (\<lambda>xs.
         bind_res (read_slice (rb_array rb) back) (\<lambda>ys. Inr (drop_two_slices dp xs ys))))"

definition rb_clear :: "('a \<Rightarrow> bool) \<Rightarrow> 'a ring_buffer \<Rightarrow> ('a ring_buffer \<times> 'a list \<times> unwinding) res"
where
  "rb_clear dp rb =
     bind_res (rb_as_mut_slices rb) (\<lambda>(front, back).
       let rb' = rb\<lparr>rb_head := 0, rb_len := 0\<rparr>
       in Inr (rb', drop_two_slices dp front back))"

definition rb_push :: "nat \<Rightarrow> 'a \<Rightarrow> 'a ring_buffer \<Rightarrow> 'a ring_buffer res" where
  "rb_push sz value rb =
     (if rb_len rb < rb_cap rb then
        bind_res (ring_index (rb_head rb) (rb_len rb) (rb_cap rb)) (\<lambda>idx.
        bind_res (write_cell (rb_array rb) idx value) (\<lambda>cells.
        bind_res (usize_add (rb_len rb) 1) (\<lambda>n.
          Inr (rb\<lparr>rb_array := cells, rb_len := n\<rparr>))))
      else
        bind_res (new_cap sz (rb_cap rb)) (\<lambda>nc.
        bind_res (vec_with_capacity sz nc) (\<lambda>vc.
        bind_res (usize_sub (rb_cap rb) (rb_head rb)) (\<lambda>tail.
        bind_res (copy_nonoverlapping (rb_array rb) (rb_head rb) (replicate vc None) 0 tail) (\<lambda>new1.
        bind_res (copy_nonoverlapping (rb_array rb) 0 new1 tail (rb_head rb)) (\<lambda>new2.
        bind_res (write_cell new2 (rb_cap rb) value) (\<lambda>new3.
        bind_res (usize_add (rb_cap rb) 1) (\<lambda>n.
          Inr (rb\<lparr>rb_head := 0, rb_len := n, rb_array := new3\<rparr>)))))))))"

definition rb_pop :: "'a ring_buffer \<Rightarrow> ('a option \<times> 'a ring_buffer) res" where
  "rb_pop rb =
     (if rb_len rb = 0 then Inr (None, rb)
      else if \<not> rb_head rb < rb_cap rb then Inl Debug_assert
      else bind_res (read_cell (rb_array rb) (rb_head rb)) (\<lambda>value.
        Inr (Some value,
             rb\<lparr>rb_head := (rb_head rb + 1) mod rb_cap rb, rb_len := rb_len rb - 1\<rparr>)))"

section \<open>Drain\<close>

text \<open>A \<open>Drain\<close> owns the mutable borrow, so its state is the ring buffer itself.\<close>

definition drain_next :: "'a ring_buffer \<Rightarrow> ('a option \<times> 'a ring_buffer) res" where
  "drain_next rb =
     (if rb_len rb = 0 then Inr (None, rb)
      else
        let head = rb_head rb;
            rb' = rb\<lparr>rb_head := (rb_head rb + 1) mod rb_cap rb, rb_len := rb_len rb - 1\<rparr>
        in if \<not> head < rb_cap rb then Inl Debug_assert
           else bind_res (read_cell (rb_array rb) head) (\<lambda>value. Inr (Some value, rb')))"

definition drain_size_hint :: "'a ring_buffer \<Rightarrow> nat \<times> nat option" where
  "drain_size_hint rb = (let n = rb_len rb in (n, Some n))"

definition drain_drop :: "('a \<Rightarrow> bool) \<Rightarrow> 'a ring_buffer \<Rightarrow> ('a ring_buffer \<times> 'a list \<times> unwinding) res"
where
  "drain_drop dp rb = rb_clear dp rb"

text \<open>\<open>count\<close> takes the iterator by value: it returns the length and the iterator is dropped.\<close>

definition drain_len :: "'a ring_buffer \<Rightarrow> nat" where
  "drain_len rb = rb_len rb"

definition drain_count :: "('a \<Rightarrow> bool) \<Rightarrow> 'a ring_buffer
    \<Rightarrow> (nat \<times> 'a ring_buffer \<times> 'a list \<times> unwinding) res" where
  "drain_count dp rb = bind_res (drain_drop dp rb) (\<lambda>r. Inr (rb_len rb, r))"

text \<open>
  \<open>nth\<close>: the value returned, the buffer, the values dropped on the way and how the drops ended.
  When a destructor panics the call unwinds and returns nothing.
\<close>

definition drain_nth :: "('a \<Rightarrow> bool) \<Rightarrow> nat \<Rightarrow> 'a ring_buffer
    \<Rightarrow> ('a option \<times> 'a ring_buffer \<times> 'a list \<times> unwinding) res" where
  "drain_nth dp n rb =
     (if n = 0 then bind_res (drain_next rb) (\<lambda>(r, rb'). Inr (r, rb', [], Normal))
      else if rb_len rb \<le> n then bind_res (rb_clear dp rb) (\<lambda>r. Inr (None, r))
      else
        bind_res (ring_index (rb_head rb) n (rb_cap rb)) (\<lambda>new_head.
        bind_res (usize_sub (rb_cap rb) (rb_head rb)) (\<lambda>tail.
        let rb' = rb\<lparr>rb_head := new_head, rb_len := rb_len rb - n\<rparr>;
            front_n = min n tail;
            back_n = n - front_n
        in bind_res (read_slice (rb_array rb) (rb_head rb, front_n)) (\<lambda>front.
           bind_res (read_slice (rb_array rb) (0, back_n)) (\<lambda>back.
           case drop_two_slices dp front back of (dropped, u) \<Rightarrow>
             if u = Normal
             then bind_res (drain_next rb') (\<lambda>(r, rb''). Inr (r, rb'', dropped, u))
             else Inr (None, rb', dropped, u))))))"

text \<open>\<open>n\<close> calls of \<open>next\<close> in a row.\<close>

fun drain_take :: "nat \<Rightarrow> 'a ring_buffer \<Rightarrow> ('a option list \<times> 'a ring_buffer) res" where
  "drain_take 0 rb = Inr ([], rb)"
| "drain_take (Suc n) rb =
     bind_res (drain_next rb) (\<lambda>(r, rb').
       bind_res (drain_take n rb') (\<lambda>(rs, rb''). Inr (r # rs, rb'')))"

section \<open>Invariant and abstraction\<close>

definition rb_inv :: "'a ring_buffer \<Rightarrow> bool" where
  "rb_inv rb \<longleftrightarrow>
     rb_cap rb \<le> usize_max \<and> rb_len rb \<le> rb_cap rb \<and>
     (rb_head rb < rb_cap rb \<or> rb_head rb = 0 \<and> rb_cap rb = 0) \<and>
     (\<forall>i < rb_len rb. rb_array rb ! ((rb_head rb + i) mod rb_cap rb) \<noteq> None)"

definition rb_contents :: "'a ring_buffer \<Rightarrow> 'a list" where
  "rb_contents rb =
     map (\<lambda>i. the (rb_array rb ! ((rb_head rb + i) mod rb_cap rb))) [0..<rb_len rb]"

lemma length_rb_contents [simp]: "length (rb_contents rb) = rb_len rb"
  by (simp add: rb_contents_def)

lemma rb_contents_nth:
  "i < rb_len rb \<Longrightarrow>
    rb_contents rb ! i = the (rb_array rb ! ((rb_head rb + i) mod rb_cap rb))"
  by (simp add: rb_contents_def)

lemma rb_contents_Nil [simp]: "rb_contents rb = [] \<longleftrightarrow> rb_len rb = 0"
  by (simp add: rb_contents_def)

lemma rb_contents_len0 [simp]: "rb_len rb = 0 \<Longrightarrow> rb_contents rb = []"
  by simp

section \<open>Index arithmetic\<close>

lemma ring_mod: "h < c \<Longrightarrow> i \<le> c \<Longrightarrow> (h + i) mod c = (if h + i < c then h + i else h + i - (c::nat))"
  by (auto simp: le_mod_geq)

lemma ring_slot_inj:
  assumes "h < c" and "i < c" and "j < (c::nat)" and "(h + i) mod c = (h + j) mod c"
  shows "i = j"
  using assms by (simp add: ring_mod split: if_splits)

lemma ring_slot_step: "((h + 1) mod c + i) mod c = (h + Suc i) mod (c::nat)"
  by (simp add: mod_simps)

lemma ring_index_ok:
  assumes "head < cap" and "index \<le> cap" and "cap \<le> usize_max"
  shows "ring_index head index cap = Inr ((head + index) mod cap)"
  using assms by (auto simp: ring_index_def ring_mod)

section \<open>Destructors\<close>

lemma drop_in_place_no_panic: "\<forall>x \<in> set xs. \<not> dp x \<Longrightarrow> u \<noteq> Aborted \<Longrightarrow> drop_in_place dp u xs = (xs, u)"
  by (induction xs arbitrary: u) auto

text \<open>With at most one panicking element every element of a slice is dropped, in order.\<close>

lemma drop_in_place_one_panic:
  "length (filter dp xs) \<le> 1 \<Longrightarrow>
    drop_in_place dp Normal xs = (xs, if filter dp xs = [] then Normal else Unwinding)"
proof (induction xs)
  case Nil
  then show ?case by simp
next
  case (Cons x xs)
  show ?case
  proof (cases "dp x")
    case True
    with Cons.prems have "\<forall>y \<in> set xs. \<not> dp y" by (simp add: filter_empty_conv)
    with True show ?thesis by (simp add: drop_in_place_no_panic)
  next
    case False
    with Cons show ?thesis by simp
  qed
qed

lemma drop_two_slices_all:
  assumes "length (filter dp (front @ back)) \<le> 1"
  shows "drop_two_slices dp front back =
    (front @ back, if filter dp (front @ back) = [] then Normal else Unwinding)"
proof (cases "filter dp front")
  case Nil
  with assms show ?thesis
    by (auto simp: drop_two_slices_def drop_in_place_one_panic)
next
  case (Cons y ys)
  with assms have "filter dp back = []" "length (filter dp front) \<le> 1" by auto
  with Cons show ?thesis
    by (simp add: drop_two_slices_def drop_in_place_one_panic drop_in_place_no_panic filter_empty_conv)
qed

section \<open>The slices and the contents\<close>

lemma read_slice_ok:
  assumes "s + n \<le> length cells" and "\<forall>i < n. cells ! (s + i) \<noteq> None"
  shows "read_slice cells (s, n) = Inr (map (\<lambda>i. the (cells ! (s + i))) [0..<n])"
proof -
  have "take n (drop s cells) = map (\<lambda>i. cells ! (s + i)) [0..<n]"
    using assms(1) by (rule map_upt_take_drop[symmetric])
  with assms show ?thesis
    by (auto simp: read_slice_def simp del: map_upt_take_drop)
qed

text \<open>Where the first \<open>k\<close> elements of the queue lie: up to the end of the array, then from its start.\<close>

lemma rb_front_cell:
  assumes "rb_inv rb" and "k \<le> rb_len rb" and "i < min k (rb_cap rb - rb_head rb)"
  shows "(rb_head rb + i) mod rb_cap rb = rb_head rb + i"
  using assms by (auto simp: rb_inv_def)

lemma rb_back_cell:
  assumes "rb_inv rb" and "k \<le> rb_len rb" and "i < k - min k (rb_cap rb - rb_head rb)"
  shows "(rb_head rb + (min k (rb_cap rb - rb_head rb) + i)) mod rb_cap rb = i"
    and "i < rb_cap rb"
proof -
  from assms have *: "rb_head rb < rb_cap rb" "min k (rb_cap rb - rb_head rb) = rb_cap rb - rb_head rb"
    "i < rb_cap rb"
    by (auto simp: rb_inv_def)
  from * have "rb_head rb + (rb_cap rb - rb_head rb + i) = rb_cap rb + i" by simp
  with * show "(rb_head rb + (min k (rb_cap rb - rb_head rb) + i)) mod rb_cap rb = i"
    by simp
  from * show "i < rb_cap rb" by simp
qed

lemma rb_inv_cell: "rb_inv rb \<Longrightarrow> i < rb_len rb \<Longrightarrow> rb_array rb ! ((rb_head rb + i) mod rb_cap rb) \<noteq> None"
  by (simp add: rb_inv_def)

lemma rb_inv_head_le: "rb_inv rb \<Longrightarrow> rb_head rb \<le> rb_cap rb"
  by (auto simp: rb_inv_def)

lemma rb_inv_head_less: "rb_inv rb \<Longrightarrow> 0 < rb_len rb \<Longrightarrow> rb_head rb < rb_cap rb"
  by (auto simp: rb_inv_def)

lemma rb_slot_less: "rb_inv rb \<Longrightarrow> i < rb_len rb \<Longrightarrow> (rb_head rb + i) mod rb_cap rb < rb_cap rb"
  by (intro mod_less_divisor) (auto simp: rb_inv_def)

lemma rb_read_front:
  assumes "rb_inv rb" and "k \<le> rb_len rb"
  shows "read_slice (rb_array rb) (rb_head rb, min k (rb_cap rb - rb_head rb))
    = Inr (take (min k (rb_cap rb - rb_head rb)) (rb_contents rb))"
    (is "read_slice _ (_, ?f) = _")
proof -
  have cell: "rb_array rb ! (rb_head rb + i) = rb_array rb ! ((rb_head rb + i) mod rb_cap rb)"
    if "i < ?f" for i
    using rb_front_cell[OF assms that] by simp
  have "\<forall>i < ?f. rb_array rb ! (rb_head rb + i) \<noteq> None"
    using cell rb_inv_cell[OF assms(1)] assms(2) by (metis le_trans less_le_trans min.cobounded1)
  moreover have "rb_head rb + ?f \<le> rb_cap rb"
    using rb_inv_head_le[OF assms(1)] by simp
  moreover have "map (\<lambda>i. the (rb_array rb ! (rb_head rb + i))) [0..<?f] = take ?f (rb_contents rb)"
    using assms(2) by (intro nth_equalityI) (auto simp: cell rb_contents_nth)
  ultimately show ?thesis by (simp add: read_slice_ok)
qed

lemma rb_read_back:
  assumes "rb_inv rb" and "k \<le> rb_len rb"
  shows "read_slice (rb_array rb) (0, k - min k (rb_cap rb - rb_head rb))
    = Inr (take (k - min k (rb_cap rb - rb_head rb)) (drop (min k (rb_cap rb - rb_head rb)) (rb_contents rb)))"
    (is "read_slice _ (_, k - ?f) = _")
proof -
  have cell: "rb_array rb ! i = rb_array rb ! ((rb_head rb + (?f + i)) mod rb_cap rb)"
    if "i < k - ?f" for i
    using rb_back_cell(1)[OF assms that] by simp
  have "\<forall>i < k - ?f. rb_array rb ! i \<noteq> None"
    using cell rb_inv_cell[OF assms(1)] assms(2) by (metis less_diff_conv2 add.commute less_diff_conv less_le_trans)
  moreover have "k - ?f \<le> rb_cap rb"
    using assms by (auto simp: rb_inv_def)
  moreover have "map (\<lambda>i. the (rb_array rb ! i)) [0..<k - ?f] = take (k - ?f) (drop ?f (rb_contents rb))"
    using assms(2) by (intro nth_equalityI) (auto simp: cell rb_contents_nth)
  ultimately show ?thesis by (simp add: read_slice_ok)
qed

lemma take_front_back: "k \<le> length xs \<Longrightarrow> f \<le> k \<Longrightarrow> take f xs @ take (k - f) (drop f xs) = take k xs"
  by (metis le_add_diff_inverse take_add)

text \<open>The two slices of the buffer, and with them the part of the queue that lies in each.\<close>

definition rb_split :: "'a ring_buffer \<Rightarrow> 'a list \<times> 'a list" where
  "rb_split rb = (let k = min (rb_len rb) (rb_cap rb - rb_head rb) in
     (take k (rb_contents rb), drop k (rb_contents rb)))"

lemma rb_as_slices_ok: "rb_inv rb \<Longrightarrow> rb_as_slices rb = Inr (rb_split rb)"
  using rb_read_front[of rb "rb_len rb"] rb_read_back[of rb "rb_len rb"] rb_inv_head_le[of rb]
  by (simp add: rb_as_slices_def rb_as_slice_pointers_def rb_split_def Let_def)

lemma rb_as_mut_slices_eq: "rb_as_mut_slices rb = rb_as_slices rb"
  by (simp add: rb_as_mut_slices_def rb_as_slices_def rb_as_mut_slice_pointers_def rb_as_slice_pointers_def)

lemma rb_as_mut_slices_ok: "rb_inv rb \<Longrightarrow> rb_as_mut_slices rb = Inr (rb_split rb)"
  by (simp add: rb_as_mut_slices_eq rb_as_slices_ok)

lemma rb_split_append: "rb_split rb = (xs, ys) \<Longrightarrow> xs @ ys = rb_contents rb"
  by (auto simp: rb_split_def Let_def)

section \<open>The empty buffer, clear and the destructor\<close>

lemma rb_inv_empty: "rb_inv \<lparr>rb_head = 0, rb_len = 0, rb_array = replicate c None\<rparr> \<longleftrightarrow> c \<le> usize_max"
  by (auto simp: rb_inv_def)

lemma vec_with_capacity_bounds:
  "vec_with_capacity sz cap = Inr c \<Longrightarrow> cap \<le> usize_max \<Longrightarrow> cap \<le> c \<and> c \<le> usize_max"
  by (auto simp: vec_with_capacity_def split: if_splits)

lemma rb_with_capacity_ok:
  assumes "rb_with_capacity sz cap = Inr rb" and "cap \<le> usize_max"
  shows "rb_inv rb \<and> rb_contents rb = [] \<and> cap \<le> rb_cap rb"
  using assms by (auto simp: rb_with_capacity_def bind_res_Inr_conv rb_inv_empty
      dest!: vec_with_capacity_bounds)

lemma rb_new_total: "\<exists>rb. rb_new sz = Inr rb \<and> rb_inv rb \<and> rb_contents rb = []"
  by (auto simp: rb_new_def rb_with_capacity_def vec_with_capacity_def rb_inv_def)

lemma rb_inv_reset: "rb_inv rb \<Longrightarrow> rb_inv (rb\<lparr>rb_head := 0, rb_len := 0\<rparr>)"
  by (auto simp: rb_inv_def)

lemma rb_clear_ok:
  assumes "rb_inv rb" and "length (filter dp (rb_contents rb)) \<le> 1"
  shows "rb_clear dp rb = Inr (rb\<lparr>rb_head := 0, rb_len := 0\<rparr>, rb_contents rb,
    if filter dp (rb_contents rb) = [] then Normal else Unwinding)"
proof -
  obtain xs ys where xy: "rb_split rb = (xs, ys)" by (cases "rb_split rb")
  with rb_split_append have "rb_contents rb = xs @ ys" by metis
  with assms xy show ?thesis
    by (simp add: rb_clear_def rb_as_mut_slices_ok drop_two_slices_all)
qed

lemma rb_drop_ok:
  assumes "rb_inv rb" and "length (filter dp (rb_contents rb)) \<le> 1"
  shows "rb_drop dp rb = Inr (rb_contents rb,
    if filter dp (rb_contents rb) = [] then Normal else Unwinding)"
proof -
  obtain xs ys where xy: "rb_split rb = (xs, ys)" by (cases "rb_split rb")
  have "rb_drop dp rb = Inr (drop_two_slices dp xs ys)"
    using rb_read_front[of rb "rb_len rb"] rb_read_back[of rb "rb_len rb"] rb_inv_head_le[of rb] assms(1) xy
    by (simp add: rb_drop_def rb_as_mut_slice_pointers_def rb_split_def Let_def)
  moreover from xy rb_split_append have "rb_contents rb = xs @ ys" by metis
  ultimately show ?thesis
    using assms(2) by (simp add: drop_two_slices_all)
qed

section \<open>push\<close>

lemma rb_push_room:
  assumes inv: "rb_inv rb" and room: "rb_len rb < rb_cap rb"
  shows "rb_push sz v rb = Inr (rb\<lparr>rb_array := (rb_array rb)[(rb_head rb + rb_len rb) mod rb_cap rb := Some v],
    rb_len := rb_len rb + 1\<rparr>)"
proof -
  from inv room have hd: "rb_head rb < rb_cap rb" "rb_cap rb \<le> usize_max" by (auto simp: rb_inv_def)
  then have "(rb_head rb + rb_len rb) mod rb_cap rb < rb_cap rb"
    by (intro mod_less_divisor) linarith
  with hd room show ?thesis by (simp add: rb_push_def ring_index_ok write_cell_def)
qed

lemma rb_push_room_ok:
  assumes inv: "rb_inv rb" and room: "rb_len rb < rb_cap rb" and push: "rb_push sz v rb = Inr rb'"
  shows "rb_inv rb' \<and> rb_contents rb' = rb_contents rb @ [v]"
proof -
  let ?slot = "\<lambda>i. (rb_head rb + i) mod rb_cap rb"
  have rb': "rb' = rb\<lparr>rb_array := (rb_array rb)[?slot (rb_len rb) := Some v], rb_len := rb_len rb + 1\<rparr>"
    using rb_push_room[OF inv room] push by simp
  have hd: "rb_head rb < rb_cap rb" "rb_cap rb \<le> usize_max"
    using inv room by (auto simp: rb_inv_def)
  then have slot: "?slot (rb_len rb) < rb_cap rb"
    by (intro mod_less_divisor) linarith
  have new: "(rb_array rb)[?slot (rb_len rb) := Some v] ! ?slot i =
      (if i = rb_len rb then Some v else rb_array rb ! ?slot i)" if "i \<le> rb_len rb" for i
    using ring_slot_inj[OF hd(1) _ room, of i] that room slot by (auto simp: nth_list_update)
  have "rb_inv rb'"
    using inv room by (auto simp: rb_inv_def rb' new less_Suc_eq_le)
  moreover have "rb_contents rb' = rb_contents rb @ [v]"
    by (rule nth_equalityI) (auto simp: rb_contents_nth rb' new nth_append less_Suc_eq_le rb_contents_def)
  ultimately show ?thesis by simp
qed

text \<open>Growing copies the part before the wrap first and the wrapped part behind it.\<close>

lemma copy_into_fresh:
  assumes "h \<le> length cells" and "length cells \<le> n"
  shows "copy_nonoverlapping cells h (replicate n None) 0 (length cells - h)
      = Inr (drop h cells @ replicate (n + h - length cells) None)"
    and "copy_nonoverlapping cells 0 (drop h cells @ replicate (n + h - length cells) None) (length cells - h) h
      = Inr (drop h cells @ take h cells @ replicate (n - length cells) None)"
  using assms by (auto simp: copy_nonoverlapping_def)

lemma rb_push_grow:
  assumes inv: "rb_inv rb" and full: "\<not> rb_len rb < rb_cap rb"
    and push: "rb_push sz v rb = Inr rb'"
  obtains n where "rb_cap rb < n" and "n \<le> usize_max"
    and "rb' = rb\<lparr>rb_head := 0, rb_len := rb_cap rb + 1, rb_array :=
      (drop (rb_head rb) (rb_array rb) @ take (rb_head rb) (rb_array rb) @
       replicate (n - rb_cap rb) None)[rb_cap rb := Some v]\<rparr>"
proof -
  have hd: "rb_head rb \<le> rb_cap rb" using inv by (rule rb_inv_head_le)
  from push full obtain nc vc where nc: "new_cap sz (rb_cap rb) = Inr nc"
    and vc: "vec_with_capacity sz nc = Inr vc"
    by (auto simp: rb_push_def bind_res_Inr_conv)
  have "rb_cap rb < nc" "nc \<le> usize_max"
    using nc by (auto simp: new_cap_def min_non_zero_cap_def usize_max_def split: if_splits)
  then have bounds: "rb_cap rb < vc" "vc \<le> usize_max"
    using vec_with_capacity_bounds[OF vc] by auto
  then have "rb' = rb\<lparr>rb_head := 0, rb_len := rb_cap rb + 1, rb_array :=
      (drop (rb_head rb) (rb_array rb) @ take (rb_head rb) (rb_array rb) @
       replicate (vc - rb_cap rb) None)[rb_cap rb := Some v]\<rparr>"
    using push full nc vc hd
    by (simp add: rb_push_def copy_into_fresh write_cell_def)
  with bounds that show thesis by blast
qed

lemma rb_rotated_nth:
  assumes "h < length cells" and "i < length cells"
  shows "(drop h cells @ take h cells) ! i = cells ! ((h + i) mod length cells)"
  using assms by (auto simp: nth_append ring_mod add.commute)

lemma rb_push_grow_ok:
  assumes inv: "rb_inv rb" and full: "\<not> rb_len rb < rb_cap rb" and push: "rb_push sz v rb = Inr rb'"
  shows "rb_inv rb' \<and> rb_contents rb' = rb_contents rb @ [v]"
proof -
  obtain n where n: "rb_cap rb < n" "n \<le> usize_max"
    and rb': "rb' = rb\<lparr>rb_head := 0, rb_len := rb_cap rb + 1, rb_array :=
      (drop (rb_head rb) (rb_array rb) @ take (rb_head rb) (rb_array rb) @
       replicate (n - rb_cap rb) None)[rb_cap rb := Some v]\<rparr>"
    using rb_push_grow[OF inv full push] by blast
  have len: "rb_len rb = rb_cap rb" using inv full by (simp add: rb_inv_def)
  have hd: "rb_head rb \<le> rb_cap rb" using inv by (rule rb_inv_head_le)
  have cap': "rb_cap rb' = n" using n hd by (simp add: rb')
  have cell: "rb_array rb' ! i =
      (if i = rb_cap rb then Some v else rb_array rb ! ((rb_head rb + i) mod rb_cap rb))"
    if "i \<le> rb_cap rb" for i
  proof (cases "i = rb_cap rb")
    case True
    then show ?thesis using n hd by (simp add: rb')
  next
    case False
    with that have i: "i < rb_cap rb" by simp
    with inv have "rb_head rb < rb_cap rb" by (auto simp: rb_inv_def)
    from rb_rotated_nth[OF this i] i
    have "((drop (rb_head rb) (rb_array rb) @ take (rb_head rb) (rb_array rb)) @ replicate (n - rb_cap rb) None) ! i
        = rb_array rb ! ((rb_head rb + i) mod rb_cap rb)"
      using hd by (subst nth_append) simp
    with i show ?thesis by (simp add: rb')
  qed
  have fields: "rb_head rb' = 0" "rb_len rb' = rb_cap rb + 1" by (simp_all add: rb')
  have "rb_array rb' ! i \<noteq> None" if "i \<le> rb_cap rb" for i
    using cell[OF that] rb_inv_cell[OF inv, of i] that len by auto
  then have "rb_inv rb'"
    using n cap' by (auto simp: rb_inv_def fields less_Suc_eq_le)
  moreover have "rb_contents rb' = rb_contents rb @ [v]"
  proof (rule nth_equalityI)
    show "length (rb_contents rb') = length (rb_contents rb @ [v])" by (simp add: rb' len)
  next
    fix i assume "i < length (rb_contents rb')"
    then have i: "i \<le> rb_cap rb" "i < rb_len rb'" by (auto simp: rb')
    then have "rb_contents rb' ! i = the (rb_array rb' ! i)"
      using n cap' by (simp add: rb_contents_nth) (simp add: rb')
    with i(1) show "rb_contents rb' ! i = (rb_contents rb @ [v]) ! i"
      by (auto simp: cell nth_append rb_contents_nth len)
  qed
  ultimately show ?thesis by simp
qed

lemma rb_push_ok:
  assumes "rb_inv rb" and "rb_push sz v rb = Inr rb'"
  shows "rb_inv rb'" and "rb_contents rb' = rb_contents rb @ [v]"
  using rb_push_room_ok[OF assms(1) _ assms(2)] rb_push_grow_ok[OF assms(1) _ assms(2)] by blast+

text \<open>The only failure of \<open>push\<close> is the capacity limit, and it needs a full buffer.\<close>

lemma rb_push_fault:
  assumes inv: "rb_inv rb" and push: "rb_push sz v rb = Inl e"
  shows "e = Capacity_overflow \<and> rb_len rb = rb_cap rb \<and>
    (usize_max < 2 * rb_cap rb \<or>
     0 < sz \<and> isize_max < max (2 * rb_cap rb) (min_non_zero_cap sz) * sz)"
proof -
  have full: "\<not> rb_len rb < rb_cap rb" using rb_push_room[OF inv] push by force
  then have len: "rb_len rb = rb_cap rb" using inv by (simp add: rb_inv_def)
  show ?thesis
  proof (cases "new_cap sz (rb_cap rb)")
    case (Inl a)
    with push full len show ?thesis
      by (auto simp: rb_push_def new_cap_def split: if_splits)
  next
    case nc: (Inr nc)
    then have nc_eq: "nc = max (2 * rb_cap rb) (min_non_zero_cap sz)" "rb_cap rb < nc" "nc \<le> usize_max"
      by (auto simp: new_cap_def min_non_zero_cap_def usize_max_def mult_2 split: if_splits)
    show ?thesis
    proof (cases "vec_with_capacity sz nc")
      case (Inl a)
      with push full len nc nc_eq show ?thesis
        by (auto simp: rb_push_def vec_with_capacity_def split: if_splits)
    next
      case vc: (Inr vc)
      with vec_with_capacity_bounds nc_eq have "rb_cap rb < vc" "vc \<le> usize_max" by fastforce+
      with push full nc vc rb_inv_head_le[OF inv] show ?thesis
        by (simp add: rb_push_def copy_into_fresh write_cell_def)
    qed
  qed
qed

section \<open>pop and drain\<close>

lemma drain_next_eq_pop: "drain_next rb = rb_pop rb"
  by (simp add: drain_next_def rb_pop_def Let_def)

lemma rb_pop_empty: "rb_len rb = 0 \<Longrightarrow> rb_pop rb = Inr (None, rb)"
  by (simp add: rb_pop_def)

text \<open>Removing the first \<open>k\<close> elements by moving the head.\<close>

definition rb_skip :: "nat \<Rightarrow> 'a ring_buffer \<Rightarrow> 'a ring_buffer" where
  "rb_skip k rb = rb\<lparr>rb_head := (rb_head rb + k) mod rb_cap rb, rb_len := rb_len rb - k\<rparr>"

lemma rb_skip_ok:
  assumes "rb_inv rb" and "k \<le> rb_len rb" and "0 < rb_len rb"
  shows "rb_inv (rb_skip k rb)" and "rb_contents (rb_skip k rb) = drop k (rb_contents rb)"
proof -
  have cap: "0 < rb_cap rb" using assms by (auto simp: rb_inv_def)
  have cell: "((rb_head rb + k) mod rb_cap rb + i) mod rb_cap rb = (rb_head rb + (k + i)) mod rb_cap rb" for i
    by (simp add: mod_simps add.assoc)
  show "rb_inv (rb_skip k rb)"
    using assms cap by (auto simp: rb_inv_def rb_skip_def cell)
  show "rb_contents (rb_skip k rb) = drop k (rb_contents rb)"
    by (rule nth_equalityI) (auto simp: rb_contents_def rb_skip_def cell)
qed

lemma rb_pop_skip:
  assumes "rb_inv rb" and "0 < rb_len rb"
  shows "rb_pop rb = Inr (Some (rb_contents rb ! 0), rb_skip 1 rb)"
proof -
  have hd: "rb_head rb < rb_cap rb" using assms by (rule rb_inv_head_less)
  then have "rb_array rb ! rb_head rb \<noteq> None"
    using rb_inv_cell[OF assms(1), of 0] assms(2) by simp
  with hd assms(2) show ?thesis
    by (auto simp: rb_pop_def read_cell_def rb_skip_def rb_contents_nth)
qed

lemma rb_pop_ok:
  assumes "rb_inv rb" and "rb_contents rb = x # xs"
  shows "\<exists>rb'. rb_pop rb = Inr (Some x, rb') \<and> rb_inv rb' \<and> rb_contents rb' = xs"
proof -
  have len: "0 < rb_len rb" using assms(2) by (metis length_rb_contents length_greater_0_conv list.discI)
  from rb_pop_skip[OF assms(1) len] rb_skip_ok[OF assms(1) _ len, of 1] len assms(2) show ?thesis
    by simp
qed

interpretation ring: fifo rb_contents "\<lambda>_. rb_inv" "rb_push sz" rb_pop for sz :: nat
  by unfold_locales (auto simp: rb_push_ok rb_pop_empty dest: rb_push_fault intro: rb_pop_ok)

lemma drain_take_ok:
  "rb_inv rb \<Longrightarrow> \<exists>rb'. drain_take n rb =
      Inr (map Some (take n (rb_contents rb)) @ replicate (n - rb_len rb) None, rb') \<and>
    rb_inv rb' \<and> rb_contents rb' = drop n (rb_contents rb)"
proof (induction n arbitrary: rb)
  case 0
  then show ?case by simp
next
  case (Suc n)
  show ?case
  proof (cases "rb_contents rb")
    case Nil
    with Suc.IH[OF Suc.prems] show ?thesis
      by (auto simp: drain_next_eq_pop rb_pop_empty)
  next
    case (Cons x xs)
    obtain rb1 where rb1: "rb_pop rb = Inr (Some x, rb1)" "rb_inv rb1" "rb_contents rb1 = xs"
      using rb_pop_ok[OF Suc.prems Cons] by blast
    have "rb_len rb = Suc (rb_len rb1)" using Cons rb1(3) by (metis length_rb_contents length_Cons)
    with Suc.IH[OF rb1(2)] rb1 Cons show ?thesis
      by (auto simp: drain_next_eq_pop)
  qed
qed

text \<open>
  \<open>Drain::nth\<close>: the first \<open>n\<close> elements are dropped, the next one is returned and the rest stays.
\<close>

lemma drain_nth_ok:
  assumes inv: "rb_inv rb" and n: "n < rb_len rb" and np: "\<forall>x \<in> set (take n (rb_contents rb)). \<not> dp x"
  shows "\<exists>rb'. drain_nth dp n rb = Inr (Some (rb_contents rb ! n), rb', take n (rb_contents rb), Normal) \<and>
    rb_inv rb' \<and> rb_contents rb' = drop (Suc n) (rb_contents rb)"
proof (cases "n = 0")
  case True
  have "rb_contents rb = rb_contents rb ! 0 # drop (Suc 0) (rb_contents rb)"
    using n by (metis Cons_nth_drop_Suc drop0 length_rb_contents True)
  with rb_pop_ok[OF inv this] True show ?thesis by (auto simp: drain_nth_def drain_next_eq_pop)
next
  case False
  let ?f = "min n (rb_cap rb - rb_head rb)"
  have len: "0 < rb_len rb" "n \<le> rb_len rb" using n by auto
  have hd: "rb_head rb < rb_cap rb" "rb_cap rb \<le> usize_max" "n \<le> rb_cap rb"
    using inv n by (auto simp: rb_inv_def)
  have split: "take ?f (rb_contents rb) @ take (n - ?f) (drop ?f (rb_contents rb)) = take n (rb_contents rb)"
    using len by (intro take_front_back) auto
  then have drops: "drop_two_slices dp (take ?f (rb_contents rb)) (take (n - ?f) (drop ?f (rb_contents rb)))
      = (take n (rb_contents rb), Normal)"
    using np by (subst drop_two_slices_all) (auto simp: filter_empty_conv)
  have "rb_contents (rb_skip n rb) = rb_contents rb ! n # drop (Suc n) (rb_contents rb)"
    using rb_skip_ok(2)[OF inv len(2,1)] n by (simp add: Cons_nth_drop_Suc)
  from rb_pop_ok[OF rb_skip_ok(1)[OF inv len(2,1)] this] obtain rb' where
    rb': "rb_pop (rb_skip n rb) = Inr (Some (rb_contents rb ! n), rb')" "rb_inv rb'"
      "rb_contents rb' = drop (Suc n) (rb_contents rb)"
    by blast
  have "drain_nth dp n rb = Inr (Some (rb_contents rb ! n), rb', take n (rb_contents rb), Normal)"
    using False n hd rb'(1) drops
      rb_read_front[OF inv len(2)] rb_read_back[OF inv len(2)]
    by (simp add: drain_nth_def ring_index_ok Let_def drain_next_eq_pop rb_skip_def)
  with rb' show ?thesis by blast
qed

section \<open>Properties\<close>

text \<open>A wrapped buffer of capacity 4 that holds 1, 2, 3, for the witnesses.\<close>

definition wrapped_ring :: "nat ring_buffer" where
  "wrapped_ring = \<lparr>rb_head = 3, rb_len = 3, rb_array = [Some 2, Some 3, None, Some 1]\<rparr>"

lemma all_less_3: "(\<forall>i < 3. P i) \<longleftrightarrow> P 0 \<and> P 1 \<and> P (2::nat)"
  by (auto simp: numeral_eq_Suc less_Suc_eq)

lemma wrapped_ring_inv: "rb_inv wrapped_ring"
  by (simp add: rb_inv_def wrapped_ring_def usize_max_def all_less_3)

lemma wrapped_ring_contents: "rb_contents wrapped_ring = [1, 2, 3]"
  by (simp add: rb_contents_def wrapped_ring_def upt_rec)

lemma wrapped_ring_fields: "rb_len wrapped_ring = 3" "rb_cap wrapped_ring = 4"
  by (simp_all add: wrapped_ring_def)

text \<open>
  Claim C1. A run of pushes and pops on a ring buffer in a valid state returns what the same run
  on a list returns, in the same order, and leaves the buffer valid with the contents of the list;
  the only way the run can fail is the capacity limit of a push. Nothing is lost, duplicated or
  read uninitialised, also when the buffer wraps around and when it grows.
\<close>

theorem ring_run_is_queue_run:
  assumes "rb_inv rb"
  shows "case fifo_run (rb_push sz) rb_pop ops rb of
      Inl e \<Rightarrow> e = Capacity_overflow
    | Inr (rs, rb') \<Rightarrow> rb_inv rb' \<and> fifo_spec ops (rb_contents rb) = (rs, rb_contents rb')"
  using ring.run_refines[OF assms, of sz ops] ring.run_fault[OF assms, of sz ops]
  by (auto split: sum.splits)

theorem ring_run_is_queue_run_witness:
  "case fifo_run (rb_push 8) rb_pop [Push 4, Push 5, Pop, Push 6, Pop] wrapped_ring of
      Inl e \<Rightarrow> e = Capacity_overflow
    | Inr (rs, rb') \<Rightarrow> rb_inv rb' \<and>
        fifo_spec [Push 4, Push 5, Pop, Push 6, Pop] (rb_contents wrapped_ring) = (rs, rb_contents rb')"
  by (rule ring_run_is_queue_run[OF wrapped_ring_inv])

text \<open>When the buffer is full and doubling it would pass the limits of \<open>usize\<close> or of an allocation.\<close>

definition push_over_limit :: "nat \<Rightarrow> 'a ring_buffer \<Rightarrow> bool" where
  "push_over_limit sz rb \<longleftrightarrow> rb_len rb = rb_cap rb \<and>
    (usize_max < 2 * rb_cap rb \<or>
     0 < sz \<and> isize_max < max (2 * rb_cap rb) (min_non_zero_cap sz) * sz)"

lemma rb_push_over_limit:
  assumes "rb_inv rb" and "push_over_limit sz rb"
  shows "rb_push sz v rb = Inl Capacity_overflow"
  using assms by (auto simp: push_over_limit_def rb_push_def new_cap_def vec_with_capacity_def mult_2)

text \<open>
  \<open>push\<close> on a valid buffer panics with \<open>capacity_overflow\<close> exactly when the buffer is full
  and its doubled capacity does not fit \<open>usize\<close> or an allocation; in every other case it returns a
  valid buffer with the value appended.
\<close>

theorem push_total:
  assumes "rb_inv rb"
  shows "if push_over_limit sz rb then rb_push sz v rb = Inl Capacity_overflow
    else \<exists>rb'. rb_push sz v rb = Inr rb' \<and> rb_inv rb' \<and> rb_contents rb' = rb_contents rb @ [v]"
  using rb_push_over_limit[OF assms] rb_push_ok[OF assms, of sz v] rb_push_fault[OF assms, of sz v]
  by (cases "rb_push sz v rb") (auto simp: push_over_limit_def)

theorem push_total_witness:
  "\<exists>rb'. rb_push 8 9 wrapped_ring = Inr rb' \<and> rb_inv rb' \<and>
    rb_contents rb' = rb_contents wrapped_ring @ [9]"
proof -
  have "\<not> push_over_limit 8 wrapped_ring" by (simp add: push_over_limit_def wrapped_ring_def)
  then show ?thesis using push_total[OF wrapped_ring_inv, of 8 9] by simp
qed

text \<open>
  Claim C39. The destructor of a buffer in which at most one element's destructor panics drops every
  element of the queue exactly once and in order, and unwinds exactly when one of them panicked.
  The cells outside the queue are not touched.
\<close>

theorem drop_drops_each_once:
  assumes "rb_inv rb" and "length (filter dp (rb_contents rb)) \<le> 1"
  shows "rb_drop dp rb = Inr (rb_contents rb,
    if \<exists>x \<in> set (rb_contents rb). dp x then Unwinding else Normal)"
  using rb_drop_ok[OF assms] by (auto simp: filter_empty_conv)

theorem drop_drops_each_once_witness:
  "rb_drop (\<lambda>x. x = 1) wrapped_ring = Inr ([1, 2, 3], Unwinding)"
  using drop_drops_each_once[OF wrapped_ring_inv, of "\<lambda>x. x = 1"] by (simp add: wrapped_ring_contents)

text \<open>
  Draining: \<open>n\<close> calls of \<open>next\<close> on a \<open>Drain\<close> yield the first \<open>n\<close> elements of the queue in
  order (then \<open>None\<close>), and dropping the \<open>Drain\<close> afterwards drops exactly the elements not yielded
  and leaves a valid empty buffer with its capacity.
\<close>

theorem drain_yields_then_drops_rest:
  assumes inv: "rb_inv rb" and np: "\<forall>x \<in> set (drop n (rb_contents rb)). \<not> dp x"
  shows "\<exists>rb1 rb2. drain_take n rb =
      Inr (map Some (take n (rb_contents rb)) @ replicate (n - length (rb_contents rb)) None, rb1) \<and>
    drain_drop dp rb1 = Inr (rb2, drop n (rb_contents rb), Normal) \<and>
    rb_inv rb2 \<and> rb_contents rb2 = []"
proof -
  obtain rb1 where rb1: "drain_take n rb =
      Inr (map Some (take n (rb_contents rb)) @ replicate (n - rb_len rb) None, rb1)"
      "rb_inv rb1" "rb_contents rb1 = drop n (rb_contents rb)"
    using drain_take_ok[OF inv] by blast
  have "filter dp (rb_contents rb1) = []" using np rb1(3) by (simp add: filter_empty_conv)
  then have "drain_drop dp rb1 = Inr (rb1\<lparr>rb_head := 0, rb_len := 0\<rparr>, drop n (rb_contents rb), Normal)"
    using rb_clear_ok[OF rb1(2), of dp] rb1(3) by (simp add: drain_drop_def)
  with rb1 rb_inv_reset show ?thesis by fastforce
qed

theorem drain_yields_then_drops_rest_witness:
  "\<exists>rb1 rb2. drain_take 2 wrapped_ring = Inr ([Some 1, Some 2], rb1) \<and>
    drain_drop (\<lambda>_. False) rb1 = Inr (rb2, [3], Normal) \<and> rb_inv rb2 \<and> rb_contents rb2 = []"
  using drain_yields_then_drops_rest[OF wrapped_ring_inv, of 2 "\<lambda>_. False"]
  by (simp add: wrapped_ring_contents)

text \<open>
  \<open>Drain::nth(n)\<close> returns element \<open>n\<close> of the queue, drops the \<open>n\<close> elements before it (in
  order, also when they lie on both sides of the wrap) and keeps the elements after it; past the end
  it drops everything and returns \<open>None\<close>.
\<close>

theorem drain_nth_spec:
  assumes inv: "rb_inv rb" and np: "\<forall>x \<in> set (take n (rb_contents rb)). \<not> dp x"
  shows "\<exists>rb'. drain_nth dp n rb =
      Inr (if n < length (rb_contents rb) then Some (rb_contents rb ! n) else None,
           rb', take n (rb_contents rb), Normal) \<and>
    rb_inv rb' \<and> rb_contents rb' = drop (Suc n) (rb_contents rb)"
proof (cases "n < rb_len rb")
  case True
  with drain_nth_ok[OF inv True np] show ?thesis by simp
next
  case False
  then have all: "take n (rb_contents rb) = rb_contents rb" by simp
  with np have "filter dp (rb_contents rb) = []" by (simp add: filter_empty_conv)
  with rb_clear_ok[OF inv, of dp] False all rb_inv_reset[OF inv] inv show ?thesis
    by (auto simp: drain_nth_def drain_next_eq_pop rb_pop_empty)
qed

theorem drain_nth_spec_witness:
  "\<exists>rb'. drain_nth (\<lambda>_. False) 2 wrapped_ring = Inr (Some 3, rb', [1, 2], Normal) \<and>
    rb_inv rb' \<and> rb_contents rb' = []"
  using drain_nth_spec[OF wrapped_ring_inv, of 2 "\<lambda>_. False"] by (simp add: wrapped_ring_contents)

end
