(* ===== verification/Ring_Iter.thy ===== *)
theory Ring_Iter
  imports Ring_Buffer
begin

text \<open>
  The iterators \<open>Iter\<close> and \<open>IterMut\<close> of \<open>src/src/ring_buffer.rs\<close>: a pair of slice iterators, over
  the part of the queue in front of the wrap and over the part behind it.

  A slice iterator of the standard library is the list of the references it has still to yield
  (\<open>slice_next\<close>, \<open>slice_next_back\<close>, \<open>slice_nth\<close>, \<open>slice_nth_back\<close>). Closures are \<open>FnMut\<close>: they take and
  return a state, which holds what the closure captures and, for \<open>IterMut\<close>, the memory the
  yielded references point into. A reference of \<open>Iter\<close> is the value it points to; a reference of
  \<open>IterMut\<close> is the index of its cell.
\<close>

section \<open>Slice iterators of the standard library\<close>

fun slice_next :: "'h list \<Rightarrow> 'h option \<times> 'h list" where
  "slice_next [] = (None, [])"
| "slice_next (x # xs) = (Some x, xs)"

definition slice_next_back :: "'h list \<Rightarrow> 'h option \<times> 'h list" where
  "slice_next_back xs = (if xs = [] then (None, []) else (Some (last xs), butlast xs))"

definition slice_nth :: "nat \<Rightarrow> 'h list \<Rightarrow> 'h option \<times> 'h list" where
  "slice_nth n xs = (if n < length xs then (Some (xs ! n), drop (Suc n) xs) else (None, []))"

definition slice_nth_back :: "nat \<Rightarrow> 'h list \<Rightarrow> 'h option \<times> 'h list" where
  "slice_nth_back n xs =
     (if n < length xs then (Some (rev xs ! n), take (length xs - Suc n) xs) else (None, []))"

definition slice_last :: "'h list \<Rightarrow> 'h option" where
  "slice_last xs = (if xs = [] then None else Some (last xs))"

text \<open>
  The \<open>for item in &mut slice\<close> loops with an early return: the result, the references not yet
  yielded and the state of the closure.
\<close>

fun slice_all :: "('h \<Rightarrow> 's \<Rightarrow> bool \<times> 's) \<Rightarrow> 'h list \<Rightarrow> 's \<Rightarrow> bool \<times> 'h list \<times> 's" where
  "slice_all f [] s = (True, [], s)"
| "slice_all f (x # xs) s = (case f x s of (b, s') \<Rightarrow> if \<not> b then (False, xs, s') else slice_all f xs s')"

fun slice_any :: "('h \<Rightarrow> 's \<Rightarrow> bool \<times> 's) \<Rightarrow> 'h list \<Rightarrow> 's \<Rightarrow> bool \<times> 'h list \<times> 's" where
  "slice_any f [] s = (False, [], s)"
| "slice_any f (x # xs) s = (case f x s of (b, s') \<Rightarrow> if b then (True, xs, s') else slice_any f xs s')"

fun slice_find :: "('h \<Rightarrow> 's \<Rightarrow> bool \<times> 's) \<Rightarrow> 'h list \<Rightarrow> 's \<Rightarrow> 'h option \<times> 'h list \<times> 's" where
  "slice_find p [] s = (None, [], s)"
| "slice_find p (x # xs) s = (case p x s of (b, s') \<Rightarrow> if b then (Some x, xs, s') else slice_find p xs s')"

text \<open>The loops of \<open>position\<close> count up, those of \<open>rposition\<close> count down before the test.\<close>

fun slice_position :: "('h \<Rightarrow> 's \<Rightarrow> bool \<times> 's) \<Rightarrow> 'h list \<Rightarrow> nat \<Rightarrow> 's
    \<Rightarrow> nat option \<times> nat \<times> 'h list \<times> 's" where
  "slice_position p [] pos s = (None, pos, [], s)"
| "slice_position p (x # xs) pos s =
     (case p x s of (b, s') \<Rightarrow> if b then (Some pos, pos, xs, s') else slice_position p xs (pos + 1) s')"

fun slice_position_down :: "('h \<Rightarrow> 's \<Rightarrow> bool \<times> 's) \<Rightarrow> 'h list \<Rightarrow> nat \<Rightarrow> 's
    \<Rightarrow> nat option \<times> nat \<times> 'h list \<times> 's" where
  "slice_position_down p [] pos s = (None, pos, [], s)"
| "slice_position_down p (x # xs) pos s =
     (case p x s of (b, s') \<Rightarrow> if b then (Some (pos - 1), pos - 1, xs, s')
       else slice_position_down p xs (pos - 1) s')"

section \<open>Iter\<close>

record 'h two_slices =
  it_front :: "'h list"
  it_back :: "'h list"

definition rb_iter :: "'a ring_buffer \<Rightarrow> 'a two_slices res" where
  "rb_iter rb = bind_res (rb_as_slices rb) (\<lambda>(front, back). Inr \<lparr>it_front = front, it_back = back\<rparr>)"

definition iter_next :: "'h two_slices \<Rightarrow> 'h option \<times> 'h two_slices" where
  "iter_next it =
     (case slice_next (it_front it) of (a, front) \<Rightarrow>
      case slice_next (it_back it) of (b, back) \<Rightarrow>
        (option_or a b, \<lparr>it_front = front, it_back = back\<rparr>))"

definition iter_size_hint :: "'h two_slices \<Rightarrow> nat \<times> nat option" where
  "iter_size_hint it = (length (it_front it) + length (it_back it), None)"

definition iter_nth :: "nat \<Rightarrow> 'h two_slices \<Rightarrow> 'h option \<times> 'h two_slices" where
  "iter_nth n it =
     (if n \<ge> length (it_front it) then
        case slice_nth (length (it_front it)) (it_front it) of (_, front) \<Rightarrow>
        case slice_nth (n - length front) (it_back it) of (r, back) \<Rightarrow>
          (r, \<lparr>it_front = front, it_back = back\<rparr>)
      else
        case slice_nth n (it_front it) of (r, front) \<Rightarrow> (r, it\<lparr>it_front := front\<rparr>))"

definition iter_fold :: "('b \<Rightarrow> 'h \<Rightarrow> 'b) \<Rightarrow> 'b \<Rightarrow> 'h two_slices \<Rightarrow> 'b" where
  "iter_fold f init it =
     (let state = foldl f init (it_front it) in foldl f state (it_back it))"

definition iter_for_each :: "('h \<Rightarrow> 's \<Rightarrow> 's) \<Rightarrow> 'h two_slices \<Rightarrow> 's \<Rightarrow> 's" where
  "iter_for_each f it s = (let s' = fold f (it_front it) s in fold f (it_back it) s')"

definition iter_count :: "'h two_slices \<Rightarrow> nat" where
  "iter_count it = length (it_front it) + length (it_back it)"

definition iter_last :: "'h two_slices \<Rightarrow> 'h option" where
  "iter_last it = option_or (slice_last (it_back it)) (slice_last (it_front it))"

definition iter_all :: "('h \<Rightarrow> 's \<Rightarrow> bool \<times> 's) \<Rightarrow> 'h two_slices \<Rightarrow> 's \<Rightarrow> bool \<times> 'h two_slices \<times> 's" where
  "iter_all f it s =
     (case slice_all f (it_front it) s of (ok, front, s') \<Rightarrow>
        if \<not> ok then (False, it\<lparr>it_front := front\<rparr>, s')
        else case slice_all f (it_back it) s' of (ok', back, s'') \<Rightarrow>
          (ok', \<lparr>it_front = front, it_back = back\<rparr>, s''))"

definition iter_any :: "('h \<Rightarrow> 's \<Rightarrow> bool \<times> 's) \<Rightarrow> 'h two_slices \<Rightarrow> 's \<Rightarrow> bool \<times> 'h two_slices \<times> 's" where
  "iter_any f it s =
     (case slice_any f (it_front it) s of (found, front, s') \<Rightarrow>
        if found then (True, it\<lparr>it_front := front\<rparr>, s')
        else case slice_any f (it_back it) s' of (found', back, s'') \<Rightarrow>
          (found', \<lparr>it_front = front, it_back = back\<rparr>, s''))"

definition iter_find :: "('h \<Rightarrow> 's \<Rightarrow> bool \<times> 's) \<Rightarrow> 'h two_slices \<Rightarrow> 's
    \<Rightarrow> 'h option \<times> 'h two_slices \<times> 's" where
  "iter_find f it s =
     (case slice_find f (it_front it) s of (r, front, s') \<Rightarrow>
        if r \<noteq> None then (r, it\<lparr>it_front := front\<rparr>, s')
        else case slice_find f (it_back it) s' of (r', back, s'') \<Rightarrow>
          (r', \<lparr>it_front = front, it_back = back\<rparr>, s''))"

definition iter_position :: "('h \<Rightarrow> 's \<Rightarrow> bool \<times> 's) \<Rightarrow> 'h two_slices \<Rightarrow> 's
    \<Rightarrow> nat option \<times> 'h two_slices \<times> 's" where
  "iter_position f it s =
     (case slice_position f (it_front it) 0 s of (r, pos, front, s') \<Rightarrow>
        if r \<noteq> None then (r, it\<lparr>it_front := front\<rparr>, s')
        else case slice_position f (it_back it) pos s' of (r', _, back, s'') \<Rightarrow>
          (r', \<lparr>it_front = front, it_back = back\<rparr>, s''))"

definition iter_rposition :: "('h \<Rightarrow> 's \<Rightarrow> bool \<times> 's) \<Rightarrow> 'h two_slices \<Rightarrow> 's
    \<Rightarrow> nat option \<times> 'h two_slices \<times> 's" where
  "iter_rposition f it s =
     (case slice_position_down f (rev (it_back it)) (length (it_back it) + length (it_front it)) s of
        (r, pos, back, s') \<Rightarrow>
        if r \<noteq> None then (r, it\<lparr>it_back := rev back\<rparr>, s')
        else case slice_position_down f (rev (it_front it)) pos s' of (r', _, front, s'') \<Rightarrow>
          (r', \<lparr>it_front = rev front, it_back = rev back\<rparr>, s''))"

definition iter_next_back :: "'h two_slices \<Rightarrow> 'h option \<times> 'h two_slices" where
  "iter_next_back it =
     (case slice_next_back (it_back it) of (b, back) \<Rightarrow>
      case slice_next_back (it_front it) of (a, front) \<Rightarrow>
        (option_or b a, \<lparr>it_front = front, it_back = back\<rparr>))"

definition iter_nth_back :: "nat \<Rightarrow> 'h two_slices \<Rightarrow> 'h option \<times> 'h two_slices" where
  "iter_nth_back n it =
     (if n \<ge> length (it_back it) then
        case slice_nth_back (length (it_back it)) (it_back it) of (_, back) \<Rightarrow>
        case slice_nth_back (n - length back) (it_front it) of (r, front) \<Rightarrow>
          (r, \<lparr>it_front = front, it_back = back\<rparr>)
      else
        case slice_nth_back n (it_back it) of (r, back) \<Rightarrow> (r, it\<lparr>it_back := back\<rparr>))"

definition iter_rfold :: "('b \<Rightarrow> 'h \<Rightarrow> 'b) \<Rightarrow> 'b \<Rightarrow> 'h two_slices \<Rightarrow> 'b" where
  "iter_rfold f init it =
     (let state = foldl f init (rev (it_back it)) in foldl f state (rev (it_front it)))"

definition iter_rfind :: "('h \<Rightarrow> 's \<Rightarrow> bool \<times> 's) \<Rightarrow> 'h two_slices \<Rightarrow> 's
    \<Rightarrow> 'h option \<times> 'h two_slices \<times> 's" where
  "iter_rfind f it s =
     (case slice_find f (rev (it_back it)) s of (r, back, s') \<Rightarrow>
        if r \<noteq> None then (r, it\<lparr>it_back := rev back\<rparr>, s')
        else case slice_find f (rev (it_front it)) s' of (r', front, s'') \<Rightarrow>
          (r', \<lparr>it_front = rev front, it_back = rev back\<rparr>, s''))"

section \<open>IterMut\<close>

text \<open>The references of \<open>iter_mut\<close> are the cells of the two slices of \<open>as_mut_slices\<close>.\<close>

definition rb_iter_mut :: "'a ring_buffer \<Rightarrow> nat two_slices res" where
  "rb_iter_mut rb =
     bind_res (rb_as_mut_slices rb) (\<lambda>_.
       bind_res (rb_as_mut_slice_pointers rb) (\<lambda>((s, n), (s', n')).
         Inr \<lparr>it_front = [s..<s + n], it_back = [s'..<s' + n']\<rparr>))"

definition iter_mut_next :: "'h two_slices \<Rightarrow> 'h option \<times> 'h two_slices" where
  "iter_mut_next it =
     (case slice_next (it_front it) of (a, front) \<Rightarrow>
      case slice_next (it_back it) of (b, back) \<Rightarrow>
        (option_or a b, \<lparr>it_front = front, it_back = back\<rparr>))"

definition iter_mut_size_hint :: "'h two_slices \<Rightarrow> nat \<times> nat option" where
  "iter_mut_size_hint it = (length (it_front it) + length (it_back it), None)"

definition iter_mut_nth :: "nat \<Rightarrow> 'h two_slices \<Rightarrow> 'h option \<times> 'h two_slices" where
  "iter_mut_nth n it =
     (if n \<ge> length (it_front it) then
        case slice_nth (length (it_front it)) (it_front it) of (_, front) \<Rightarrow>
        case slice_nth (n - length front) (it_back it) of (r, back) \<Rightarrow>
          (r, \<lparr>it_front = front, it_back = back\<rparr>)
      else
        case slice_nth n (it_front it) of (r, front) \<Rightarrow> (r, it\<lparr>it_front := front\<rparr>))"

definition iter_mut_fold :: "('b \<Rightarrow> 'h \<Rightarrow> 'b) \<Rightarrow> 'b \<Rightarrow> 'h two_slices \<Rightarrow> 'b" where
  "iter_mut_fold f init it =
     (let state = foldl f init (it_front it) in foldl f state (it_back it))"

definition iter_mut_for_each :: "('h \<Rightarrow> 's \<Rightarrow> 's) \<Rightarrow> 'h two_slices \<Rightarrow> 's \<Rightarrow> 's" where
  "iter_mut_for_each f it s = (let s' = fold f (it_front it) s in fold f (it_back it) s')"

definition iter_mut_count :: "'h two_slices \<Rightarrow> nat" where
  "iter_mut_count it = length (it_front it) + length (it_back it)"

definition iter_mut_last :: "'h two_slices \<Rightarrow> 'h option" where
  "iter_mut_last it = option_or (slice_last (it_back it)) (slice_last (it_front it))"

definition iter_mut_all :: "('h \<Rightarrow> 's \<Rightarrow> bool \<times> 's) \<Rightarrow> 'h two_slices \<Rightarrow> 's \<Rightarrow> bool \<times> 'h two_slices \<times> 's" where
  "iter_mut_all f it s =
     (case slice_all f (it_front it) s of (ok, front, s') \<Rightarrow>
        if \<not> ok then (False, it\<lparr>it_front := front\<rparr>, s')
        else case slice_all f (it_back it) s' of (ok', back, s'') \<Rightarrow>
          (ok', \<lparr>it_front = front, it_back = back\<rparr>, s''))"

definition iter_mut_any :: "('h \<Rightarrow> 's \<Rightarrow> bool \<times> 's) \<Rightarrow> 'h two_slices \<Rightarrow> 's \<Rightarrow> bool \<times> 'h two_slices \<times> 's" where
  "iter_mut_any f it s =
     (case slice_any f (it_front it) s of (found, front, s') \<Rightarrow>
        if found then (True, it\<lparr>it_front := front\<rparr>, s')
        else case slice_any f (it_back it) s' of (found', back, s'') \<Rightarrow>
          (found', \<lparr>it_front = front, it_back = back\<rparr>, s''))"

definition iter_mut_find :: "('h \<Rightarrow> 's \<Rightarrow> bool \<times> 's) \<Rightarrow> 'h two_slices \<Rightarrow> 's
    \<Rightarrow> 'h option \<times> 'h two_slices \<times> 's" where
  "iter_mut_find f it s =
     (case slice_find f (it_front it) s of (r, front, s') \<Rightarrow>
        if r \<noteq> None then (r, it\<lparr>it_front := front\<rparr>, s')
        else case slice_find f (it_back it) s' of (r', back, s'') \<Rightarrow>
          (r', \<lparr>it_front = front, it_back = back\<rparr>, s''))"

definition iter_mut_position :: "('h \<Rightarrow> 's \<Rightarrow> bool \<times> 's) \<Rightarrow> 'h two_slices \<Rightarrow> 's
    \<Rightarrow> nat option \<times> 'h two_slices \<times> 's" where
  "iter_mut_position f it s =
     (case slice_position f (it_front it) 0 s of (r, pos, front, s') \<Rightarrow>
        if r \<noteq> None then (r, it\<lparr>it_front := front\<rparr>, s')
        else case slice_position f (it_back it) pos s' of (r', _, back, s'') \<Rightarrow>
          (r', \<lparr>it_front = front, it_back = back\<rparr>, s''))"

definition iter_mut_rposition :: "('h \<Rightarrow> 's \<Rightarrow> bool \<times> 's) \<Rightarrow> 'h two_slices \<Rightarrow> 's
    \<Rightarrow> nat option \<times> 'h two_slices \<times> 's" where
  "iter_mut_rposition f it s =
     (case slice_position_down f (rev (it_back it)) (length (it_back it) + length (it_front it)) s of
        (r, pos, back, s') \<Rightarrow>
        if r \<noteq> None then (r, it\<lparr>it_back := rev back\<rparr>, s')
        else case slice_position_down f (rev (it_front it)) pos s' of (r', _, front, s'') \<Rightarrow>
          (r', \<lparr>it_front = rev front, it_back = rev back\<rparr>, s''))"

definition iter_mut_next_back :: "'h two_slices \<Rightarrow> 'h option \<times> 'h two_slices" where
  "iter_mut_next_back it =
     (case slice_next_back (it_back it) of (b, back) \<Rightarrow>
      case slice_next_back (it_front it) of (a, front) \<Rightarrow>
        (option_or b a, \<lparr>it_front = front, it_back = back\<rparr>))"

definition iter_mut_nth_back :: "nat \<Rightarrow> 'h two_slices \<Rightarrow> 'h option \<times> 'h two_slices" where
  "iter_mut_nth_back n it =
     (if n \<ge> length (it_back it) then
        case slice_nth_back (length (it_back it)) (it_back it) of (_, back) \<Rightarrow>
        case slice_nth_back (n - length back) (it_front it) of (r, front) \<Rightarrow>
          (r, \<lparr>it_front = front, it_back = back\<rparr>)
      else
        case slice_nth_back n (it_back it) of (r, back) \<Rightarrow> (r, it\<lparr>it_back := back\<rparr>))"

definition iter_mut_rfold :: "('b \<Rightarrow> 'h \<Rightarrow> 'b) \<Rightarrow> 'b \<Rightarrow> 'h two_slices \<Rightarrow> 'b" where
  "iter_mut_rfold f init it =
     (let state = foldl f init (rev (it_back it)) in foldl f state (rev (it_front it)))"

definition iter_mut_rfind :: "('h \<Rightarrow> 's \<Rightarrow> bool \<times> 's) \<Rightarrow> 'h two_slices \<Rightarrow> 's
    \<Rightarrow> 'h option \<times> 'h two_slices \<times> 's" where
  "iter_mut_rfind f it s =
     (case slice_find f (rev (it_back it)) s of (r, back, s') \<Rightarrow>
        if r \<noteq> None then (r, it\<lparr>it_back := rev back\<rparr>, s')
        else case slice_find f (rev (it_front it)) s' of (r', front, s'') \<Rightarrow>
          (r', \<lparr>it_front = rev front, it_back = rev back\<rparr>, s''))"

section \<open>Repeated calls of next\<close>

text \<open>
  What a consumer that calls \<open>next\<close> until it returns \<open>None\<close> sees (a \<open>for\<close> loop, \<open>collect\<close>).
\<close>

lemma iter_next_Some_measure:
  "iter_next it = (Some x, it') \<Longrightarrow>
    length (it_front it') + length (it_back it') < length (it_front it) + length (it_back it)"
  by (cases "it_front it"; cases "it_back it") (auto simp: iter_next_def)

function iter_collect :: "'h two_slices \<Rightarrow> 'h list" where
  "iter_collect it = (case iter_next it of (None, _) \<Rightarrow> [] | (Some x, it') \<Rightarrow> x # iter_collect it')"
  by pat_completeness auto
termination
  by (relation "measure (\<lambda>it. length (it_front it) + length (it_back it))")
    (auto dest: iter_next_Some_measure[OF sym])

declare iter_collect.simps [simp del]

lemma iter_collect_slices:
  "iter_collect \<lparr>it_front = xs, it_back = ys\<rparr> = xs @ drop (length xs) ys"
proof (induction "length xs + length ys" arbitrary: xs ys rule: less_induct)
  case less
  show ?case
  proof (cases xs)
    case (Cons x xs')
    then have "iter_collect \<lparr>it_front = xs', it_back = tl ys\<rparr> = xs' @ drop (length xs') (tl ys)"
      by (intro less.hyps) simp
    with Cons show ?thesis
      by (cases ys) (simp_all add: iter_collect.simps[of "\<lparr>it_front = _, it_back = _\<rparr>"] iter_next_def)
  next
    case Nil
    show ?thesis
    proof (cases ys)
      case (Cons y ys')
      then have "iter_collect \<lparr>it_front = [], it_back = ys'\<rparr> = ys'"
        using less.hyps[of "[]" ys'] Nil by simp
      with Nil Cons show ?thesis
        by (simp add: iter_collect.simps[of "\<lparr>it_front = _, it_back = _\<rparr>"] iter_next_def)
    qed (simp add: Nil iter_collect.simps[of "\<lparr>it_front = _, it_back = _\<rparr>"] iter_next_def)
  qed
qed

section \<open>The overridden methods visit the whole queue\<close>

lemma rb_iter_ok: "rb_inv rb \<Longrightarrow>
    rb_iter rb = Inr \<lparr>it_front = fst (rb_split rb), it_back = snd (rb_split rb)\<rparr>"
  by (cases "rb_split rb") (simp add: rb_iter_def rb_as_slices_ok)

lemma rb_iter_contents: "rb_inv rb \<Longrightarrow> rb_iter rb = Inr it \<Longrightarrow> it_front it @ it_back it = rb_contents rb"
  by (auto simp: rb_iter_ok rb_split_append)

lemma iter_fold_append: "iter_fold f z it = foldl f z (it_front it @ it_back it)"
  by (simp add: iter_fold_def)

lemma iter_rfold_append: "iter_rfold f z it = foldl f z (rev (it_front it @ it_back it))"
  by (simp add: iter_rfold_def)

lemma slice_find_pure: "slice_find (\<lambda>x s. (p x, s)) xs s =
    (List.find p xs, tl (dropWhile (Not \<circ> p) xs), s)"
  by (induction xs) auto

lemma find_append: "List.find p (xs @ ys) = (case List.find p xs of None \<Rightarrow> List.find p ys | Some x \<Rightarrow> Some x)"
  by (induction xs) auto

lemma iter_find_pure:
  "fst (iter_find (\<lambda>x s. (p x, s)) it s) = List.find p (it_front it @ it_back it)"
  by (auto simp: iter_find_def slice_find_pure find_append split: option.splits)

lemma slice_position_pure:
  "slice_position (\<lambda>x s. (p x, s)) xs pos s =
    (if \<exists>x \<in> set xs. p x
     then (Some (pos + length (takeWhile (Not \<circ> p) xs)), pos + length (takeWhile (Not \<circ> p) xs),
           tl (dropWhile (Not \<circ> p) xs), s)
     else (None, pos + length xs, [], s))"
  by (induction xs arbitrary: pos) auto

lemma iter_position_pure:
  "fst (iter_position (\<lambda>x s. (p x, s)) it s) =
    (let xs = it_front it @ it_back it
     in if \<exists>x \<in> set xs. p x then Some (length (takeWhile (Not \<circ> p) xs)) else None)"
  by (auto simp: iter_position_def slice_position_pure takeWhile_append Let_def)

lemma slice_position_down_pure:
  "length xs \<le> pos \<Longrightarrow> slice_position_down (\<lambda>x s. (p x, s)) xs pos s =
    (if \<exists>x \<in> set xs. p x
     then (Some (pos - Suc (length (takeWhile (Not \<circ> p) xs))), pos - Suc (length (takeWhile (Not \<circ> p) xs)),
           tl (dropWhile (Not \<circ> p) xs), s)
     else (None, pos - length xs, [], s))"
  by (induction xs arbitrary: pos) auto

text \<open>\<open>rposition\<close> is the index of the last element that satisfies the predicate.\<close>

lemma iter_rposition_pure:
  "fst (iter_rposition (\<lambda>x s. (p x, s)) it s) =
    (let xs = it_front it @ it_back it
     in if \<exists>x \<in> set xs. p x then Some (length xs - Suc (length (takeWhile (Not \<circ> p) (rev xs)))) else None)"
  by (auto simp: iter_rposition_def slice_position_down_pure takeWhile_append add.commute Let_def)

lemma slice_all_pure: "fst (slice_all (\<lambda>x s. (p x, s)) xs s) = list_all p xs"
  "snd (snd (slice_all (\<lambda>x s. (p x, s)) xs s)) = s"
  by (induction xs) auto

lemma slice_any_pure: "fst (slice_any (\<lambda>x s. (p x, s)) xs s) = list_ex p xs"
  "snd (snd (slice_any (\<lambda>x s. (p x, s)) xs s)) = s"
  by (induction xs) auto

lemma iter_all_pure: "fst (iter_all (\<lambda>x s. (p x, s)) it s) = list_all p (it_front it @ it_back it)"
  using slice_all_pure[of p "it_front it" s] slice_all_pure[of p "it_back it" s]
  by (auto simp: iter_all_def split: prod.splits)

lemma iter_any_pure: "fst (iter_any (\<lambda>x s. (p x, s)) it s) = list_ex p (it_front it @ it_back it)"
  using slice_any_pure[of p "it_front it" s] slice_any_pure[of p "it_back it" s]
  by (auto simp: iter_any_def split: prod.splits)

lemma iter_last_append: "iter_last it = slice_last (it_front it @ it_back it)"
  by (simp add: iter_last_def slice_last_def)

section \<open>IterMut yields each cell of the queue once\<close>

lemma rb_iter_mut_cells:
  assumes "rb_inv rb" and "rb_iter_mut rb = Inr it"
  shows "it_front it @ it_back it = map (\<lambda>i. (rb_head rb + i) mod rb_cap rb) [0..<rb_len rb]"
proof -
  let ?f = "min (rb_len rb) (rb_cap rb - rb_head rb)"
  have it: "it = \<lparr>it_front = [rb_head rb..<rb_head rb + ?f], it_back = [0..<rb_len rb - ?f]\<rparr>"
    using assms rb_inv_head_le[OF assms(1)]
    by (simp add: rb_iter_mut_def rb_as_mut_slices_ok rb_as_mut_slice_pointers_def Let_def)
  have "map (\<lambda>i. (rb_head rb + i) mod rb_cap rb) [0..<?f] = [rb_head rb..<rb_head rb + ?f]"
    using rb_front_cell[OF assms(1) le_refl] by (intro nth_equalityI) auto
  moreover have "map (\<lambda>i. (rb_head rb + i) mod rb_cap rb) [?f..<?f + (rb_len rb - ?f)] = [0..<rb_len rb - ?f]"
    using rb_back_cell(1)[OF assms(1) le_refl] by (intro nth_equalityI) auto
  moreover have "[0..<rb_len rb] = [0..<?f] @ [?f..<?f + (rb_len rb - ?f)]"
    by (subst upt_add_eq_append[symmetric]) auto
  ultimately show ?thesis by (simp add: it)
qed

lemma rb_cells_distinct:
  assumes "rb_inv rb"
  shows "distinct (map (\<lambda>i. (rb_head rb + i) mod rb_cap rb) [0..<rb_len rb])"
    and "h \<in> set (map (\<lambda>i. (rb_head rb + i) mod rb_cap rb) [0..<rb_len rb]) \<Longrightarrow> h < rb_cap rb"
proof -
  show "distinct (map (\<lambda>i. (rb_head rb + i) mod rb_cap rb) [0..<rb_len rb])"
    using assms by (cases "rb_len rb = 0")
      (auto simp: distinct_map inj_on_def rb_inv_def intro: ring_slot_inj)
  show "h \<in> set (map (\<lambda>i. (rb_head rb + i) mod rb_cap rb) [0..<rb_len rb]) \<Longrightarrow> h < rb_cap rb"
    using rb_slot_less[OF assms] by auto
qed

lemma fold_update_nth:
  "distinct hs \<Longrightarrow> \<forall>h \<in> set hs. h < length m \<Longrightarrow>
    fold (\<lambda>h m. m[h := \<phi> (m ! h)]) hs m ! j = (if j \<in> set hs then \<phi> (m ! j) else m ! j)"
  by (induction hs arbitrary: m) (auto simp: nth_list_update)

lemma length_fold_update: "length (fold (\<lambda>h m. m[h := \<phi> (m ! h)]) hs m) = length m"
  by (induction hs arbitrary: m) auto

lemma iter_mut_for_each_append: "iter_mut_for_each f it s = fold f (it_front it @ it_back it) s"
  by (simp add: iter_mut_for_each_def)

lemma iter_mut_update_all:
  assumes "rb_inv rb" and "rb_iter_mut rb = Inr it"
    and "rb' = rb\<lparr>rb_array := iter_mut_for_each (\<lambda>h m. m[h := map_option g (m ! h)]) it (rb_array rb)\<rparr>"
  shows "rb_inv rb'" and "rb_contents rb' = map g (rb_contents rb)"
proof -
  let ?hs = "map (\<lambda>i. (rb_head rb + i) mod rb_cap rb) [0..<rb_len rb]"
  have arr: "rb_array rb' = fold (\<lambda>h m. m[h := map_option g (m ! h)]) ?hs (rb_array rb)"
    using assms by (simp add: iter_mut_for_each_append rb_iter_mut_cells)
  have cell: "rb_array rb' ! ((rb_head rb + i) mod rb_cap rb)
      = map_option g (rb_array rb ! ((rb_head rb + i) mod rb_cap rb))" if "i < rb_len rb" for i
  proof -
    have "\<forall>h \<in> set ?hs. h < length (rb_array rb)"
      using rb_cells_distinct(2)[OF assms(1)] by blast
    moreover have "(rb_head rb + i) mod rb_cap rb \<in> set ?hs" using that by auto
    ultimately show ?thesis
      unfolding arr by (simp only: fold_update_nth[OF rb_cells_distinct(1)[OF assms(1)]] if_True)
  qed
  have fields: "rb_cap rb' = rb_cap rb" "rb_head rb' = rb_head rb" "rb_len rb' = rb_len rb"
    using arr by (simp_all add: assms(3) length_fold_update)
  show "rb_inv rb'" using assms(1) cell by (simp add: rb_inv_def fields)
  show "rb_contents rb' = map g (rb_contents rb)"
    using cell rb_inv_cell[OF assms(1)]
    by (intro nth_equalityI) (auto simp: rb_contents_nth fields option.map_sel)
qed

section \<open>Properties\<close>

lemma rb_split_back_Nil: "rb_inv rb \<Longrightarrow> fst (rb_split rb) = [] \<Longrightarrow> snd (rb_split rb) = []"
  by (auto simp: rb_split_def Let_def rb_inv_def)

lemma drop_shorter: "0 < k \<Longrightarrow> xs \<noteq> [] \<Longrightarrow> drop k xs \<noteq> xs"
  by (metis diff_less length_drop length_greater_0_conv less_irrefl)

lemma wrapped_ring_iter: "rb_iter wrapped_ring = Inr \<lparr>it_front = [1], it_back = [2, 3]\<rparr>"
  using rb_iter_ok[OF wrapped_ring_inv]
  by (simp add: rb_split_def wrapped_ring_contents wrapped_ring_fields) (simp add: wrapped_ring_def)

text \<open>
  Claim C35. A loop over \<open>iter()\<close> calls \<open>next\<close>, which evaluates \<open>self.back.next()\<close> on every call because
  \<open>Option::or\<close> is strict. On a valid buffer the loop therefore yields the part of the queue in
  front of the wrap followed by the part behind it less its first \<open>k\<close> elements, \<open>k\<close> the length of
  the front; it yields the whole queue exactly when the queue does not wrap around.
\<close>

theorem iter_next_loses_wrapped_elements:
  assumes inv: "rb_inv rb" and it: "rb_iter rb = Inr it"
  shows "iter_collect it = it_front it @ drop (length (it_front it)) (it_back it) \<and>
    (iter_collect it = rb_contents rb \<longleftrightarrow> it_back it = [])"
proof -
  have eq: "iter_collect it = it_front it @ drop (length (it_front it)) (it_back it)"
    by (cases it) (simp add: iter_collect_slices)
  have front: "it_back it \<noteq> [] \<Longrightarrow> 0 < length (it_front it)"
    using it rb_iter_ok[OF inv] rb_split_back_Nil[OF inv] by auto
  have "drop (length (it_front it)) (it_back it) = it_back it \<longleftrightarrow> it_back it = []"
    using front drop_shorter[of "length (it_front it)" "it_back it"] by auto
  moreover have "rb_contents rb = it_front it @ it_back it"
    using rb_iter_contents[OF inv it] by simp
  ultimately show ?thesis using eq by simp
qed

theorem iter_next_loses_wrapped_elements_witness:
  "rb_contents wrapped_ring = [1, 2, 3] \<and>
   iter_collect \<lparr>it_front = [1::nat], it_back = [2, 3]\<rparr> = [1, 3]"
  using iter_next_loses_wrapped_elements[OF wrapped_ring_inv wrapped_ring_iter]
  by (simp add: wrapped_ring_contents)

text \<open>
  \<open>Iter::nth(n)\<close> is element \<open>n\<close> of the queue when it lies in front of the wrap. Behind the
  wrap the code subtracts the length of a front iterator it has just exhausted, so the result is
  element \<open>n\<close> of the back slice: element \<open>n + k\<close> of the queue, \<open>k\<close> the length of the front.
\<close>

theorem iter_nth_spec:
  assumes inv: "rb_inv rb" and it: "rb_iter rb = Inr it"
  shows "fst (iter_nth n it) =
    (let k = length (it_front it); i = (if n < k then n else n + k)
     in if i < length (rb_contents rb) then Some (rb_contents rb ! i) else None)"
  by (auto simp: iter_nth_def slice_nth_def rb_iter_contents[OF inv it, symmetric] nth_append Let_def)

theorem iter_nth_spec_witness:
  "rb_contents wrapped_ring ! 1 = 2 \<and> fst (iter_nth 1 \<lparr>it_front = [1::nat], it_back = [2, 3]\<rparr>) = Some 3"
  using iter_nth_spec[OF wrapped_ring_inv wrapped_ring_iter, of 1] by (simp add: wrapped_ring_contents)

text \<open>
  The methods that \<open>Iter\<close> overrides with explicit loops visit the queue once and in order:
  \<open>fold\<close> and \<open>rfold\<close> are the left fold over the contents and over their reverse, \<open>find\<close>,
  \<open>position\<close>, \<open>rposition\<close>, \<open>all\<close>, \<open>any\<close>, \<open>count\<close> and \<open>last\<close> return what they return on a list.
\<close>

theorem iter_loops_visit_contents:
  assumes inv: "rb_inv rb" and it: "rb_iter rb = Inr it"
  shows "iter_fold f z it = foldl f z (rb_contents rb) \<and>
    iter_rfold f z it = foldl f z (rev (rb_contents rb)) \<and>
    fst (iter_find (\<lambda>x s. (p x, s)) it s) = List.find p (rb_contents rb) \<and>
    fst (iter_position (\<lambda>x s. (p x, s)) it s) =
      (if \<exists>x \<in> set (rb_contents rb). p x
       then Some (length (takeWhile (Not \<circ> p) (rb_contents rb))) else None) \<and>
    fst (iter_rposition (\<lambda>x s. (p x, s)) it s) =
      (if \<exists>x \<in> set (rb_contents rb). p x
       then Some (length (rb_contents rb) - Suc (length (takeWhile (Not \<circ> p) (rev (rb_contents rb))))) else None) \<and>
    fst (iter_all (\<lambda>x s. (p x, s)) it s) = list_all p (rb_contents rb) \<and>
    fst (iter_any (\<lambda>x s. (p x, s)) it s) = list_ex p (rb_contents rb) \<and>
    iter_count it = length (rb_contents rb) \<and>
    iter_last it = slice_last (rb_contents rb)"
  using rb_iter_contents[OF inv it, symmetric]
  by (simp_all only: iter_fold_append iter_rfold_append iter_find_pure iter_position_pure
      iter_rposition_pure iter_all_pure iter_any_pure iter_count_def iter_last_append Let_def length_append)

theorem iter_loops_visit_contents_witness:
  "iter_fold (\<lambda>a x. a @ [x]) [] \<lparr>it_front = [1::nat], it_back = [2, 3]\<rparr> = [1, 2, 3] \<and>
   fst (iter_rposition (\<lambda>x s. (x < 3, s)) \<lparr>it_front = [1::nat], it_back = [2, 3]\<rparr> ()) = Some 1"
  using iter_loops_visit_contents[OF wrapped_ring_inv wrapped_ring_iter, of "\<lambda>a x. a @ [x]" "[]" "\<lambda>x. x < 3" "()"]
  by (simp add: wrapped_ring_contents)

text \<open>
  \<open>iter_mut().for_each\<close> with a closure that updates each element through its reference
  updates every element of the queue exactly once and nothing else: the contents afterwards are the
  old contents mapped, and the buffer stays valid.
\<close>

theorem iter_mut_for_each_maps_contents:
  assumes "rb_inv rb" and "rb_iter_mut rb = Inr it"
    and "rb' = rb\<lparr>rb_array := iter_mut_for_each (\<lambda>h m. m[h := map_option g (m ! h)]) it (rb_array rb)\<rparr>"
  shows "rb_inv rb' \<and> rb_contents rb' = map g (rb_contents rb) \<and>
    (\<forall>h < rb_cap rb. h \<notin> set (it_front it @ it_back it) \<longrightarrow> rb_array rb' ! h = rb_array rb ! h)"
proof -
  have cells: "\<forall>h \<in> set (it_front it @ it_back it). h < length (rb_array rb)"
    "distinct (it_front it @ it_back it)"
    unfolding rb_iter_mut_cells[OF assms(1,2)]
    using rb_cells_distinct[OF assms(1)] by blast+
  have "\<forall>h < rb_cap rb. h \<notin> set (it_front it @ it_back it) \<longrightarrow> rb_array rb' ! h = rb_array rb ! h"
    using fold_update_nth[OF cells(2,1), of "map_option g"] by (simp only: assms(3) iter_mut_for_each_append) simp
  with iter_mut_update_all[OF assms] show ?thesis by simp
qed

theorem iter_mut_for_each_maps_contents_witness:
  "rb_contents (wrapped_ring\<lparr>rb_array := iter_mut_for_each (\<lambda>h m. m[h := map_option (\<lambda>x. 10 * x) (m ! h)])
      \<lparr>it_front = [3], it_back = [0, 1]\<rparr> (rb_array wrapped_ring)\<rparr>) = [10, 20, 30]"
proof -
  have "rb_iter_mut wrapped_ring = Inr \<lparr>it_front = [3], it_back = [0, 1]\<rparr>"
    by (simp only: rb_iter_mut_def rb_as_mut_slices_ok wrapped_ring_inv bind_res_simps)
      (simp add: rb_as_mut_slice_pointers_def wrapped_ring_def upt_rec)
  from iter_mut_for_each_maps_contents[OF wrapped_ring_inv this refl, of "\<lambda>x. 10 * x"]
  show ?thesis by (simp add: wrapped_ring_contents)
qed

end
