(* ===== verification/Ring_Type.thy ===== *)
theory Ring_Type
  imports Ring_Buffer
begin

text \<open>
  The invariant of \<open>RingBuffer\<close> as the type of its values: what every sequence of operations preserves, also
  when destructors panic in the middle of one of them and the caller goes on using the buffer.
\<close>

section \<open>Sequences of operations\<close>

text \<open>The operations that change a buffer, with the destructors that panic.\<close>

datatype 'a ring_op = Ring_Push 'a | Ring_Pop | Ring_Clear "'a \<Rightarrow> bool" | Ring_Drain_Next
  | Ring_Drain_Nth "'a \<Rightarrow> bool" nat | Ring_Drain_Drop "'a \<Rightarrow> bool"

fun ring_exec :: "nat \<Rightarrow> 'a ring_op \<Rightarrow> 'a ring_buffer \<Rightarrow> 'a ring_buffer res" where
  "ring_exec sz (Ring_Push v) rb = rb_push sz v rb"
| "ring_exec sz Ring_Pop rb = bind_res (rb_pop rb) (\<lambda>(r, rb'). Inr rb')"
| "ring_exec sz (Ring_Clear dp) rb = bind_res (rb_clear dp rb) (\<lambda>(rb', dropped, u). Inr rb')"
| "ring_exec sz Ring_Drain_Next rb = bind_res (drain_next rb) (\<lambda>(r, rb'). Inr rb')"
| "ring_exec sz (Ring_Drain_Nth dp n) rb = bind_res (drain_nth dp n rb) (\<lambda>(r, rb', dropped, u). Inr rb')"
| "ring_exec sz (Ring_Drain_Drop dp) rb = bind_res (drain_drop dp rb) (\<lambda>(rb', dropped, u). Inr rb')"

definition ring_created :: "nat \<Rightarrow> 'a ring_buffer \<Rightarrow> bool" where
  "ring_created sz rb \<longleftrightarrow> rb_new sz = Inr rb \<or> (\<exists>cap \<le> usize_max. rb_with_capacity sz cap = Inr rb)"

definition ring_step :: "nat \<Rightarrow> 'a ring_buffer \<Rightarrow> 'a ring_buffer \<Rightarrow> bool" where
  "ring_step sz rb rb' \<longleftrightarrow> (\<exists>oper. ring_exec sz oper rb = Inr rb')"

lemma ring_reach: "reachable (ring_created sz) (ring_step sz) rb \<Longrightarrow> ring_exec sz oper rb = Inr rb' \<Longrightarrow>
    reachable (ring_created sz) (ring_step sz) rb'"
  by (rule reach_step) (auto simp: ring_step_def)

lemma rb_pop_total: "rb_inv rb \<Longrightarrow> \<exists>r rb'. rb_pop rb = Inr (r, rb') \<and> rb_inv rb'"
  using rb_pop_skip[of rb] rb_skip_ok(1)[of rb 1] by (cases "rb_len rb = 0") (auto simp: rb_pop_empty)

lemma rb_clear_total: "rb_inv rb \<Longrightarrow> \<exists>r rb'. rb_clear dp rb = Inr (rb', r) \<and> rb_inv rb'"
  by (cases "rb_split rb") (simp add: rb_clear_def rb_as_mut_slices_ok rb_inv_reset)

lemma drain_nth_total:
  assumes inv: "rb_inv rb"
  shows "\<exists>r rb' d. drain_nth dp n rb = Inr (r, rb', d) \<and> rb_inv rb'"
proof -
  consider "n = 0" | "n \<noteq> 0" "rb_len rb \<le> n" | "n \<noteq> 0" "n < rb_len rb" by linarith
  then show ?thesis
  proof cases
    case 1
    with rb_pop_total[OF inv] show ?thesis by (auto simp: drain_nth_def drain_next_eq_pop)
  next
    case 2
    with rb_clear_total[OF inv, of dp] show ?thesis by (auto simp: drain_nth_def)
  next
    case 3
    then have len: "n \<le> rb_len rb" "0 < rb_len rb" by auto
    have hd: "rb_head rb < rb_cap rb" "rb_cap rb \<le> usize_max" "n \<le> rb_cap rb" using inv 3 by (auto simp: rb_inv_def)
    obtain d u where drops: "drop_two_slices dp (take (min n (rb_cap rb - rb_head rb)) (rb_contents rb))
        (take (n - min n (rb_cap rb - rb_head rb)) (drop (min n (rb_cap rb - rb_head rb)) (rb_contents rb))) = (d, u)"
      by fastforce
    have "drain_nth dp n rb = (if u = Normal then bind_res (rb_pop (rb_skip n rb)) (\<lambda>(r, rb'). Inr (r, rb', d, u))
        else Inr (None, rb_skip n rb, d, u))"
      using 3 hd drops rb_read_front[OF inv len(1)] rb_read_back[OF inv len(1)]
      by (simp add: drain_nth_def ring_index_ok Let_def drain_next_eq_pop rb_skip_def)
    with rb_pop_total[OF rb_skip_ok(1)[OF inv len]] rb_skip_ok(1)[OF inv len] show ?thesis by auto
  qed
qed

lemma ring_exec_inv:
  assumes "rb_inv rb"
  shows "case ring_exec sz oper rb of
      Inr rb' \<Rightarrow> rb_inv rb'
    | Inl e \<Rightarrow> e = Capacity_overflow \<and> (\<exists>v. oper = Ring_Push v)"
proof (cases oper)
  case (Ring_Push v)
  with rb_push_ok(1)[OF assms, of sz v] rb_push_fault[OF assms, of sz v] show ?thesis by (auto split: sum.splits)
next
  case (Ring_Clear dp)
  with rb_clear_total[OF assms, of dp] show ?thesis by auto
next
  case (Ring_Drain_Nth dp n)
  with drain_nth_total[OF assms, of dp n] show ?thesis by auto
next
  case (Ring_Drain_Drop dp)
  with rb_clear_total[OF assms, of dp] show ?thesis by (auto simp: drain_drop_def)
qed (use rb_pop_total[OF assms] in \<open>auto simp: drain_next_eq_pop\<close>)

lemma ring_created_inv: "ring_created sz rb \<Longrightarrow> rb_inv rb"
  using rb_new_total[of sz, where 'a = 'a] by (auto simp: ring_created_def dest: rb_with_capacity_ok)

interpretation ring_type: transition_system "ring_created sz" "ring_step sz" rb_inv for sz
  using ring_exec_inv by unfold_locales (fastforce simp: ring_step_def intro: ring_created_inv split: sum.splits)+

section \<open>Property\<close>

text \<open>
  Claim C26. A \<open>RingBuffer\<close> is always well formed: after any sequence of operations on a new buffer, whatever
  destructors panicked on the way, the length is at most the capacity, the head is in the array and exactly
  the cells of the queue need to be initialised, and they are; and the next operation returns, except for the
  capacity limit of \<open>push\<close>.
\<close>

theorem ring_always_well_formed:
  assumes "reachable (ring_created sz) (ring_step sz) rb"
  shows "rb_len rb \<le> rb_cap rb \<and> (rb_head rb < rb_cap rb \<or> rb_cap rb = 0) \<and>
    (\<forall>i < rb_len rb. rb_array rb ! ((rb_head rb + i) mod rb_cap rb) \<noteq> None) \<and>
    (case ring_exec sz oper rb of
       Inr rb' \<Rightarrow> rb_inv rb'
     | Inl e \<Rightarrow> e = Capacity_overflow \<and> (\<exists>v. oper = Ring_Push v))"
  using ring_type.reachable_inv[OF assms] ring_exec_inv[of rb oper sz] by (auto simp: rb_inv_def)

text \<open>A destructor panics in \<open>nth\<close>; the element behind the ones that were dropped is still there.\<close>

theorem ring_always_well_formed_witness:
  "ring_exec 8 (Ring_Drain_Nth (\<lambda>x. x = 1) 1) \<lparr>rb_head = 0, rb_len = 2, rb_array = [Some (1::nat), Some 2]\<rparr> =
     Inr \<lparr>rb_head = 1, rb_len = 1, rb_array = [Some 1, Some 2]\<rparr> \<and>
   [Some (1::nat), Some 2] ! 1 \<noteq> None"
proof -
  let ?s0 = "\<lparr>rb_head = 0, rb_len = 0, rb_array = [None, None]\<rparr> :: nat ring_buffer"
  let ?s1 = "\<lparr>rb_head = 0, rb_len = 1, rb_array = [Some 1, None]\<rparr> :: nat ring_buffer"
  let ?s2 = "\<lparr>rb_head = 0, rb_len = 2, rb_array = [Some 1, Some 2]\<rparr> :: nat ring_buffer"
  let ?s3 = "\<lparr>rb_head = 1, rb_len = 1, rb_array = [Some 1, Some 2]\<rparr> :: nat ring_buffer"
  have two: "replicate 2 None = [None, None :: nat option]" by (simp add: numeral_2_eq_2)
  have s0: "ring_created 8 ?s0"
    by (auto simp: two ring_created_def rb_with_capacity_def vec_with_capacity_def isize_max_def usize_max_def
        intro!: exI[of _ 2])
  have pushes: "ring_exec 8 (Ring_Push 1) ?s0 = Inr ?s1" "ring_exec 8 (Ring_Push 2) ?s1 = Inr ?s2"
    by (simp_all add: rb_push_def ring_index_def write_cell_def usize_add_def usize_sub_def usize_max_def)
  have nth: "ring_exec 8 (Ring_Drain_Nth (\<lambda>x. x = 1) 1) ?s2 = Inr ?s3"
    by (simp add: drain_nth_def ring_index_def usize_max_def read_slice_def drop_two_slices_def Let_def)
  have "reachable (ring_created 8) (ring_step 8) ?s3"
    by (rule ring_reach[OF ring_reach[OF ring_reach[OF reach_init pushes(1)] pushes(2)] nth]) (rule s0)
  from ring_always_well_formed[OF this, of undefined] nth show ?thesis by simp
qed

end
