(* ===== verification/Backoff.thy ===== *)
theory Backoff
  imports Amity_Prelude
begin

text \<open>
  The exponential back-off of \<open>src/src/backoff.rs\<close>. \<open>wait\<close> returns the hint it gives the processor or
  the scheduler; \<open>std\<close> says whether the \<open>std\<close> feature is enabled.
\<close>

record back_off =
  spin_count :: nat

datatype wait_hint = Spin_loop | Yield_now

definition spin_threshold :: nat where
  "spin_threshold = 7"

definition yield_threshold :: nat where
  "yield_threshold = 15"

definition backoff_new :: back_off where
  "backoff_new = \<lparr>spin_count = 0\<rparr>"

definition backoff_reset :: "back_off \<Rightarrow> back_off" where
  "backoff_reset b = b\<lparr>spin_count := 0\<rparr>"

definition backoff_wait :: "bool \<Rightarrow> back_off \<Rightarrow> wait_hint \<times> back_off" where
  "backoff_wait std b =
     (let hint = (if spin_count b < spin_threshold then Spin_loop
                  else if std then Yield_now else Spin_loop);
          b' = (if spin_count b < yield_threshold then b\<lparr>spin_count := spin_count b + 1\<rparr> else b)
      in (hint, b'))"

definition backoff_should_block :: "back_off \<Rightarrow> bool" where
  "backoff_should_block b \<longleftrightarrow> yield_threshold \<le> spin_count b"

text \<open>\<open>n\<close> calls of \<open>wait\<close>: the hints given and the final state.\<close>

fun backoff_waits :: "bool \<Rightarrow> nat \<Rightarrow> back_off \<Rightarrow> wait_hint list \<times> back_off" where
  "backoff_waits std 0 b = ([], b)"
| "backoff_waits std (Suc n) b =
     (case backoff_wait std b of (h, b') \<Rightarrow>
      case backoff_waits std n b' of (hs, b'') \<Rightarrow> (h # hs, b''))"

lemma backoff_wait_eq:
  "spin_count b \<le> 15 \<Longrightarrow> backoff_wait std b =
    (if std \<and> 7 \<le> spin_count b then Yield_now else Spin_loop, b\<lparr>spin_count := min 15 (spin_count b + 1)\<rparr>)"
  by (cases b) (auto simp: backoff_wait_def Let_def spin_threshold_def yield_threshold_def)

lemma backoff_waits_from:
  "spin_count b \<le> 15 \<Longrightarrow> backoff_waits std n b =
    (map (\<lambda>i. if std \<and> 7 \<le> min 15 (spin_count b + i) then Yield_now else Spin_loop) [0..<n],
     b\<lparr>spin_count := min 15 (spin_count b + n)\<rparr>)"
proof (induction n arbitrary: b)
  case 0
  then show ?case by simp
next
  case (Suc n)
  have idx: "[0..<Suc n] = 0 # map Suc [0..<n]" by (simp add: upt_conv_Cons map_Suc_upt)
  have cap: "min 15 (min 15 (spin_count b + 1) + i) = min 15 (spin_count b + Suc i)" for i :: nat
    by simp
  show ?case
    unfolding idx backoff_waits.simps
    using Suc.IH[of "b\<lparr>spin_count := min 15 (spin_count b + 1)\<rparr>"] Suc.prems
    by (simp only: backoff_wait_eq back_off.simps cap) (auto simp: backoff_wait_eq comp_def)
qed

text \<open>
  After \<open>n\<close> waits from a fresh (or reset) back-off the counter is \<open>n\<close> capped at 15, so it
  never overflows; the first seven waits spin and the later ones yield when \<open>std\<close> is enabled; and
  blocking is advised exactly from the fifteenth wait on.
\<close>

theorem backoff_schedule:
  "backoff_waits std n (backoff_reset b) =
     (map (\<lambda>i. if std \<and> 7 \<le> i then Yield_now else Spin_loop) [0..<n],
      b\<lparr>spin_count := min 15 n\<rparr>) \<and>
   backoff_should_block (snd (backoff_waits std n backoff_new)) = (15 \<le> n)"
proof -
  have "(7::nat) \<le> min 15 i \<longleftrightarrow> 7 \<le> i" for i by auto
  then show ?thesis
    using backoff_waits_from[of "backoff_reset b" std n] backoff_waits_from[of backoff_new std n]
    by (auto simp: backoff_reset_def backoff_new_def backoff_should_block_def yield_threshold_def)
qed

end
