(* ===== verification/Cache.thy ===== *)
theory Cache
  imports Amity_Prelude
begin

text \<open>
  The cache-line wrappers of \<open>src/src/cache.rs\<close>: the alignment that the \<open>cfg_attr\<close> attributes of
  \<open>CacheAlign\<close> and \<open>CachePadded\<close> select on a target, and the \<open>Deref\<close> and \<open>DerefMut\<close> of \<open>CachePadded\<close>.
  An attribute is a predicate on the target architecture and an alignment; \<open>Other_arch\<close> is any
  architecture the file does not name.
\<close>

datatype target_arch =
    X86_64 | Aarch64 | Powerpc64 | Arm | Mips | Mips32r6 | Mips64 | Mips64r6 | Sparc | Hexagon
  | M68k | S390x | Other_arch

definition cache_align_attrs :: "((target_arch \<Rightarrow> bool) \<times> nat) list" where
  "cache_align_attrs =
     [(\<lambda>a. a \<in> {X86_64, Aarch64, Powerpc64}, 128),
      (\<lambda>a. a \<in> {Arm, Mips, Mips32r6, Mips64, Mips64r6, Sparc, Hexagon}, 32),
      (\<lambda>a. a = M68k, 16),
      (\<lambda>a. a = S390x, 256),
      (\<lambda>a. a \<notin> {X86_64, Aarch64, Powerpc64, Arm, Mips, Mips32r6, Mips64, Mips64r6, Sparc, Hexagon,
                M68k, S390x}, 64)]"

definition cache_padded_attrs :: "((target_arch \<Rightarrow> bool) \<times> nat) list" where
  "cache_padded_attrs =
     [(\<lambda>a. a \<in> {X86_64, Aarch64, Powerpc64}, 128),
      (\<lambda>a. a \<in> {Arm, Mips, Mips32r6, Mips64, Mips64r6, Sparc, Hexagon}, 32),
      (\<lambda>a. a = M68k, 16),
      (\<lambda>a. a = S390x, 256),
      (\<lambda>a. a \<notin> {X86_64, Aarch64, Powerpc64, Arm, Mips, Mips32r6, Mips64, Mips64r6, Sparc, Hexagon,
                M68k, S390x}, 64)]"

definition selected_aligns :: "((target_arch \<Rightarrow> bool) \<times> nat) list \<Rightarrow> target_arch \<Rightarrow> nat list" where
  "selected_aligns attrs a = map snd (filter (\<lambda>(p, _). p a) attrs)"

datatype 'a cache_padded = Cache_Padded 'a

fun cache_padded_deref :: "'a cache_padded \<Rightarrow> 'a" where
  "cache_padded_deref (Cache_Padded x) = x"

text \<open>\<open>deref_mut\<close> hands out the field: a write through it is an update of the field.\<close>

fun cache_padded_deref_mut :: "('a \<Rightarrow> 'a) \<Rightarrow> 'a cache_padded \<Rightarrow> 'a cache_padded" where
  "cache_padded_deref_mut f (Cache_Padded x) = Cache_Padded (f x)"

text \<open>
  On every target exactly one alignment attribute applies, to both wrappers the same, and
  it is a power of two between 16 and 256, so the \<open>repr(align)\<close> of the two types is well formed.
\<close>

theorem cache_alignment_unique:
  "\<exists>k. selected_aligns cache_padded_attrs a = [2 ^ k] \<and>
       selected_aligns cache_align_attrs a = [2 ^ k] \<and> 4 \<le> k \<and> k \<le> 8"
proof -
  have "\<exists>k\<in>{4, 5, 6, 7, 8}. selected_aligns cache_padded_attrs a = [2 ^ k] \<and>
      selected_aligns cache_align_attrs a = [2 ^ k]"
    by (cases a) (simp_all add: selected_aligns_def cache_padded_attrs_def cache_align_attrs_def)
  then obtain k where k: "k \<in> {4, 5, 6, 7, 8::nat}" "selected_aligns cache_padded_attrs a = [2 ^ k]"
    "selected_aligns cache_align_attrs a = [2 ^ k]" by blast
  then have "4 \<le> k \<and> k \<le> 8" by auto
  with k show ?thesis by blast
qed

end
