(* ===== verification/State_Ptr.thy ===== *)
theory State_Ptr
  imports Amity_Prelude
begin

text \<open>
  Pointers with a state in their low bits: \<open>State\<close>, \<open>PtrState\<close> and \<open>AtomicPtrState\<close> of
  \<open>src/src/state_ptr.rs\<close>.

  A raw pointer is an address and a provenance; casts and \<open>wrapping_add\<close> keep the provenance, and
  \<open>==\<close> and \<open>compare_exchange\<close> on pointers compare addresses. \<open>align_of::<T>()\<close> is the parameter
  \<open>al\<close>, a power of two. A \<open>State<T>\<close> is its word. The atomic operations are steps of an
  interleaving and have no ordering here; the callers of the type choose it (\<open>Cond_Var_Order\<close>).
\<close>

record rust_ptr =
  ptr_prov :: "nat option"
  ptr_addr :: usize

definition null_mut :: rust_ptr where
  "null_mut = \<lparr>ptr_prov = None, ptr_addr = 0\<rparr>"

definition ptr_eq :: "rust_ptr \<Rightarrow> rust_ptr \<Rightarrow> bool" where
  "ptr_eq p q \<longleftrightarrow> ptr_addr p = ptr_addr q"

definition wrapping_add :: "rust_ptr \<Rightarrow> usize \<Rightarrow> rust_ptr" where
  "wrapping_add p n = p\<lparr>ptr_addr := ptr_addr p + n\<rparr>"

definition wrapping_sub :: "rust_ptr \<Rightarrow> usize \<Rightarrow> rust_ptr" where
  "wrapping_sub p n = p\<lparr>ptr_addr := ptr_addr p - n\<rparr>"

section \<open>State\<close>

definition trailing_zeros :: "usize \<Rightarrow> nat" where
  "trailing_zeros w = length (takeWhile (\<lambda>i. \<not> bit w i) [0..<64])"

definition state_bits :: "usize \<Rightarrow> nat" where
  "state_bits al = trailing_zeros al"

definition state_mask :: "usize \<Rightarrow> usize" where
  "state_mask al = al - 1"

definition addr_mask :: "usize \<Rightarrow> usize" where
  "addr_mask al = NOT (state_mask al)"

type_synonym ptr_state_bits = usize

definition state_zero :: ptr_state_bits where
  "state_zero = 0"

definition state_new :: "usize \<Rightarrow> usize \<Rightarrow> ptr_state_bits option" where
  "state_new al v = (if v AND state_mask al = v then Some v else None)"

definition state_value :: "ptr_state_bits \<Rightarrow> usize" where
  "state_value st = st"

definition state_new_truncated :: "usize \<Rightarrow> usize \<Rightarrow> ptr_state_bits" where
  "state_new_truncated al v = v AND state_mask al"

definition state_into_usize :: "ptr_state_bits \<Rightarrow> usize" where
  "state_into_usize st = state_value st"

section \<open>PtrState\<close>

record ptr_state =
  ps_raw :: rust_ptr

definition ps_eq :: "ptr_state \<Rightarrow> ptr_state \<Rightarrow> bool" where
  "ps_eq a b \<longleftrightarrow> ptr_eq (ps_raw a) (ps_raw b)"

definition ps_new :: "rust_ptr \<Rightarrow> ptr_state_bits \<Rightarrow> ptr_state" where
  "ps_new p st = \<lparr>ps_raw = wrapping_add p st\<rparr>"

text \<open>A reference is its pointer.\<close>

definition ps_new_ref :: "rust_ptr \<Rightarrow> ptr_state_bits \<Rightarrow> ptr_state" where
  "ps_new_ref p st = ps_new p st"

definition ps_new_mut :: "rust_ptr \<Rightarrow> ptr_state_bits \<Rightarrow> ptr_state" where
  "ps_new_mut p st = ps_new p st"

definition ps_null_zero :: ptr_state where
  "ps_null_zero = \<lparr>ps_raw = null_mut\<rparr>"

definition ps_null_state :: "ptr_state_bits \<Rightarrow> ptr_state" where
  "ps_null_state st = ps_new null_mut st"

definition ps_new_zero :: "rust_ptr \<Rightarrow> ptr_state" where
  "ps_new_zero p = \<lparr>ps_raw = p\<rparr>"

definition ps_from_raw :: "rust_ptr \<Rightarrow> ptr_state" where
  "ps_from_raw p = \<lparr>ps_raw = p\<rparr>"

definition ps_ptr :: "usize \<Rightarrow> ptr_state \<Rightarrow> rust_ptr" where
  "ps_ptr al ps = (let st = ptr_addr (ps_raw ps) AND state_mask al in wrapping_sub (ps_raw ps) st)"

definition ps_state :: "usize \<Rightarrow> ptr_state \<Rightarrow> ptr_state_bits" where
  "ps_state al ps = ptr_addr (ps_raw ps) AND state_mask al"

definition ps_with_state :: "usize \<Rightarrow> ptr_state \<Rightarrow> ptr_state_bits \<Rightarrow> ptr_state" where
  "ps_with_state al ps st = ps_new (ps_ptr al ps) st"

definition ps_with_ptr :: "usize \<Rightarrow> ptr_state \<Rightarrow> rust_ptr \<Rightarrow> ptr_state" where
  "ps_with_ptr al ps p = ps_new p (ps_state al ps)"

section \<open>AtomicPtrState\<close>

text \<open>The atomic cell is the pointer-state it holds; each operation returns its result and the new cell.\<close>

record atomic_ptr_state =
  aps_cell :: rust_ptr

definition aps_null_zero :: atomic_ptr_state where
  "aps_null_zero = \<lparr>aps_cell = null_mut\<rparr>"

definition aps_new :: "rust_ptr \<Rightarrow> ptr_state_bits \<Rightarrow> atomic_ptr_state" where
  "aps_new p st = \<lparr>aps_cell = wrapping_add p st\<rparr>"

definition aps_new_ref :: "rust_ptr \<Rightarrow> ptr_state_bits \<Rightarrow> atomic_ptr_state" where
  "aps_new_ref p st = aps_new p st"

definition aps_new_mut :: "rust_ptr \<Rightarrow> ptr_state_bits \<Rightarrow> atomic_ptr_state" where
  "aps_new_mut p st = aps_new p st"

definition aps_null_state :: "ptr_state_bits \<Rightarrow> atomic_ptr_state" where
  "aps_null_state st = aps_new null_mut st"

definition aps_new_zero :: "rust_ptr \<Rightarrow> atomic_ptr_state" where
  "aps_new_zero p = \<lparr>aps_cell = p\<rparr>"

definition aps_from_raw :: "rust_ptr \<Rightarrow> atomic_ptr_state" where
  "aps_from_raw p = \<lparr>aps_cell = p\<rparr>"

definition aps_from_ptr_state :: "ptr_state \<Rightarrow> atomic_ptr_state" where
  "aps_from_ptr_state ps = \<lparr>aps_cell = ps_raw ps\<rparr>"

definition aps_load :: "atomic_ptr_state \<Rightarrow> ptr_state" where
  "aps_load a = \<lparr>ps_raw = aps_cell a\<rparr>"

definition aps_store :: "ptr_state \<Rightarrow> atomic_ptr_state \<Rightarrow> atomic_ptr_state" where
  "aps_store v a = a\<lparr>aps_cell := ps_raw v\<rparr>"

definition aps_swap :: "ptr_state \<Rightarrow> atomic_ptr_state \<Rightarrow> ptr_state \<times> atomic_ptr_state" where
  "aps_swap v a = (\<lparr>ps_raw = aps_cell a\<rparr>, a\<lparr>aps_cell := ps_raw v\<rparr>)"

text \<open>\<open>Inr\<close> is the \<open>Ok\<close> of the exchange and \<open>Inl\<close> its \<open>Err\<close>, both with the previous value.\<close>

definition aps_compare_exchange :: "ptr_state \<Rightarrow> ptr_state \<Rightarrow> atomic_ptr_state
    \<Rightarrow> (ptr_state + ptr_state) \<times> atomic_ptr_state" where
  "aps_compare_exchange current new a =
     (if ptr_eq (aps_cell a) (ps_raw current)
      then (Inr \<lparr>ps_raw = aps_cell a\<rparr>, a\<lparr>aps_cell := ps_raw new\<rparr>)
      else (Inl \<lparr>ps_raw = aps_cell a\<rparr>, a))"

text \<open>The weak exchange may fail spuriously, which the argument \<open>spurious\<close> decides.\<close>

definition aps_compare_exchange_weak :: "bool \<Rightarrow> ptr_state \<Rightarrow> ptr_state \<Rightarrow> atomic_ptr_state
    \<Rightarrow> (ptr_state + ptr_state) \<times> atomic_ptr_state" where
  "aps_compare_exchange_weak spurious current new a =
     (if ptr_eq (aps_cell a) (ps_raw current) \<and> \<not> spurious
      then (Inr \<lparr>ps_raw = aps_cell a\<rparr>, a\<lparr>aps_cell := ps_raw new\<rparr>)
      else (Inl \<lparr>ps_raw = aps_cell a\<rparr>, a))"

section \<open>Masks\<close>

definition valid_align :: "usize \<Rightarrow> bool" where
  "valid_align al \<longleftrightarrow> (\<exists>k < 64. al = 2 ^ k)"

lemma state_mask_eq: "state_mask (2 ^ k) = (mask k :: usize)"
  by (simp add: state_mask_def mask_eq_decr_exp)

lemma trailing_zeros_power: "k < 64 \<Longrightarrow> trailing_zeros (2 ^ k) = k"
proof -
  assume k: "k < 64"
  have "takeWhile (\<lambda>i. \<not> bit (2 ^ k :: usize) i) [0..<64] = [0..<k]"
  proof -
    have "[0..<64] = [0..<k] @ k # [Suc k..<64]"
      using k by (metis append_Cons append_Nil le_add1 less_imp_le_nat upt_add_eq_append upt_conv_Cons
          le_add_diff_inverse plus_nat.add_0)
    moreover have "takeWhile (\<lambda>i. \<not> bit (2 ^ k :: usize) i) ([0..<k] @ k # [Suc k..<64]) = [0..<k]"
      using k by (subst takeWhile_append2) (auto simp: bit_simps)
    ultimately show ?thesis by simp
  qed
  then show ?thesis by (simp add: trailing_zeros_def)
qed

lemma aligned_add_state:
  fixes x s m :: usize
  assumes "x AND m = 0" and "s AND m = s"
  shows "(x + s) AND m = s"
proof -
  have "x AND s = x AND (s AND m)" by (simp add: assms(2))
  also have "\<dots> = (x AND m) AND s" by (simp add: ac_simps)
  finally have "x AND s = 0" by (simp add: assms(1))
  then have "x + s = x OR s" by (rule disjunctive_add_eq_or)
  with assms show ?thesis by (simp add: bit.conj_disj_distrib2)
qed

lemma clear_state_aligned:
  fixes x m :: usize
  shows "(x - (x AND m)) AND m = 0"
proof -
  have "(x AND NOT m) AND (x AND m) = 0"
    by (simp add: bit_eq_iff bit_simps)
  then have "(x AND NOT m) + (x AND m) = (x AND NOT m) OR (x AND m)" by (rule disjunctive_add_eq_or)
  also have "\<dots> = x" by (auto simp: bit_eq_iff bit_simps)
  finally have "x - (x AND m) = x AND NOT m" by (metis add_diff_cancel_right')
  then show ?thesis by (simp add: and.assoc)
qed

lemma unat_power64: "k < 64 \<Longrightarrow> unat (2 ^ k :: usize) = 2 ^ k"
proof -
  assume "k < 64"
  then have "(2::nat) ^ k < 2 ^ 64" by (intro power_strict_increasing) simp_all
  then show ?thesis using unat_of_nat[of "2 ^ k", where 'a = 64] by simp
qed

lemma unat_and_mask: "unat (v AND mask k :: usize) = unat v mod 2 ^ k"
  using unsigned_take_bit_eq[of k v, where 'a = nat]
  by (simp only: take_bit_eq_mask[symmetric] take_bit_eq_mod[of k "unat v"])

lemma and_mask_eq_iff: "v AND mask k = (v :: usize) \<longleftrightarrow> unat v < 2 ^ k"
  by (metis unat_and_mask mod_less mod_less_divisor zero_less_numeral zero_less_power unsigned_word_eqI)

lemma ps_new_parts:
  assumes "ptr_addr p AND state_mask al = 0" and "st AND state_mask al = st"
  shows "ps_ptr al (ps_new p st) = p" and "ps_state al (ps_new p st) = st"
  using aligned_add_state[OF assms]
  by (simp_all add: ps_ptr_def ps_state_def ps_new_def wrapping_add_def wrapping_sub_def Let_def)

lemma aps_load_store: "aps_load (aps_store ps a) = ps"
  by (simp add: aps_load_def aps_store_def)

lemma ps_parts_new: "ps_new (ps_ptr al ps) (ps_state al ps) = ps"
  by (cases ps) (simp add: ps_ptr_def ps_state_def ps_new_def wrapping_add_def wrapping_sub_def Let_def)

lemma ps_ptr_aligned: "ptr_addr (ps_ptr al ps) AND state_mask al = 0"
  by (simp add: ps_ptr_def wrapping_sub_def Let_def clear_state_aligned)

lemma ps_state_masked: "ps_state al ps AND state_mask al = ps_state al ps"
  by (simp add: ps_state_def and.assoc)

section \<open>Properties\<close>

text \<open>
  For a type of alignment \<open>al\<close> a state is representable exactly when it is below \<open>al\<close>,
  which is two to the number of state bits; \<open>new\<close> accepts exactly the representable values and
  \<open>new_truncated\<close> reduces any value modulo \<open>al\<close>.
\<close>

theorem state_new_accepts:
  assumes "valid_align al"
  shows "unat al = 2 ^ state_bits al \<and>
    state_new al v = (if v < al then Some v else None) \<and>
    unat (state_new_truncated al v) = unat v mod unat al"
proof -
  obtain k where k: "k < 64" "al = 2 ^ k" using assms by (auto simp: valid_align_def)
  then have al: "unat al = 2 ^ k" by (simp add: unat_power64)
  have "v AND mask k = v \<longleftrightarrow> v < al"
    using and_mask_eq_iff[of v k] al by (simp add: word_less_nat_alt)
  then have "state_new al v = (if v < al then Some v else None)"
    using k by (simp add: state_new_def state_mask_eq)
  with al show ?thesis
    using k unat_and_mask[of v k]
    by (simp add: state_bits_def trailing_zeros_power state_new_truncated_def state_mask_eq)
qed

theorem state_new_accepts_witness:
  "state_new 8 7 = Some 7 \<and> state_new 8 8 = None \<and> unat (state_new_truncated 8 13) = 5"
proof -
  have "valid_align 8" unfolding valid_align_def by (rule exI[of _ 3]) simp
  from state_new_accepts[OF this, of 7] state_new_accepts[OF this, of 8] state_new_accepts[OF this, of 13]
  show ?thesis by simp
qed

text \<open>
  Claim C40. Packing an aligned pointer with a representable state loses nothing: the pointer (address
  and provenance) and the state come back, in \<open>PtrState\<close> and through a store to and a load from an
  \<open>AtomicPtrState\<close>; and every raw word splits into an aligned pointer and a representable state
  that pack to it again.
\<close>

theorem ptr_state_roundtrip:
  assumes "state_new al v = Some st" and "ptr_addr p AND state_mask al = 0"
  shows "ps_ptr al (ps_new p st) = p \<and> ps_state al (ps_new p st) = v \<and>
    ps_ptr al (aps_load (aps_store (ps_new p st) a)) = p \<and>
    ps_new (ps_ptr al ps) (ps_state al ps) = ps \<and>
    ptr_addr (ps_ptr al ps) AND state_mask al = 0 \<and> state_new al (ps_state al ps) = Some (ps_state al ps)"
proof -
  have st: "st AND state_mask al = st" "st = v"
    using assms(1) by (auto simp: state_new_def split: if_splits)
  show ?thesis
    using ps_new_parts[OF assms(2) st(1)] st(2)
    by (simp add: ps_parts_new ps_ptr_aligned ps_state_masked state_new_def aps_load_store)
qed

theorem ptr_state_roundtrip_witness:
  "ps_ptr 256 (ps_new \<lparr>ptr_prov = Some 1, ptr_addr = 0x5500\<rparr> 255) = \<lparr>ptr_prov = Some 1, ptr_addr = 0x5500\<rparr> \<and>
   ps_state 256 (ps_new \<lparr>ptr_prov = Some 1, ptr_addr = 0x5500\<rparr> 255) = 255"
  using ptr_state_roundtrip[of 256 255 255 "\<lparr>ptr_prov = Some 1, ptr_addr = 0x5500\<rparr>"]
  by (simp add: state_new_def state_mask_def)

text \<open>
  \<open>with_state\<close> replaces the state and keeps the pointer, \<open>with_ptr\<close> replaces an aligned
  pointer and keeps the state, and replacing both parts is \<open>new\<close>.
\<close>

theorem with_parts:
  assumes "st AND state_mask al = st" and "ptr_addr p AND state_mask al = 0"
  shows "ps_ptr al (ps_with_state al ps st) = ps_ptr al ps \<and> ps_state al (ps_with_state al ps st) = st \<and>
    ps_ptr al (ps_with_ptr al ps p) = p \<and> ps_state al (ps_with_ptr al ps p) = ps_state al ps \<and>
    ps_with_ptr al (ps_with_state al ps st) p = ps_new p st"
  using ps_new_parts[OF ps_ptr_aligned assms(1)] ps_new_parts[OF assms(2) ps_state_masked]
  by (simp add: ps_with_state_def ps_with_ptr_def)

theorem with_parts_witness:
  "ps_state 8 (ps_with_state 8 (ps_new \<lparr>ptr_prov = Some 1, ptr_addr = 64\<rparr> 3) 5) = 5 \<and>
   ps_ptr 8 (ps_with_ptr 8 (ps_new \<lparr>ptr_prov = Some 1, ptr_addr = 64\<rparr> 3) \<lparr>ptr_prov = Some 2, ptr_addr = 128\<rparr>)
     = \<lparr>ptr_prov = Some 2, ptr_addr = 128\<rparr>"
  using with_parts[of 5 8 "\<lparr>ptr_prov = Some 2, ptr_addr = 128\<rparr>" "ps_new \<lparr>ptr_prov = Some 1, ptr_addr = 64\<rparr> 3"]
  by (simp add: state_mask_def)

text \<open>
  A pointer with low bits set is not refused: \<open>new\<close> and \<open>new_zero\<close> return a value (the
  documentation announces a panic under debug assertions, but no check is compiled), and what comes
  back is another pointer and a state that was not put in.
\<close>

theorem unaligned_pointer_corrupted:
  assumes "ptr_addr p AND state_mask al \<noteq> 0"
  shows "ps_ptr al (ps_new p state_zero) \<noteq> p \<and> ps_state al (ps_new p state_zero) \<noteq> state_zero \<and>
    ps_ptr al (ps_new_zero p) \<noteq> p \<and> ps_state al (ps_new_zero p) \<noteq> state_zero"
  using assms by (cases p)
    (auto simp: ps_ptr_def ps_state_def ps_new_def ps_new_zero_def wrapping_add_def wrapping_sub_def
      state_zero_def Let_def)

theorem unaligned_pointer_corrupted_witness:
  "ps_ptr 8 (ps_new \<lparr>ptr_prov = Some 1, ptr_addr = 65\<rparr> state_zero) \<noteq> \<lparr>ptr_prov = Some 1, ptr_addr = 65\<rparr>"
  using unaligned_pointer_corrupted[of "\<lparr>ptr_prov = Some 1, ptr_addr = 65\<rparr>" 8]
  by (simp add: state_mask_def)

end
