(* ===== verification/Triple.thy ===== *)
theory Triple
  imports Amity_Prelude
begin

text \<open>
  The triple buffer of \<open>src/src/triple.rs\<close>: \<open>Idx\<close>, \<open>TripleBuffer\<close> with its atomic flag byte, and the
  handles \<open>TripleBufferProducer\<close> and \<open>TripleBufferConsumer\<close>.

  The three elements are a function on the three indices (the array has exactly the slots the type
  \<open>Idx\<close> names). The flag byte keeps its width; \<open>from_bits_unchecked\<close> of a byte that is no index is
  \<open>Undefined_behaviour\<close>. Every operation contains at most one access to the flag byte, so it is one
  atomic step of an interleaving, and the writes to an element are steps of their own. The orderings are in
  \<open>Triple_Order\<close>.
  \<open>Clone::clone_from\<close> and \<open>ToOwned::clone_into\<close> store an equal value.
\<close>

section \<open>Idx\<close>

datatype idx = Zero | One | Two

fun idx_bits :: "idx \<Rightarrow> u8" where
  "idx_bits Zero = 0"
| "idx_bits One = 1"
| "idx_bits Two = 2"

fun idx_index :: "idx \<Rightarrow> nat" where
  "idx_index Zero = 0"
| "idx_index One = 1"
| "idx_index Two = 2"

definition idx_default :: idx where
  "idx_default = Zero"

definition idx_from_bits :: "u8 \<Rightarrow> idx res" where
  "idx_from_bits v =
     (if v = 0 then Inr Zero else if v = 1 then Inr One else if v = 2 then Inr Two
      else Inl Explicit_panic)"

definition idx_from_bits_unchecked :: "u8 \<Rightarrow> idx res" where
  "idx_from_bits_unchecked v =
     (if v = 0 then Inr Zero else if v = 1 then Inr One else if v = 2 then Inr Two
      else Inl Undefined_behaviour)"

fun idx_other :: "idx \<Rightarrow> idx" where
  "idx_other Zero = One"
| "idx_other One = Two"
| "idx_other Two = Zero"

text \<open>Indices are ordered as the bytes that represent them.\<close>

instantiation idx :: linorder
begin

definition less_eq_idx :: "idx \<Rightarrow> idx \<Rightarrow> bool" where
  "less_eq_idx a b \<longleftrightarrow> idx_index a \<le> idx_index b"

definition less_idx :: "idx \<Rightarrow> idx \<Rightarrow> bool" where
  "less_idx a b \<longleftrightarrow> idx_index a < idx_index b"

instance
proof
  fix a b :: idx
  show "a \<le> b \<Longrightarrow> b \<le> a \<Longrightarrow> a = b"
    by (cases a; cases b) (simp_all add: less_eq_idx_def)
qed (auto simp: less_eq_idx_def less_idx_def)

end

section \<open>TripleBuffer\<close>

definition flags_init :: u8 where "flags_init = 0"
definition index_mask :: u8 where "index_mask = 3"
definition pending_bit :: u8 where "pending_bit = 4"

record 'a triple_buffer =
  tb_elements :: "idx \<Rightarrow> 'a"
  tb_flags :: u8

definition tb_new :: "'a \<Rightarrow> 'a \<Rightarrow> 'a \<Rightarrow> 'a triple_buffer" where
  "tb_new a b c =
     \<lparr>tb_elements = (\<lambda>i. case i of Zero \<Rightarrow> a | One \<Rightarrow> b | Two \<Rightarrow> c), tb_flags = flags_init\<rparr>"

text \<open>\<open>d\<close> is \<open>T::default()\<close>.\<close>

definition tb_default :: "'a \<Rightarrow> 'a triple_buffer" where
  "tb_default d = \<lparr>tb_elements = (\<lambda>_. d), tb_flags = flags_init\<rparr>"

definition tb_new_none :: "'a option triple_buffer" where
  "tb_new_none = \<lparr>tb_elements = (\<lambda>_. None), tb_flags = flags_init\<rparr>"

text \<open>\<open>TripleBuffer<MaybeUninit<T>>\<close>: an element that is \<open>None\<close> is uninitialised.\<close>

definition tb_uninit :: "'a option triple_buffer" where
  "tb_uninit = \<lparr>tb_elements = (\<lambda>_. None), tb_flags = flags_init\<rparr>"

definition tb_consumed :: "'a triple_buffer \<Rightarrow> bool" where
  "tb_consumed tb \<longleftrightarrow> tb_flags tb AND pending_bit = 0"

definition tb_consumed_mut :: "'a triple_buffer \<Rightarrow> bool" where
  "tb_consumed_mut tb \<longleftrightarrow> tb_flags tb AND pending_bit = 0"

definition tb_pending :: "'a triple_buffer \<Rightarrow> idx res" where
  "tb_pending tb = idx_from_bits_unchecked (tb_flags tb AND index_mask)"

definition tb_pending_mut :: "'a triple_buffer \<Rightarrow> idx res" where
  "tb_pending_mut tb = idx_from_bits_unchecked (tb_flags tb AND index_mask)"

definition tb_publish :: "idx \<Rightarrow> 'a triple_buffer \<Rightarrow> ((idx \<times> bool) \<times> 'a triple_buffer) res" where
  "tb_publish producer tb =
     (let flags = tb_flags tb;
          tb' = tb\<lparr>tb_flags := idx_bits producer OR pending_bit\<rparr>
      in bind_res (idx_from_bits_unchecked (flags AND index_mask)) (\<lambda>new_producer.
           let consumed = (flags AND pending_bit = 0)
           in Inr ((new_producer, consumed), tb')))"

definition tb_consume :: "idx \<Rightarrow> 'a triple_buffer \<Rightarrow> ((idx \<times> bool) \<times> 'a triple_buffer) res" where
  "tb_consume consumer tb =
     (let flags = tb_flags tb;
          tb' = tb\<lparr>tb_flags := idx_bits consumer\<rparr>
      in bind_res (idx_from_bits_unchecked (flags AND index_mask)) (\<lambda>new_consumer.
           let published = (flags AND pending_bit \<noteq> 0)
           in Inr ((new_consumer, published), tb')))"

definition tb_get_unchecked :: "idx \<Rightarrow> 'a triple_buffer \<Rightarrow> 'a" where
  "tb_get_unchecked i tb = tb_elements tb i"

text \<open>\<open>get_unchecked_mut\<close> hands out the element: a write through it is an update of the element.\<close>

definition tb_update :: "idx \<Rightarrow> ('a \<Rightarrow> 'a) \<Rightarrow> 'a triple_buffer \<Rightarrow> 'a triple_buffer" where
  "tb_update i f tb = tb\<lparr>tb_elements := (tb_elements tb)(i := f (tb_elements tb i))\<rparr>"

definition tb_set :: "idx \<Rightarrow> 'a \<Rightarrow> 'a triple_buffer \<Rightarrow> 'a triple_buffer" where
  "tb_set producer value tb = tb_update producer (\<lambda>_. value) tb"

definition tb_set_from :: "idx \<Rightarrow> 'a \<Rightarrow> 'a triple_buffer \<Rightarrow> 'a triple_buffer" where
  "tb_set_from producer value tb = tb_update producer (\<lambda>_. value) tb"

definition tb_set_from_borrow :: "idx \<Rightarrow> 'a \<Rightarrow> 'a triple_buffer \<Rightarrow> 'a triple_buffer" where
  "tb_set_from_borrow producer value tb = tb_update producer (\<lambda>_. value) tb"

definition tb_send :: "idx \<Rightarrow> 'a \<Rightarrow> 'a triple_buffer \<Rightarrow> ((idx \<times> bool) \<times> 'a triple_buffer) res" where
  "tb_send producer value tb = tb_publish producer (tb_update producer (\<lambda>_. value) tb)"

definition tb_send_from :: "idx \<Rightarrow> 'a \<Rightarrow> 'a triple_buffer \<Rightarrow> ((idx \<times> bool) \<times> 'a triple_buffer) res" where
  "tb_send_from producer value tb = tb_publish producer (tb_update producer (\<lambda>_. value) tb)"

definition tb_send_from_borrow :: "idx \<Rightarrow> 'a \<Rightarrow> 'a triple_buffer \<Rightarrow> ((idx \<times> bool) \<times> 'a triple_buffer) res"
where
  "tb_send_from_borrow producer value tb = tb_publish producer (tb_update producer (\<lambda>_. value) tb)"

definition tb_read :: "idx \<Rightarrow> 'a triple_buffer \<Rightarrow> 'a" where
  "tb_read consumer tb = tb_get_unchecked consumer tb"

text \<open>\<open>read_into\<close> returns the new value of the variable it clones into.\<close>

definition tb_read_into :: "idx \<Rightarrow> 'a \<Rightarrow> 'a triple_buffer \<Rightarrow> 'a" where
  "tb_read_into consumer value tb = tb_get_unchecked consumer tb"

text \<open>
  \<open>recv\<close> takes the element out of the slot of the index it was called with (\<open>consumer\<close>), after
  \<open>consume\<close> has exchanged that slot for the published one; \<open>recv_into\<close> clones from the same slot.
\<close>

definition tb_recv :: "'a \<Rightarrow> idx \<Rightarrow> 'a triple_buffer \<Rightarrow> ((idx \<times> 'a option) \<times> 'a triple_buffer) res" where
  "tb_recv d consumer tb =
     bind_res (tb_consume consumer tb) (\<lambda>((new_consumer, produced), tb').
       if produced
       then Inr ((new_consumer, Some (tb_get_unchecked consumer tb')), tb_update consumer (\<lambda>_. d) tb')
       else Inr ((new_consumer, None), tb'))"

definition tb_recv_into :: "idx \<Rightarrow> 'a \<Rightarrow> 'a triple_buffer \<Rightarrow> ((idx \<times> bool) \<times> 'a \<times> 'a triple_buffer) res"
where
  "tb_recv_into consumer value tb =
     bind_res (tb_consume consumer tb) (\<lambda>((new_consumer, produced), tb').
       if produced
       then Inr ((new_consumer, True), tb_get_unchecked consumer tb', tb')
       else Inr ((new_consumer, False), value, tb'))"

section \<open>Producer and consumer handles\<close>

record tb_producer =
  tp_producer :: idx
  tp_last_consumed :: bool

record tb_consumer =
  tc_consumer :: idx

definition tp_get :: "tb_producer \<Rightarrow> 'a triple_buffer \<Rightarrow> 'a" where
  "tp_get p tb = tb_get_unchecked (tp_producer p) tb"

definition tp_update :: "tb_producer \<Rightarrow> ('a \<Rightarrow> 'a) \<Rightarrow> 'a triple_buffer \<Rightarrow> 'a triple_buffer" where
  "tp_update p f tb = tb_update (tp_producer p) f tb"

definition tp_set :: "'a \<Rightarrow> tb_producer \<Rightarrow> 'a triple_buffer \<Rightarrow> 'a triple_buffer" where
  "tp_set value p tb = tb_set (tp_producer p) value tb"

definition tp_set_from :: "'a \<Rightarrow> tb_producer \<Rightarrow> 'a triple_buffer \<Rightarrow> 'a triple_buffer" where
  "tp_set_from value p tb = tb_set_from (tp_producer p) value tb"

definition tp_set_from_borrow :: "'a \<Rightarrow> tb_producer \<Rightarrow> 'a triple_buffer \<Rightarrow> 'a triple_buffer" where
  "tp_set_from_borrow value p tb = tb_set_from_borrow (tp_producer p) value tb"

definition tp_publish :: "tb_producer \<Rightarrow> 'a triple_buffer \<Rightarrow> (bool \<times> tb_producer \<times> 'a triple_buffer) res"
where
  "tp_publish p tb =
     bind_res (tb_publish (tp_producer p) tb) (\<lambda>((new_producer, consumed), tb').
       Inr (consumed, \<lparr>tp_producer = new_producer, tp_last_consumed = consumed\<rparr>, tb'))"

definition tp_send :: "'a \<Rightarrow> tb_producer \<Rightarrow> 'a triple_buffer \<Rightarrow> (bool \<times> tb_producer \<times> 'a triple_buffer) res"
where
  "tp_send value p tb = tp_publish p (tb_set (tp_producer p) value tb)"

definition tp_send_from :: "'a \<Rightarrow> tb_producer \<Rightarrow> 'a triple_buffer \<Rightarrow> (bool \<times> tb_producer \<times> 'a triple_buffer) res"
where
  "tp_send_from value p tb = tp_publish p (tb_set_from (tp_producer p) value tb)"

definition tp_send_from_borrow ::
  "'a \<Rightarrow> tb_producer \<Rightarrow> 'a triple_buffer \<Rightarrow> (bool \<times> tb_producer \<times> 'a triple_buffer) res" where
  "tp_send_from_borrow value p tb =
     bind_res (tb_send_from_borrow (tp_producer p) value tb) (\<lambda>((producer, consumed), tb').
       Inr (consumed, \<lparr>tp_producer = producer, tp_last_consumed = consumed\<rparr>, tb'))"

definition tp_consumed :: "tb_producer \<Rightarrow> 'a triple_buffer \<Rightarrow> bool" where
  "tp_consumed p tb = tb_consumed tb"

definition tc_get :: "tb_consumer \<Rightarrow> 'a triple_buffer \<Rightarrow> 'a" where
  "tc_get c tb = tb_get_unchecked (tc_consumer c) tb"

definition tc_update :: "tb_consumer \<Rightarrow> ('a \<Rightarrow> 'a) \<Rightarrow> 'a triple_buffer \<Rightarrow> 'a triple_buffer" where
  "tc_update c f tb = tb_update (tc_consumer c) f tb"

definition tc_read :: "tb_consumer \<Rightarrow> 'a triple_buffer \<Rightarrow> 'a" where
  "tc_read c tb = tb_read (tc_consumer c) tb"

definition tc_read_into :: "'a \<Rightarrow> tb_consumer \<Rightarrow> 'a triple_buffer \<Rightarrow> 'a" where
  "tc_read_into value c tb = tb_read_into (tc_consumer c) value tb"

definition tc_consume :: "tb_consumer \<Rightarrow> 'a triple_buffer \<Rightarrow> (bool \<times> tb_consumer \<times> 'a triple_buffer) res"
where
  "tc_consume c tb =
     bind_res (tb_consume (tc_consumer c) tb) (\<lambda>((new_consumer, published), tb').
       Inr (published, \<lparr>tc_consumer = new_consumer\<rparr>, tb'))"

definition tc_recv :: "'a \<Rightarrow> tb_consumer \<Rightarrow> 'a triple_buffer
    \<Rightarrow> ('a option \<times> tb_consumer \<times> 'a triple_buffer) res" where
  "tc_recv d c tb =
     bind_res (tb_recv d (tc_consumer c) tb) (\<lambda>((consumer, value), tb').
       Inr (value, \<lparr>tc_consumer = consumer\<rparr>, tb'))"

definition tc_recv_into :: "'a \<Rightarrow> tb_consumer \<Rightarrow> 'a triple_buffer
    \<Rightarrow> (bool \<times> 'a \<times> tb_consumer \<times> 'a triple_buffer) res" where
  "tc_recv_into value c tb =
     bind_res (tb_recv_into (tc_consumer c) value tb) (\<lambda>((consumer, produced), value', tb').
       Inr (produced, value', \<lparr>tc_consumer = consumer\<rparr>, tb'))"

definition tc_published :: "tb_consumer \<Rightarrow> 'a triple_buffer \<Rightarrow> bool" where
  "tc_published c tb \<longleftrightarrow> \<not> tb_consumed tb"

text \<open>\<open>split_arc\<close> and \<open>split_mut\<close> choose the indices of the two handles; only the latter asserts.\<close>

definition tb_split_arc :: "'a triple_buffer \<Rightarrow> (tb_producer \<times> tb_consumer) res" where
  "tb_split_arc tb =
     bind_res (tb_pending_mut tb) (\<lambda>pending.
       let producer = idx_other pending;
           consumer = idx_other producer
       in Inr (\<lparr>tp_producer = producer, tp_last_consumed = True\<rparr>, \<lparr>tc_consumer = consumer\<rparr>))"

definition tb_split_mut :: "'a triple_buffer \<Rightarrow> (tb_producer \<times> tb_consumer) res" where
  "tb_split_mut tb =
     bind_res (tb_pending_mut tb) (\<lambda>pending.
       let producer = idx_other pending;
           consumer = idx_other producer
       in if pending = producer then Inl Debug_assert
          else if pending = consumer then Inl Debug_assert
          else if producer = consumer then Inl Debug_assert
          else Inr (\<lparr>tp_producer = producer, tp_last_consumed = True\<rparr>, \<lparr>tc_consumer = consumer\<rparr>))"

section \<open>The flag byte\<close>

lemma idx_from_bits_idx [simp]:
  "idx_from_bits_unchecked (idx_bits i) = Inr i" "idx_from_bits (idx_bits i) = Inr i"
  by (cases i; simp add: idx_from_bits_unchecked_def idx_from_bits_def)+

lemma idx_bits_masks [simp]:
  "idx_bits i AND index_mask = idx_bits i" "idx_bits i AND pending_bit = 0"
  "(idx_bits i OR pending_bit) AND index_mask = idx_bits i" "(idx_bits i OR pending_bit) AND pending_bit \<noteq> 0"
  by (cases i; simp add: index_mask_def pending_bit_def)+

lemma pending_bit_nz [simp]: "pending_bit \<noteq> 0"
  by (simp add: pending_bit_def)

lemma idx_bits_inject [simp]: "idx_bits i = idx_bits j \<longleftrightarrow> i = j"
  by (cases i; cases j) simp_all

lemma idx_other_simps [simp]: "idx_other i \<noteq> i" "idx_other (idx_other i) \<noteq> i" "idx_other (idx_other (idx_other i)) = i"
  by (cases i; simp)+

lemma idx_third: "(i::idx) \<noteq> j \<Longrightarrow> j \<noteq> k \<Longrightarrow> i \<noteq> k \<Longrightarrow> l = i \<or> l = j \<or> l = k"
  by (cases i; cases j; cases k; cases l) auto

text \<open>The flag byte holds the pending index and whether it has been published since it was consumed.\<close>

definition flag_byte :: "idx \<Rightarrow> bool \<Rightarrow> u8" where
  "flag_byte i full = (if full then idx_bits i OR pending_bit else idx_bits i)"

lemma flag_byte_parts [simp]:
  "flag_byte i b AND index_mask = idx_bits i" "flag_byte i b AND pending_bit = 0 \<longleftrightarrow> \<not> b"
  by (simp_all add: flag_byte_def)

lemma flag_byte_folds: "idx_bits i OR pending_bit = flag_byte i True" "idx_bits i = flag_byte i False"
  by (simp_all add: flag_byte_def)

lemma flags_init_byte: "flags_init = flag_byte Zero False"
  by (simp add: flags_init_def flag_byte_def)

lemma tb_publish_flags:
  "tb_flags tb = flag_byte i full \<Longrightarrow>
    tb_publish p tb = Inr ((i, \<not> full), tb\<lparr>tb_flags := flag_byte p True\<rparr>)"
  by (simp add: tb_publish_def Let_def flag_byte_folds(1))

lemma tb_consume_flags:
  "tb_flags tb = flag_byte i full \<Longrightarrow>
    tb_consume c tb = Inr ((i, full), tb\<lparr>tb_flags := flag_byte c False\<rparr>)"
  by (simp add: tb_consume_def Let_def flag_byte_def[of c])

lemma tb_consumed_flags: "tb_flags tb = flag_byte i full \<Longrightarrow> tb_consumed tb \<longleftrightarrow> \<not> full"
  by (simp add: tb_consumed_def)

lemma tb_pending_flags: "tb_flags tb = flag_byte i full \<Longrightarrow> tb_pending tb = Inr i \<and> tb_pending_mut tb = Inr i"
  by (simp add: tb_pending_def tb_pending_mut_def)

lemma tb_update_flags [simp]: "tb_flags (tb_update i f tb) = tb_flags tb"
  by (simp add: tb_update_def)

section \<open>One producer and one consumer\<close>

text \<open>
  A buffer shared by the two handles of a split. A step is one call of a handle, or one write through
  the reference that \<open>get_mut\<close> gave out; the calls interleave in any order. Two ghost fields record the
  history: \<open>ts_published\<close> the values published so far, and \<open>ts_seen\<close> which publication (counted from
  one) the consumer got each time \<open>consume\<close> returned true.
\<close>

record 'a tb_system =
  ts_buffer :: "'a triple_buffer"
  ts_producer :: tb_producer
  ts_consumer :: tb_consumer
  ts_published :: "'a list"
  ts_seen :: "nat list"

definition tb_system_init :: "'a tb_system \<Rightarrow> bool" where
  "tb_system_init s \<longleftrightarrow> tb_flags (ts_buffer s) = flags_init \<and>
     tb_split_mut (ts_buffer s) = Inr (ts_producer s, ts_consumer s) \<and>
     ts_published s = [] \<and> ts_seen s = []"

inductive tb_step :: "'a tb_system \<Rightarrow> 'a tb_system \<Rightarrow> bool" where
  producer_writes:
    "tb_step s (s\<lparr>ts_buffer := tp_update (ts_producer s) f (ts_buffer s)\<rparr>)"
| producer_publishes:
    "tp_publish (ts_producer s) (ts_buffer s) = Inr (consumed, p, tb) \<Longrightarrow>
     tb_step s (s\<lparr>ts_buffer := tb, ts_producer := p,
       ts_published := ts_published s @ [tp_get (ts_producer s) (ts_buffer s)]\<rparr>)"
| consumer_consumes:
    "tc_consume (ts_consumer s) (ts_buffer s) = Inr (published, c, tb) \<Longrightarrow>
     tb_step s (s\<lparr>ts_buffer := tb, ts_consumer := c,
       ts_seen := ts_seen s @ (if published then [length (ts_published s)] else [])\<rparr>)"
| consumer_writes:
    "tb_step s (s\<lparr>ts_buffer := tc_update (ts_consumer s) f (ts_buffer s)\<rparr>)"

inductive_cases tb_step_cases: "tb_step s t"

text \<open>
  The pending slot, the producer's and the consumer's are three different slots; the pending bit is
  set exactly when the last publication has not been consumed, and then the pending slot holds it.
\<close>

definition tb_system_inv :: "'a tb_system \<Rightarrow> bool" where
  "tb_system_inv s \<longleftrightarrow>
     (\<exists>i full. tb_flags (ts_buffer s) = flag_byte i full \<and>
       i \<noteq> tp_producer (ts_producer s) \<and> i \<noteq> tc_consumer (ts_consumer s) \<and>
       tp_producer (ts_producer s) \<noteq> tc_consumer (ts_consumer s) \<and>
       (full \<longleftrightarrow> ts_published s \<noteq> [] \<and> length (ts_published s) \<notin> set (ts_seen s)) \<and>
       (full \<longrightarrow> tb_elements (ts_buffer s) i = last (ts_published s))) \<and>
     sorted_wrt (<) (ts_seen s) \<and> (\<forall>n \<in> set (ts_seen s). 0 < n \<and> n \<le> length (ts_published s))"

lemma tb_system_invI:
  assumes "tb_flags (ts_buffer s) = flag_byte i full"
    and "i \<noteq> tp_producer (ts_producer s)" and "i \<noteq> tc_consumer (ts_consumer s)"
    and "tp_producer (ts_producer s) \<noteq> tc_consumer (ts_consumer s)"
    and "full \<longleftrightarrow> ts_published s \<noteq> [] \<and> length (ts_published s) \<notin> set (ts_seen s)"
    and "full \<Longrightarrow> tb_elements (ts_buffer s) i = last (ts_published s)"
    and "sorted_wrt (<) (ts_seen s)"
    and "\<And>n. n \<in> set (ts_seen s) \<Longrightarrow> 0 < n \<and> n \<le> length (ts_published s)"
  shows "tb_system_inv s"
  unfolding tb_system_inv_def using assms by blast

lemma tb_split_flags:
  "tb_flags tb = flag_byte i full \<Longrightarrow>
    tb_split_mut tb = Inr (\<lparr>tp_producer = idx_other i, tp_last_consumed = True\<rparr>,
      \<lparr>tc_consumer = idx_other (idx_other i)\<rparr>) \<and> tb_split_arc tb = tb_split_mut tb"
  by (cases i) (simp_all add: tb_split_mut_def tb_split_arc_def tb_pending_flags Let_def)

lemma tb_system_inv_init: "tb_system_init s \<Longrightarrow> tb_system_inv s"
  using tb_split_flags[of "ts_buffer s" Zero False]
  by (auto simp: tb_system_init_def tb_system_inv_def flags_init_byte intro!: exI[of _ Zero] exI[of _ False])

lemma tb_system_inv_step:
  assumes "tb_step s t" and "tb_system_inv s"
  shows "tb_system_inv t"
proof -
  from assms(2) obtain i full where
    fl: "tb_flags (ts_buffer s) = flag_byte i full" and
    ne: "i \<noteq> tp_producer (ts_producer s)" "i \<noteq> tc_consumer (ts_consumer s)"
      "tp_producer (ts_producer s) \<noteq> tc_consumer (ts_consumer s)" and
    full: "full \<longleftrightarrow> ts_published s \<noteq> [] \<and> length (ts_published s) \<notin> set (ts_seen s)"
      "full \<Longrightarrow> tb_elements (ts_buffer s) i = last (ts_published s)" and
    seen: "sorted_wrt (<) (ts_seen s)" "\<forall>n \<in> set (ts_seen s). 0 < n \<and> n \<le> length (ts_published s)"
    unfolding tb_system_inv_def by blast
  from assms(1) show ?thesis
  proof cases
    case (producer_writes f)
    with fl ne full seen show ?thesis
      by (intro tb_system_invI[where i = i and full = full]) (auto simp: tp_update_def tb_update_def)
  next
    case (producer_publishes consumed p tb)
    let ?p = "tp_producer (ts_producer s)"
    have tb: "tb = ts_buffer s\<lparr>tb_flags := flag_byte ?p True\<rparr>" "tp_producer p = i"
      using producer_publishes(2) by (auto simp: tp_publish_def tb_publish_flags[OF fl])
    have "Suc (length (ts_published s)) \<notin> set (ts_seen s)" using seen(2) by fastforce
    with producer_publishes(1) tb ne seen show ?thesis
      by (intro tb_system_invI[where i = ?p and full = True])
        (auto simp: tp_get_def tb_get_unchecked_def le_Suc_eq)
  next
    case (consumer_consumes published c tb)
    let ?c = "tc_consumer (ts_consumer s)"
    have tb: "tb = ts_buffer s\<lparr>tb_flags := flag_byte ?c False\<rparr>" "tc_consumer c = i" "published = full"
      using consumer_consumes(2) by (auto simp: tc_consume_def tb_consume_flags[OF fl])
    have "\<forall>n \<in> set (ts_seen s). full \<longrightarrow> n < length (ts_published s)"
      using seen(2) full(1) by (metis le_neq_implies_less)
    then have "sorted_wrt (<) (ts_seen s @ (if full then [length (ts_published s)] else []))"
      using seen(1) by (cases full) (simp_all add: sorted_wrt_append)
    moreover have "\<not> (ts_published s \<noteq> [] \<and>
        length (ts_published s) \<notin> set (ts_seen s @ (if full then [length (ts_published s)] else [])))"
      using full(1) by auto
    moreover have "0 < n \<and> n \<le> length (ts_published s)"
      if "n \<in> set (ts_seen s @ (if full then [length (ts_published s)] else []))" for n
      using that seen(2) full(1) by (auto split: if_splits)
    ultimately show ?thesis
      using consumer_consumes(1) tb ne by (intro tb_system_invI[where i = ?c and full = False]) simp_all
  next
    case (consumer_writes f)
    with fl ne full seen show ?thesis
      by (intro tb_system_invI[where i = i and full = full]) (auto simp: tc_update_def tb_update_def)
  qed
qed

interpretation tb_sys: transition_system tb_system_init tb_step tb_system_inv
  by unfold_locales (auto intro: tb_system_inv_init tb_system_inv_step)

section \<open>Properties\<close>

text \<open>The system right after a split, and after one publication, for the witnesses.\<close>

definition tb_start :: "nat tb_system" where
  "tb_start = \<lparr>ts_buffer = tb_new 7 8 9, ts_producer = \<lparr>tp_producer = One, tp_last_consumed = True\<rparr>,
     ts_consumer = \<lparr>tc_consumer = Two\<rparr>, ts_published = [], ts_seen = []\<rparr>"

definition tb_after_publish :: "nat tb_system" where
  "tb_after_publish = tb_start\<lparr>ts_buffer := tb_new 7 8 9\<lparr>tb_flags := flag_byte One True\<rparr>,
     ts_producer := \<lparr>tp_producer = Zero, tp_last_consumed = True\<rparr>, ts_published := [8]\<rparr>"

lemma tb_start_reachable: "reachable tb_system_init tb_step tb_start"
  by (rule reach_init)
    (simp add: tb_system_init_def tb_start_def tb_new_def tb_split_flags[of _ Zero False] flags_init_byte)

lemma tb_after_publish_reachable: "reachable tb_system_init tb_step tb_after_publish"
proof (rule reach_step[OF tb_start_reachable])
  have "tp_publish (ts_producer tb_start) (ts_buffer tb_start) =
      Inr (True, \<lparr>tp_producer = Zero, tp_last_consumed = True\<rparr>, tb_new 7 8 9\<lparr>tb_flags := flag_byte One True\<rparr>)"
    by (simp add: tb_start_def tp_publish_def tb_new_def tb_publish_flags[of _ Zero False] flags_init_byte)
  from producer_publishes[OF this] show "tb_step tb_start tb_after_publish"
    by (simp add: tb_after_publish_def tb_start_def tp_get_def tb_get_unchecked_def tb_new_def)
qed

text \<open>
  Claim C8. After a split, in every interleaving of calls and writes of the two handles, the producer's
  slot, the consumer's slot and the pending slot are three different slots: the mutable references the
  handles give out never alias, and no call reads a flag byte that is not an index.
\<close>

theorem triple_slots_never_alias:
  assumes "reachable tb_system_init tb_step s"
  shows "tp_producer (ts_producer s) \<noteq> tc_consumer (ts_consumer s) \<and>
    (\<exists>i. tb_pending (ts_buffer s) = Inr i \<and> i \<noteq> tp_producer (ts_producer s) \<and> i \<noteq> tc_consumer (ts_consumer s)) \<and>
    (\<exists>r. tp_publish (ts_producer s) (ts_buffer s) = Inr r) \<and>
    (\<exists>r. tc_consume (ts_consumer s) (ts_buffer s) = Inr r)"
proof -
  obtain i full where fl: "tb_flags (ts_buffer s) = flag_byte i full" and
    "i \<noteq> tp_producer (ts_producer s)" "i \<noteq> tc_consumer (ts_consumer s)"
    "tp_producer (ts_producer s) \<noteq> tc_consumer (ts_consumer s)"
    using tb_sys.reachable_inv[OF assms] unfolding tb_system_inv_def by blast
  then show ?thesis
    by (simp add: tb_pending_flags[OF fl] tp_publish_def tc_consume_def tb_publish_flags[OF fl] tb_consume_flags[OF fl])
qed

theorem triple_slots_never_alias_witness:
  "tp_producer (ts_producer tb_after_publish) \<noteq> tc_consumer (ts_consumer tb_after_publish)"
  using triple_slots_never_alias[OF tb_after_publish_reachable] by blast

text \<open>
  Claim C11. \<open>consume\<close> returns true exactly when there is a publication it has not returned yet, and then
  the consumer's element is the value published last, whatever was published or written in between.
  \<open>publish\<close> returns true exactly when there was no earlier publication or the last one was consumed.
\<close>

theorem consume_returns_latest:
  assumes reach: "reachable tb_system_init tb_step s"
    and c: "tc_consume (ts_consumer s) (ts_buffer s) = Inr (published, c, tb)"
    and p: "tp_publish (ts_producer s) (ts_buffer s) = Inr (consumed, p, tb2)"
  shows "published = (ts_published s \<noteq> [] \<and> length (ts_published s) \<notin> set (ts_seen s)) \<and>
    (published \<longrightarrow> tc_get c tb = last (ts_published s)) \<and>
    consumed = (ts_published s = [] \<or> length (ts_published s) \<in> set (ts_seen s))"
proof -
  obtain i full where fl: "tb_flags (ts_buffer s) = flag_byte i full" and
    full: "full \<longleftrightarrow> ts_published s \<noteq> [] \<and> length (ts_published s) \<notin> set (ts_seen s)"
    "full \<longrightarrow> tb_elements (ts_buffer s) i = last (ts_published s)"
    using tb_sys.reachable_inv[OF reach] unfolding tb_system_inv_def by blast
  have "published = full" "consumed = (\<not> full)" "tc_get c tb = tb_elements (ts_buffer s) i"
    using c p by (auto simp: tc_consume_def tp_publish_def tb_consume_flags[OF fl] tb_publish_flags[OF fl]
        tc_get_def tb_get_unchecked_def)
  with full show ?thesis by auto
qed

theorem consume_returns_latest_witness:
  "\<exists>c tb. tc_consume (ts_consumer tb_after_publish) (ts_buffer tb_after_publish) = Inr (True, c, tb) \<and>
    tc_get c tb = 8"
proof -
  have fl: "tb_flags (ts_buffer tb_after_publish) = flag_byte One True" by (simp add: tb_after_publish_def)
  obtain c tb where c: "tc_consume (ts_consumer tb_after_publish) (ts_buffer tb_after_publish) = Inr (True, c, tb)"
    by (simp add: tc_consume_def tb_consume_flags[OF fl])
  obtain p tb2 where p: "tp_publish (ts_producer tb_after_publish) (ts_buffer tb_after_publish) = Inr (False, p, tb2)"
    by (simp add: tp_publish_def tb_publish_flags[OF fl])
  from consume_returns_latest[OF tb_after_publish_reachable c p] c show ?thesis
    by (simp add: tb_after_publish_def)
qed

text \<open>
  Publications reach the consumer in order and at most once: the numbers of the publications
  that \<open>consume\<close> returned are strictly increasing and name publications that were made.
\<close>

theorem consume_in_order_at_most_once:
  assumes "reachable tb_system_init tb_step s"
  shows "sorted_wrt (<) (ts_seen s) \<and> distinct (ts_seen s) \<and>
    set (ts_seen s) \<subseteq> {1..length (ts_published s)}"
proof -
  have "sorted_wrt (<) (ts_seen s)" "\<forall>n \<in> set (ts_seen s). 0 < n \<and> n \<le> length (ts_published s)"
    using tb_sys.reachable_inv[OF assms] unfolding tb_system_inv_def by blast+
  then show ?thesis by (auto simp: strict_sorted_iff Suc_le_eq)
qed

theorem consume_in_order_at_most_once_witness: "distinct (ts_seen tb_after_publish)"
  using consume_in_order_at_most_once[OF tb_after_publish_reachable] by blast

text \<open>
  Claim C36. \<open>recv\<close> reads through the consumer index it was called with instead of the one \<open>consume\<close>
  gave back. After a \<open>send\<close> of \<open>v\<close> it therefore returns the element the consumer held before, not
  \<open>v\<close>; \<open>v\<close> stays unread in the consumer's new slot; and the slot it empties is the pending slot, which
  the producer may own by then. \<open>recv_into\<close> clones the same stale element.
\<close>

theorem recv_returns_stale_element:
  assumes fl: "tb_flags tb = flag_byte i full" and "i \<noteq> p" and "i \<noteq> c" and "p \<noteq> c"
    and send: "tb_send p v tb = Inr (r, tb1)"
  shows "\<exists>tb2. tb_recv d c tb1 = Inr ((p, Some (tb_elements tb c)), tb2) \<and>
      tb_elements tb2 p = v \<and> tb_pending tb2 = Inr c \<and> tb_elements tb2 c = d \<and>
      (\<exists>tb3. tb_recv_into c w tb1 = Inr ((p, True), tb_elements tb c, tb3))"
proof -
  have tb1: "tb1 = (tb_update p (\<lambda>_. v) tb)\<lparr>tb_flags := flag_byte p True\<rparr>"
    using send fl by (simp add: tb_send_def tb_publish_flags[of _ i full])
  then have "tb_flags tb1 = flag_byte p True" by simp
  then have "tb_consume c tb1 = Inr ((p, True), tb1\<lparr>tb_flags := flag_byte c False\<rparr>)"
    by (rule tb_consume_flags)
  then have "tb_recv d c tb1 = Inr ((p, Some (tb_elements tb1 c)), tb_update c (\<lambda>_. d) (tb1\<lparr>tb_flags := flag_byte c False\<rparr>))"
    and "tb_recv_into c w tb1 = Inr ((p, True), tb_elements tb1 c, tb1\<lparr>tb_flags := flag_byte c False\<rparr>)"
    by (simp_all add: tb_recv_def tb_recv_into_def tb_get_unchecked_def)
  moreover have "tb_elements tb1 c = tb_elements tb c" "tb_elements tb1 p = v"
    using assms(4) by (simp_all add: tb1 tb_update_def)
  ultimately show ?thesis
    using assms(4) by (simp add: tb_pending_flags[of _ c False]) (simp add: tb_update_def)
qed

theorem recv_returns_stale_element_witness:
  "\<exists>tb2. tb_recv 0 Two ((tb_update One (\<lambda>_. 42) (tb_new 7 8 9))\<lparr>tb_flags := flag_byte One True\<rparr>)
      = Inr ((One, Some (9::nat)), tb2) \<and> tb_elements tb2 One = 42"
proof -
  have fl: "tb_flags (tb_new 7 8 (9::nat)) = flag_byte Zero False" by (simp add: tb_new_def flags_init_byte)
  have "tb_send One 42 (tb_new 7 8 (9::nat)) =
      Inr ((Zero, True), (tb_update One (\<lambda>_. 42) (tb_new 7 8 9))\<lparr>tb_flags := flag_byte One True\<rparr>)"
    using fl by (simp add: tb_send_def tb_publish_flags[of _ Zero False])
  from recv_returns_stale_element[OF fl _ _ _ this, of Two 0]
  show ?thesis by (auto simp: tb_new_def)
qed

end
