(* ===== verification/Broad.thy ===== *)
theory Broad
  imports Triple
begin

text \<open>
  The broadcast channel of \<open>src/src/broad.rs\<close>: \<open>Broadcast\<close> over a triple buffer of values with version
  numbers, the handles \<open>Sender\<close>, \<open>Receiver\<close> and \<open>Cached\<close>, and their operations as functions on the
  shared state (the \<open>Arc\<close> is the state that is passed along). Here every operation runs without
  interference; \<open>Broad_Race\<close> takes the operations apart into interleaved steps.

  \<open>bc_consumer\<close> is the value inside the \<open>RwLock\<close>. A closure that gets a mutable reference returns its
  result and the new value. Overflow of a version counter is the fault \<open>Arith_overflow\<close>.
\<close>

definition u64_add :: "u64 \<Rightarrow> u64 \<Rightarrow> u64 res" where
  "u64_add a b = (if unat a + unat b < 2 ^ 64 then Inr (a + b) else Inl Arith_overflow)"

section \<open>Broadcast\<close>

record 'a broadcast =
  bc_buffer :: "('a \<times> u64) triple_buffer"
  bc_consumer :: idx

text \<open>The common end of the two branches of \<open>read\<close>: look at the consumer's element.\<close>

definition bc_visit :: "('a \<Rightarrow> bool \<Rightarrow> 'r) \<Rightarrow> u64 \<Rightarrow> 'a broadcast \<Rightarrow> ('r \<times> u64 \<times> 'a broadcast) res" where
  "bc_visit f current b =
     (case tb_get_unchecked (bc_consumer b) (bc_buffer b) of (value, version) \<Rightarrow>
        if version > current then Inr (f value True, version, b) else Inr (f value False, current, b))"

definition bc_read :: "('a \<Rightarrow> bool \<Rightarrow> 'r) \<Rightarrow> u64 \<Rightarrow> 'a broadcast \<Rightarrow> ('r \<times> u64 \<times> 'a broadcast) res" where
  "bc_read f current b =
     (if \<not> tb_consumed (bc_buffer b) then
        bind_res
          (if \<not> tb_consumed (bc_buffer b) then
             bind_res (tb_consume (bc_consumer b) (bc_buffer b)) (\<lambda>((new_consumer, published), tb).
               if \<not> published then Inl Debug_assert
               else Inr (b\<lparr>bc_buffer := tb, bc_consumer := new_consumer\<rparr>))
           else Inr b)
          (bc_visit f current)
      else bc_visit f current b)"

definition bc_recv :: "u64 \<Rightarrow> 'a broadcast \<Rightarrow> ('a option \<times> u64 \<times> 'a broadcast) res" where
  "bc_recv current b = bc_read (\<lambda>value updated. if updated then Some value else None) current b"

text \<open>\<open>recv_into\<close> and \<open>last_into\<close> also return the new value of the variable they clone into.\<close>

definition bc_recv_into :: "'a \<Rightarrow> u64 \<Rightarrow> 'a broadcast \<Rightarrow> ((bool \<times> 'a) \<times> u64 \<times> 'a broadcast) res" where
  "bc_recv_into value current b =
     bc_read (\<lambda>buffer updated. if updated then (True, buffer) else (False, value)) current b"

definition bc_last :: "u64 \<Rightarrow> 'a broadcast \<Rightarrow> ('a \<times> u64 \<times> 'a broadcast) res" where
  "bc_last current b = bc_read (\<lambda>value _. value) current b"

definition bc_last_into :: "'a \<Rightarrow> u64 \<Rightarrow> 'a broadcast \<Rightarrow> ('a \<times> u64 \<times> 'a broadcast) res" where
  "bc_last_into value current b = bc_read (\<lambda>buffer _. buffer) current b"

definition bc_write :: "('a \<Rightarrow> 'r \<times> 'a) \<Rightarrow> idx \<Rightarrow> u64 \<Rightarrow> 'a broadcast
    \<Rightarrow> ('r \<times> idx \<times> u64 \<times> 'a broadcast) res" where
  "bc_write f producer current b =
     (case tb_get_unchecked producer (bc_buffer b) of (value, version) \<Rightarrow>
      case f value of (r, value') \<Rightarrow>
        bind_res (u64_add current 1) (\<lambda>current'.
        bind_res (u64_add version current') (\<lambda>version'.
        bind_res (tb_publish producer (tb_update producer (\<lambda>_. (value', version')) (bc_buffer b)))
          (\<lambda>((new_producer, _), tb). Inr (r, new_producer, current', b\<lparr>bc_buffer := tb\<rparr>)))))"

definition bc_send :: "'a \<Rightarrow> idx \<Rightarrow> u64 \<Rightarrow> 'a broadcast \<Rightarrow> (unit \<times> idx \<times> u64 \<times> 'a broadcast) res" where
  "bc_send value producer current b = bc_write (\<lambda>_. ((), value)) producer current b"

definition bc_send_from :: "'a \<Rightarrow> idx \<Rightarrow> u64 \<Rightarrow> 'a broadcast \<Rightarrow> (unit \<times> idx \<times> u64 \<times> 'a broadcast) res" where
  "bc_send_from value producer current b = bc_write (\<lambda>_. ((), value)) producer current b"

definition bc_send_from_borrow ::
  "'a \<Rightarrow> idx \<Rightarrow> u64 \<Rightarrow> 'a broadcast \<Rightarrow> (unit \<times> idx \<times> u64 \<times> 'a broadcast) res" where
  "bc_send_from_borrow value producer current b = bc_write (\<lambda>_. ((), value)) producer current b"

definition bc_new :: "'a \<Rightarrow> 'a broadcast \<times> u64 \<times> idx" where
  "bc_new initial =
     (let producer = idx_default;
          consumer = idx_other producer;
          version = 0
      in (\<lparr>bc_buffer = tb_new (initial, version) (initial, version) (initial, version),
           bc_consumer = consumer\<rparr>, version, producer))"

section \<open>Sender, Receiver, Cached\<close>

record receiver =
  rc_version :: u64

record sender =
  sn_producer :: idx
  sn_version :: u64

record 'a cached =
  cd_get :: receiver
  cd_local :: 'a

definition bc_into_sender :: "idx \<Rightarrow> u64 \<Rightarrow> 'a broadcast \<Rightarrow> 'a broadcast \<times> sender" where
  "bc_into_sender producer version b = (b, \<lparr>sn_producer = producer, sn_version = version\<rparr>)"

definition sn_with_lock :: "'a \<Rightarrow> 'a broadcast \<times> sender" where
  "sn_with_lock initial =
     (case bc_new initial of (b, version, producer) \<Rightarrow> (b, \<lparr>sn_producer = producer, sn_version = version\<rparr>))"

definition sn_new :: "'a \<Rightarrow> 'a broadcast \<times> sender" where
  "sn_new initial = sn_with_lock initial"

definition sn_write :: "('a \<Rightarrow> 'r \<times> 'a) \<Rightarrow> sender \<Rightarrow> 'a broadcast \<Rightarrow> ('r \<times> sender \<times> 'a broadcast) res" where
  "sn_write f s b =
     bind_res (bc_write f (sn_producer s) (sn_version s) b) (\<lambda>(r, producer, version, b').
       Inr (r, \<lparr>sn_producer = producer, sn_version = version\<rparr>, b'))"

definition sn_send :: "'a \<Rightarrow> sender \<Rightarrow> 'a broadcast \<Rightarrow> (sender \<times> 'a broadcast) res" where
  "sn_send value s b =
     bind_res (bc_send value (sn_producer s) (sn_version s) b) (\<lambda>(_, producer, version, b').
       Inr (\<lparr>sn_producer = producer, sn_version = version\<rparr>, b'))"

definition sn_send_from :: "'a \<Rightarrow> sender \<Rightarrow> 'a broadcast \<Rightarrow> (sender \<times> 'a broadcast) res" where
  "sn_send_from value s b =
     bind_res (bc_send_from value (sn_producer s) (sn_version s) b) (\<lambda>(_, producer, version, b').
       Inr (\<lparr>sn_producer = producer, sn_version = version\<rparr>, b'))"

definition sn_send_from_borrow :: "'a \<Rightarrow> sender \<Rightarrow> 'a broadcast \<Rightarrow> (sender \<times> 'a broadcast) res" where
  "sn_send_from_borrow value s b =
     bind_res (bc_send_from_borrow value (sn_producer s) (sn_version s) b) (\<lambda>(_, producer, version, b').
       Inr (\<lparr>sn_producer = producer, sn_version = version\<rparr>, b'))"

definition sn_receiver :: "sender \<Rightarrow> receiver" where
  "sn_receiver s = \<lparr>rc_version = 0\<rparr>"

definition rc_read :: "('a \<Rightarrow> bool \<Rightarrow> 'r) \<Rightarrow> receiver \<Rightarrow> 'a broadcast \<Rightarrow> ('r \<times> receiver \<times> 'a broadcast) res" where
  "rc_read f r b =
     bind_res (bc_read f (rc_version r) b) (\<lambda>(x, version, b'). Inr (x, \<lparr>rc_version = version\<rparr>, b'))"

definition rc_recv :: "receiver \<Rightarrow> 'a broadcast \<Rightarrow> ('a option \<times> receiver \<times> 'a broadcast) res" where
  "rc_recv r b =
     bind_res (bc_recv (rc_version r) b) (\<lambda>(x, version, b'). Inr (x, \<lparr>rc_version = version\<rparr>, b'))"

definition rc_recv_into :: "'a \<Rightarrow> receiver \<Rightarrow> 'a broadcast \<Rightarrow> ((bool \<times> 'a) \<times> receiver \<times> 'a broadcast) res"
where
  "rc_recv_into value r b =
     bind_res (bc_recv_into value (rc_version r) b) (\<lambda>(x, version, b'). Inr (x, \<lparr>rc_version = version\<rparr>, b'))"

definition rc_last :: "receiver \<Rightarrow> 'a broadcast \<Rightarrow> ('a \<times> receiver \<times> 'a broadcast) res" where
  "rc_last r b =
     bind_res (bc_last (rc_version r) b) (\<lambda>(x, version, b'). Inr (x, \<lparr>rc_version = version\<rparr>, b'))"

definition rc_last_into :: "'a \<Rightarrow> receiver \<Rightarrow> 'a broadcast \<Rightarrow> ('a \<times> receiver \<times> 'a broadcast) res" where
  "rc_last_into value r b =
     bind_res (bc_last_into value (rc_version r) b) (\<lambda>(x, version, b'). Inr (x, \<lparr>rc_version = version\<rparr>, b'))"

definition rc_clone :: "receiver \<Rightarrow> receiver" where
  "rc_clone r = \<lparr>rc_version = rc_version r\<rparr>"

definition rc_clone_from :: "receiver \<Rightarrow> receiver \<Rightarrow> receiver" where
  "rc_clone_from source r = r\<lparr>rc_version := rc_version source\<rparr>"

definition cd_new :: "receiver \<Rightarrow> 'a broadcast \<Rightarrow> ('a cached \<times> 'a broadcast) res" where
  "cd_new get b =
     bind_res (rc_last get b) (\<lambda>(loc, get', b'). Inr (\<lparr>cd_get = get', cd_local = loc\<rparr>, b'))"

definition cd_from :: "receiver \<Rightarrow> 'a broadcast \<Rightarrow> ('a cached \<times> 'a broadcast) res" where
  "cd_from get b = cd_new get b"

definition cd_clone :: "'a cached \<Rightarrow> 'a cached" where
  "cd_clone c = \<lparr>cd_get = rc_clone (cd_get c), cd_local = cd_local c\<rparr>"

definition cd_clone_from :: "'a cached \<Rightarrow> 'a cached \<Rightarrow> 'a cached" where
  "cd_clone_from source c = c\<lparr>cd_get := rc_clone_from (cd_get source) (cd_get c), cd_local := cd_local source\<rparr>"

definition sn_cached :: "sender \<Rightarrow> 'a broadcast \<Rightarrow> ('a cached \<times> 'a broadcast) res" where
  "sn_cached s b = cd_new (sn_receiver s) b"

definition cd_update :: "'a cached \<Rightarrow> 'a broadcast \<Rightarrow> (bool \<times> 'a cached \<times> 'a broadcast) res" where
  "cd_update c b =
     bind_res (rc_recv_into (cd_local c) (cd_get c) b) (\<lambda>((updated, loc), get, b').
       Inr (updated, \<lparr>cd_get = get, cd_local = loc\<rparr>, b'))"

section \<open>What the channel holds\<close>

text \<open>
  The value a channel holds: the pending element when it has been published and not consumed, the
  consumer's element otherwise.
\<close>

definition bc_latest :: "'a broadcast \<Rightarrow> 'a \<times> u64" where
  "bc_latest b =
     (if tb_consumed (bc_buffer b) then tb_elements (bc_buffer b) (bc_consumer b)
      else (case tb_pending (bc_buffer b) of Inr i \<Rightarrow> tb_elements (bc_buffer b) i
            | Inl _ \<Rightarrow> tb_elements (bc_buffer b) (bc_consumer b)))"

definition bc_wf :: "'a broadcast \<Rightarrow> bool" where
  "bc_wf b \<longleftrightarrow> (case tb_pending (bc_buffer b) of Inr i \<Rightarrow>
     tb_flags (bc_buffer b) = flag_byte i (\<not> tb_consumed (bc_buffer b)) | Inl _ \<Rightarrow> False)"

lemma bc_wf_flags: "bc_wf b \<longleftrightarrow> (\<exists>i full. tb_flags (bc_buffer b) = flag_byte i full)"
proof
  show "bc_wf b \<Longrightarrow> \<exists>i full. tb_flags (bc_buffer b) = flag_byte i full"
    by (auto simp: bc_wf_def split: sum.splits)
next
  assume "\<exists>i full. tb_flags (bc_buffer b) = flag_byte i full"
  then show "bc_wf b"
    by (auto simp: bc_wf_def tb_pending_flags tb_consumed_flags)
qed

lemma bc_latest_flags:
  "tb_flags (bc_buffer b) = flag_byte i full \<Longrightarrow>
    bc_latest b = tb_elements (bc_buffer b) (if full then i else bc_consumer b)"
  by (simp add: bc_latest_def tb_consumed_flags tb_pending_flags)

lemma bc_visit_eq:
  "bc_visit f current b =
    (let (v, ver) = tb_elements (bc_buffer b) (bc_consumer b)
     in Inr (f v (ver > current), max current ver, b))"
  by (auto simp: bc_visit_def tb_get_unchecked_def max_def split: prod.splits)

text \<open>The state a \<open>read\<close> leaves: the pending element has become the consumer's.\<close>

definition bc_fetch :: "'a broadcast \<Rightarrow> 'a broadcast" where
  "bc_fetch b = (case tb_pending (bc_buffer b) of
     Inr i \<Rightarrow> if tb_consumed (bc_buffer b) then b
       else b\<lparr>bc_buffer := (bc_buffer b)\<lparr>tb_flags := flag_byte (bc_consumer b) False\<rparr>, bc_consumer := i\<rparr>
   | Inl _ \<Rightarrow> b)"

lemma bc_fetch_flags:
  "tb_flags (bc_buffer b) = flag_byte i full \<Longrightarrow> bc_fetch b =
    (if full then b\<lparr>bc_buffer := (bc_buffer b)\<lparr>tb_flags := flag_byte (bc_consumer b) False\<rparr>, bc_consumer := i\<rparr>
     else b)"
  by (simp add: bc_fetch_def tb_pending_flags tb_consumed_flags)

lemma bc_fetch_wf: "bc_wf b \<Longrightarrow> bc_wf (bc_fetch b)"
  by (force simp: bc_wf_flags bc_fetch_flags)

lemma bc_fetch_latest: "bc_wf b \<Longrightarrow> bc_wf (bc_fetch b) \<and> bc_latest (bc_fetch b) = bc_latest b"
  by (rule conjI, erule bc_fetch_wf) (auto simp: bc_wf_flags bc_fetch_flags bc_latest_flags)

lemma bc_read_latest:
  "bc_wf b \<Longrightarrow> bc_read f current b =
    Inr (f (fst (bc_latest b)) (snd (bc_latest b) > current), max current (snd (bc_latest b)), bc_fetch b)"
  by (auto simp: bc_wf_flags bc_read_def tb_consumed_flags tb_consume_flags bc_visit_eq bc_latest_flags
      bc_fetch_flags split: prod.splits)

lemma bc_write_latest:
  assumes "bc_wf b" and "bc_write f producer current b = Inr (r, producer', current', b')"
  shows "bc_wf b' \<and> bc_consumer b' = bc_consumer b \<and>
    fst (bc_latest b') = snd (f (fst (tb_elements (bc_buffer b) producer))) \<and>
    r = fst (f (fst (tb_elements (bc_buffer b) producer)))"
proof -
  from assms obtain i full where fl: "tb_flags (bc_buffer b) = flag_byte i full"
    by (auto simp: bc_wf_flags)
  obtain v ver where el: "tb_elements (bc_buffer b) producer = (v, ver)" by (cases "tb_elements (bc_buffer b) producer")
  obtain r0 v' where fv: "f v = (r0, v')" by (cases "f v")
  from assms(2) obtain ver' where b': "b' = b\<lparr>bc_buffer :=
      (tb_update producer (\<lambda>_. (v', ver')) (bc_buffer b))\<lparr>tb_flags := flag_byte producer True\<rparr>\<rparr>" "r = r0"
    by (auto simp: bc_write_def tb_get_unchecked_def el fv bind_res_Inr_conv tb_publish_flags[of _ i full] fl)
  then have fl': "tb_flags (bc_buffer b') = flag_byte producer True" by simp
  have "bc_latest b' = (v', ver')"
    using bc_latest_flags[OF fl'] b' by (simp add: tb_update_def)
  moreover have "bc_wf b'" using fl' by (auto simp: bc_wf_flags)
  ultimately show ?thesis using b' el fv by simp
qed

section \<open>A channel in use\<close>

text \<open>
  A channel with one sender and any number of receivers, used by one operation at a time. A receiver
  is named by its position. The output of a \<open>recv\<close> or a \<open>last\<close> is collected.
\<close>

record 'a channel =
  ch_shared :: "'a broadcast"
  ch_sender :: sender
  ch_receivers :: "receiver list"

datatype 'a channel_op = Ch_Send 'a | Ch_Subscribe | Ch_Recv nat | Ch_Last nat

definition ch_new :: "'a \<Rightarrow> 'a channel" where
  "ch_new initial = (case sn_with_lock initial of (b, s) \<Rightarrow>
     \<lparr>ch_shared = b, ch_sender = s, ch_receivers = []\<rparr>)"

fun ch_step :: "'a channel_op \<Rightarrow> 'a channel \<Rightarrow> ('a option list \<times> 'a channel) res" where
  "ch_step (Ch_Send v) ch =
     bind_res (sn_send v (ch_sender ch) (ch_shared ch)) (\<lambda>(s, b).
       Inr ([], ch\<lparr>ch_sender := s, ch_shared := b\<rparr>))"
| "ch_step Ch_Subscribe ch =
     Inr ([], ch\<lparr>ch_receivers := ch_receivers ch @ [sn_receiver (ch_sender ch)]\<rparr>)"
| "ch_step (Ch_Recv i) ch =
     (if i < length (ch_receivers ch) then
        bind_res (rc_recv (ch_receivers ch ! i) (ch_shared ch)) (\<lambda>(x, r, b).
          Inr ([x], ch\<lparr>ch_shared := b, ch_receivers := (ch_receivers ch)[i := r]\<rparr>))
      else Inl Index_bounds)"
| "ch_step (Ch_Last i) ch =
     (if i < length (ch_receivers ch) then
        bind_res (rc_last (ch_receivers ch ! i) (ch_shared ch)) (\<lambda>(x, r, b).
          Inr ([Some x], ch\<lparr>ch_shared := b, ch_receivers := (ch_receivers ch)[i := r]\<rparr>))
      else Inl Index_bounds)"

fun ch_run :: "'a channel_op list \<Rightarrow> 'a channel \<Rightarrow> ('a option list \<times> 'a channel) res" where
  "ch_run [] ch = Inr ([], ch)"
| "ch_run (op # ops) ch =
     bind_res (ch_step op ch) (\<lambda>(out, ch').
       bind_res (ch_run ops ch') (\<lambda>(outs, ch''). Inr (out @ outs, ch'')))"

text \<open>The values sent, in order.\<close>

fun ch_sent :: "'a channel_op list \<Rightarrow> 'a list" where
  "ch_sent [] = []"
| "ch_sent (Ch_Send v # ops) = v # ch_sent ops"
| "ch_sent (_ # ops) = ch_sent ops"

lemma rc_recv_latest:
  "bc_wf b \<Longrightarrow> rc_recv r b = Inr (if snd (bc_latest b) > rc_version r then Some (fst (bc_latest b)) else None,
      \<lparr>rc_version = max (rc_version r) (snd (bc_latest b))\<rparr>, bc_fetch b)"
  "bc_wf b \<Longrightarrow> rc_last r b =
    Inr (fst (bc_latest b), \<lparr>rc_version = max (rc_version r) (snd (bc_latest b))\<rparr>, bc_fetch b)"
  by (simp_all add: rc_recv_def rc_last_def bc_recv_def bc_last_def bc_read_latest)

lemma ch_step_latest:
  assumes "bc_wf (ch_shared ch)" and "ch_step op ch = Inr (out, ch')"
  shows "bc_wf (ch_shared ch') \<and>
    fst (bc_latest (ch_shared ch')) = last (fst (bc_latest (ch_shared ch)) # ch_sent [op])"
proof (cases op)
  case (Ch_Send v)
  with assms(2) show ?thesis
    using bc_write_latest[OF assms(1), of "\<lambda>_. ((), v)"]
    by (fastforce simp: sn_send_def bc_send_def bind_res_Inr_conv)
next
  case Ch_Subscribe
  with assms show ?thesis by auto
next
  case (Ch_Recv i)
  with assms bc_fetch_latest[OF assms(1)] show ?thesis
    by (auto simp: rc_recv_latest split: if_splits)
next
  case (Ch_Last i)
  with assms bc_fetch_latest[OF assms(1)] show ?thesis
    by (auto simp: rc_recv_latest split: if_splits)
qed

lemma ch_sent_append: "ch_sent (xs @ ys) = ch_sent xs @ ch_sent ys"
  by (induction xs rule: ch_sent.induct) auto

lemma ch_run_latest:
  "bc_wf (ch_shared ch) \<Longrightarrow> ch_run ops ch = Inr (outs, ch') \<Longrightarrow>
    bc_wf (ch_shared ch') \<and>
    fst (bc_latest (ch_shared ch')) = last (fst (bc_latest (ch_shared ch)) # ch_sent ops)"
proof (induction ops arbitrary: ch outs)
  case Nil
  then show ?case by simp
next
  case (Cons op ops)
  from Cons.prems(2) obtain out ch1 outs1 where
    s: "ch_step op ch = Inr (out, ch1)" "ch_run ops ch1 = Inr (outs1, ch')"
    by (auto simp: bind_res_Inr_conv)
  from ch_step_latest[OF Cons.prems(1) s(1)] have
    wf: "bc_wf (ch_shared ch1)" and
    l: "fst (bc_latest (ch_shared ch1)) = last (fst (bc_latest (ch_shared ch)) # ch_sent [op])" by auto
  have "ch_sent (op # ops) = ch_sent [op] @ ch_sent ops"
    using ch_sent_append[of "[op]" ops] by simp
  with Cons.IH[OF wf s(2)] l show ?case by (auto simp: last_append)
qed

lemma ch_new_wf: "bc_wf (ch_shared (ch_new v))" "fst (bc_latest (ch_shared (ch_new v))) = v"
proof -
  have "tb_flags (bc_buffer (ch_shared (ch_new v))) = flag_byte Zero False"
    by (simp add: ch_new_def sn_with_lock_def bc_new_def tb_new_def flags_init_byte Let_def)
  then show "bc_wf (ch_shared (ch_new v))" "fst (bc_latest (ch_shared (ch_new v))) = v"
    by (auto simp: bc_wf_flags bc_latest_flags)
      (simp add: ch_new_def sn_with_lock_def bc_new_def tb_new_def idx_default_def Let_def)
qed

section \<open>Properties\<close>

text \<open>
  Used by one operation at a time, a channel never panics on its internal assertion, and
  whatever was sent and received before: \<open>last\<close> returns the value sent last (the initial value if none
  was); \<open>recv\<close> returns nothing or that value, and returns nothing when repeated without a send.
\<close>

theorem channel_reads_latest:
  assumes "ch_run ops (ch_new initial) = Inr (outs, ch)"
  shows "\<exists>x r1 r2 r3 b. rc_last r (ch_shared ch) = Inr (last (initial # ch_sent ops), r1, b) \<and>
    rc_recv r (ch_shared ch) = Inr (x, r2, b) \<and> (x = None \<or> x = Some (last (initial # ch_sent ops))) \<and>
    (\<exists>b'. rc_recv r2 b = Inr (None, r3, b'))"
proof -
  from ch_run_latest[OF ch_new_wf(1) assms]
  have wf: "bc_wf (ch_shared ch)" and l: "fst (bc_latest (ch_shared ch)) = last (initial # ch_sent ops)"
    by (simp_all add: ch_new_wf)
  show ?thesis
    using l rc_recv_latest[OF wf] rc_recv_latest(1)[of "bc_fetch (ch_shared ch)"] bc_fetch_latest[OF wf]
    by (auto simp: not_less)
qed

theorem channel_reads_latest_witness:
  "\<exists>outs ch r1 b. ch_run [Ch_Subscribe, Ch_Send 4, Ch_Recv 0, Ch_Send (5::nat)] (ch_new 3) = Inr (outs, ch) \<and>
    rc_last \<lparr>rc_version = 1\<rparr> (ch_shared ch) = Inr (5, r1, b)"
proof -
  obtain outs ch where run: "ch_run [Ch_Subscribe, Ch_Send 4, Ch_Recv 0, Ch_Send (5::nat)] (ch_new 3) = Inr (outs, ch)"
    by (simp add: ch_new_def sn_with_lock_def bc_new_def idx_default_def tb_new_def flags_init_byte Let_def
        sn_receiver_def sn_send_def bc_send_def bc_write_def tb_get_unchecked_def u64_add_def
        tb_publish_flags tb_update_def rc_recv_def bc_recv_def bc_read_def tb_consumed_flags tb_consume_flags
        bc_visit_def)
  from channel_reads_latest[OF run, of "\<lparr>rc_version = 1\<rparr>"] run show ?thesis by auto
qed

text \<open>
  \<open>write\<close> adds the sender's counter to the version of the slot instead of storing it, so
  versions do not grow from one publication to the next. From a fresh channel, for any values: after
  three sends, each followed by a \<open>recv\<close> of the same receiver, the third \<open>recv\<close> returns nothing although
  the value was sent, while \<open>last\<close> returns it.
\<close>

theorem recv_misses_third_send:
  "\<exists>ch. ch_run [Ch_Subscribe, Ch_Send a, Ch_Recv 0, Ch_Send b, Ch_Recv 0, Ch_Send c, Ch_Recv 0, Ch_Last 0]
      (ch_new initial) = Inr ([Some a, Some b, None, Some c], ch)"
  by (simp add: ch_new_def sn_with_lock_def bc_new_def idx_default_def tb_new_def flags_init_byte Let_def
      sn_receiver_def sn_send_def bc_send_def bc_write_def tb_get_unchecked_def u64_add_def
      tb_publish_flags tb_update_def rc_recv_def bc_recv_def bc_read_def tb_consumed_flags tb_consume_flags
      bc_visit_def rc_last_def bc_last_def)

end
