(* ===== verification/Broad_Race.thy ===== *)
theory Broad_Race
  imports Broad
begin

text \<open>
  \<open>Broadcast::read\<close> and \<open>Broadcast::write\<close> of \<open>src/src/broad.rs\<close> run concurrently: one sender and any
  number of receivers on one channel, interleaved at their accesses to the flag byte, to the lock and
  to the elements.

  A receiver is at a place in \<open>read\<close> (\<open>br_pc\<close>); it is in one of the two \<open>Visit\<close> places while the
  closure has a reference to the consumer's element. The lock lets a reader in when nobody holds it for
  writing and a writer in when nobody holds it (\<open>Broad_Lock\<close> has the lock itself). The sender's
  \<open>write\<close> is any number of writes to the producer's element (what the closure and the two counter
  updates do to it) followed by \<open>publish\<close>.
\<close>

section \<open>The system\<close>

datatype br_pc =
    Br_Idle          \<comment> \<open>before \<open>consumed()\<close>\<close>
  | Br_Want_Write    \<comment> \<open>before \<open>consumer.write()\<close>\<close>
  | Br_Check         \<comment> \<open>holds the write lock, before the second \<open>consumed()\<close>\<close>
  | Br_Consume       \<comment> \<open>holds the write lock, before \<open>consume\<close>\<close>
  | Br_Visit_Write   \<comment> \<open>holds the write lock and the element\<close>
  | Br_Want_Read     \<comment> \<open>before \<open>consumer.read()\<close>\<close>
  | Br_Visit_Read    \<comment> \<open>holds the read lock and the element\<close>

text \<open>The next access of a receiver.\<close>

fun br_reader :: "br_pc \<Rightarrow> 'a broadcast \<Rightarrow> (br_pc \<times> 'a broadcast) res" where
  "br_reader Br_Idle b = Inr (if \<not> tb_consumed (bc_buffer b) then Br_Want_Write else Br_Want_Read, b)"
| "br_reader Br_Want_Write b = Inr (Br_Check, b)"
| "br_reader Br_Check b = Inr (if \<not> tb_consumed (bc_buffer b) then Br_Consume else Br_Visit_Write, b)"
| "br_reader Br_Consume b =
     bind_res (tb_consume (bc_consumer b) (bc_buffer b)) (\<lambda>((new_consumer, published), tb).
       if \<not> published then Inl Debug_assert
       else Inr (Br_Visit_Write, b\<lparr>bc_buffer := tb, bc_consumer := new_consumer\<rparr>))"
| "br_reader Br_Visit_Write b = Inr (Br_Idle, b)"
| "br_reader Br_Want_Read b = Inr (Br_Visit_Read, b)"
| "br_reader Br_Visit_Read b = Inr (Br_Idle, b)"

definition br_write_locked :: "br_pc \<Rightarrow> bool" where
  "br_write_locked pc \<longleftrightarrow> pc = Br_Check \<or> pc = Br_Consume \<or> pc = Br_Visit_Write"

definition br_read_locked :: "br_pc \<Rightarrow> bool" where
  "br_read_locked pc \<longleftrightarrow> pc = Br_Visit_Read"

definition br_visits :: "br_pc \<Rightarrow> bool" where
  "br_visits pc \<longleftrightarrow> pc = Br_Visit_Write \<or> pc = Br_Visit_Read"

text \<open>Whether the lock lets a receiver go on, given where the receivers are.\<close>

definition br_lock_free :: "br_pc \<Rightarrow> br_pc list \<Rightarrow> bool" where
  "br_lock_free pc pcs \<longleftrightarrow>
     (pc = Br_Want_Write \<longrightarrow> (\<forall>q \<in> set pcs. \<not> br_write_locked q \<and> \<not> br_read_locked q)) \<and>
     (pc = Br_Want_Read \<longrightarrow> (\<forall>q \<in> set pcs. \<not> br_write_locked q))"

record 'a br_system =
  br_shared :: "'a broadcast"
  br_producer :: idx
  br_pcs :: "br_pc list"

text \<open>A channel as \<open>Broadcast::new\<close> makes it, and one whose three indices are different.\<close>

definition br_init_new :: "'a \<Rightarrow> 'a br_system \<Rightarrow> bool" where
  "br_init_new v s \<longleftrightarrow> (case bc_new v of (b, version, producer) \<Rightarrow> br_shared s = b \<and> br_producer s = producer) \<and>
     set (br_pcs s) \<subseteq> {Br_Idle}"

definition br_init_distinct :: "'a br_system \<Rightarrow> bool" where
  "br_init_distinct s \<longleftrightarrow> (\<exists>i. tb_flags (bc_buffer (br_shared s)) = flag_byte i False \<and>
     distinct [i, br_producer s, bc_consumer (br_shared s)]) \<and> set (br_pcs s) \<subseteq> {Br_Idle}"

inductive br_step :: "'a br_system \<Rightarrow> 'a br_system \<Rightarrow> bool" where
  sender_writes:
    "br_step s (s\<lparr>br_shared := (br_shared s)\<lparr>bc_buffer := tb_update (br_producer s) f (bc_buffer (br_shared s))\<rparr>\<rparr>)"
| sender_publishes:
    "tb_publish (br_producer s) (bc_buffer (br_shared s)) = Inr ((p, consumed), tb) \<Longrightarrow>
     br_step s (s\<lparr>br_shared := (br_shared s)\<lparr>bc_buffer := tb\<rparr>, br_producer := p\<rparr>)"
| receiver_steps:
    "i < length (br_pcs s) \<Longrightarrow> br_lock_free (br_pcs s ! i) (br_pcs s) \<Longrightarrow>
     br_reader (br_pcs s ! i) (br_shared s) = Inr (pc, b) \<Longrightarrow>
     br_step s (s\<lparr>br_shared := b, br_pcs := (br_pcs s)[i := pc]\<rparr>)"

inductive_cases br_step_cases: "br_step s t"

section \<open>Different indices stay different\<close>

text \<open>The lock: at most one writer, and no reader beside it.\<close>

definition br_lock_ok :: "br_pc list \<Rightarrow> bool" where
  "br_lock_ok pcs \<longleftrightarrow> (\<forall>i < length pcs. \<forall>j < length pcs. br_write_locked (pcs ! i) \<longrightarrow>
     br_write_locked (pcs ! j) \<or> br_read_locked (pcs ! j) \<longrightarrow> i = j)"

definition br_inv :: "'a br_system \<Rightarrow> bool" where
  "br_inv s \<longleftrightarrow> br_lock_ok (br_pcs s) \<and>
     (\<exists>i full. tb_flags (bc_buffer (br_shared s)) = flag_byte i full \<and>
       distinct [i, br_producer s, bc_consumer (br_shared s)] \<and>
       (Br_Consume \<in> set (br_pcs s) \<longrightarrow> full))"

lemma br_lock_okD:
  "br_lock_ok pcs \<Longrightarrow> i < length pcs \<Longrightarrow> j < length pcs \<Longrightarrow> br_write_locked (pcs ! i) \<Longrightarrow>
    br_write_locked (pcs ! j) \<or> br_read_locked (pcs ! j) \<Longrightarrow> i = j"
  unfolding br_lock_ok_def by blast

lemma br_lock_ok_update:
  assumes ok: "br_lock_ok pcs" and i: "i < length pcs" and free: "br_lock_free (pcs ! i) pcs"
    and w: "br_write_locked pc \<Longrightarrow> br_write_locked (pcs ! i) \<or> pcs ! i = Br_Want_Write"
    and r: "br_read_locked pc \<Longrightarrow> pcs ! i = Br_Want_Read"
  shows "br_lock_ok (pcs[i := pc])"
proof -
  have other: "\<not> br_write_locked (pcs ! j) \<and> \<not> br_read_locked (pcs ! j)"
    if "br_write_locked pc" "j < length pcs" "j \<noteq> i" for j
    using w[OF that(1)] br_lock_okD[OF ok i that(2)] free that(2,3) by (auto simp: br_lock_free_def)
  have reader: "\<not> br_write_locked (pcs ! j)" if "br_read_locked pc" "j < length pcs" for j
    using that free r[OF that(1)] by (auto simp: br_lock_free_def)
  have "a = b" if ab: "a < length pcs" "b < length pcs"
    and locked: "br_write_locked (pcs[i := pc] ! a)" "br_write_locked (pcs[i := pc] ! b) \<or> br_read_locked (pcs[i := pc] ! b)"
    for a b
  proof (rule ccontr)
    assume ne: "a \<noteq> b"
    consider "a = i" "b \<noteq> i" | "b = i" "a \<noteq> i" | "a \<noteq> i" "b \<noteq> i" using ne by blast
    then show False
    proof cases
      case 1
      with other[OF _ ab(2)] locked i show False by simp
    next
      case 2
      with other[OF _ ab(1)] reader[OF _ ab(1)] locked i show False by auto
    next
      case 3
      with br_lock_okD[OF ok ab] locked ne show False by simp
    qed
  qed
  then show ?thesis unfolding br_lock_ok_def by simp
qed

lemma br_inv_init: "br_init_distinct s \<Longrightarrow> br_inv s"
proof -
  assume s: "br_init_distinct s"
  then have "set (br_pcs s) \<subseteq> {Br_Idle}" by (simp add: br_init_distinct_def)
  then have "br_lock_ok (br_pcs s)" "Br_Consume \<notin> set (br_pcs s)"
    by (auto simp: br_lock_ok_def br_write_locked_def dest!: nth_mem)
  with s show ?thesis unfolding br_inv_def br_init_distinct_def by blast
qed

text \<open>While one receiver is about to consume, it holds the write lock, so no other consumes.\<close>

lemma br_consume_alone:
  assumes "br_lock_ok pcs" and "i < length pcs" and "br_write_locked (pcs ! i)" and "Br_Consume \<in> set (pcs[i := pc])"
  shows "pc = Br_Consume"
proof (rule ccontr)
  assume "pc \<noteq> Br_Consume"
  with assms(2,4) obtain j where "j < length pcs" "pcs ! j = Br_Consume" "j \<noteq> i"
    by (auto simp: in_set_conv_nth nth_list_update split: if_splits)
  with br_lock_okD[OF assms(1,2) _ assms(3), of j] show False by (simp add: br_write_locked_def)
qed

lemma br_reader_inv:
  assumes inv: "br_inv s" and i: "i < length (br_pcs s)" and free: "br_lock_free (br_pcs s ! i) (br_pcs s)"
    and step: "br_reader (br_pcs s ! i) (br_shared s) = Inr (pc, b)"
  shows "br_inv (s\<lparr>br_shared := b, br_pcs := (br_pcs s)[i := pc]\<rparr>)"
proof -
  obtain k full where fl: "tb_flags (bc_buffer (br_shared s)) = flag_byte k full" and
    d: "distinct [k, br_producer s, bc_consumer (br_shared s)]" and f: "Br_Consume \<in> set (br_pcs s) \<Longrightarrow> full"
    using inv unfolding br_inv_def by blast
  have lock: "br_lock_ok (br_pcs s)" using inv by (simp add: br_inv_def)
  have "br_lock_ok ((br_pcs s)[i := pc])"
    using br_lock_ok_update[OF lock i free, of pc] step
    by (cases "br_pcs s ! i") (auto simp: br_write_locked_def br_read_locked_def bind_res_Inr_conv split: if_splits)
  moreover have "\<exists>k full. tb_flags (bc_buffer b) = flag_byte k full \<and>
      distinct [k, br_producer s, bc_consumer b] \<and> (Br_Consume \<in> set ((br_pcs s)[i := pc]) \<longrightarrow> full)"
  proof (cases "br_pcs s ! i = Br_Consume")
    case True
    then have "full" using f i nth_mem by metis
    with True step fl have b: "pc = Br_Visit_Write" "bc_consumer b = k"
      "tb_flags (bc_buffer b) = flag_byte (bc_consumer (br_shared s)) False"
      by (auto simp: tb_consume_flags)
    have "Br_Consume \<notin> set ((br_pcs s)[i := pc])"
      using br_consume_alone[OF lock i, of pc] True b(1) by (auto simp: br_write_locked_def)
    with b d show ?thesis by auto
  next
    case False
    with step have "b = br_shared s" by (cases "br_pcs s ! i") auto
    moreover have "Br_Consume \<in> set ((br_pcs s)[i := pc]) \<longrightarrow> full"
    proof
      assume c: "Br_Consume \<in> set ((br_pcs s)[i := pc])"
      show full
      proof (cases "pc = Br_Consume")
        case True
        with step False fl show ?thesis
          by (cases "br_pcs s ! i") (auto simp: tb_consumed_flags split: if_splits)
      next
        case False
        with c f set_update_subset_insert[of "br_pcs s" i pc] show ?thesis by auto
      qed
    qed
    ultimately show ?thesis using fl d by blast
  qed
  ultimately show ?thesis by (simp add: br_inv_def)
qed

lemma br_inv_step: "br_step s t \<Longrightarrow> br_inv s \<Longrightarrow> br_inv t"
proof (erule br_step_cases)
  fix f
  assume "br_inv s"
    and "t = s\<lparr>br_shared := (br_shared s)\<lparr>bc_buffer := tb_update (br_producer s) f (bc_buffer (br_shared s))\<rparr>\<rparr>"
  then show "br_inv t" by (simp add: br_inv_def)
next
  fix p consumed tb
  assume inv: "br_inv s" and pub: "tb_publish (br_producer s) (bc_buffer (br_shared s)) = Inr ((p, consumed), tb)"
    and t: "t = s\<lparr>br_shared := (br_shared s)\<lparr>bc_buffer := tb\<rparr>, br_producer := p\<rparr>"
  obtain k full where fl: "tb_flags (bc_buffer (br_shared s)) = flag_byte k full" and
    d: "distinct [k, br_producer s, bc_consumer (br_shared s)]"
    using inv unfolding br_inv_def by blast
  from pub tb_publish_flags[OF fl] have "p = k" "tb_flags tb = flag_byte (br_producer s) True" by auto
  with inv d show "br_inv t" by (auto simp: br_inv_def t)
qed (auto intro: br_reader_inv)

interpretation br_sys: transition_system br_init_distinct br_step br_inv
  by unfold_locales (auto intro: br_inv_init br_inv_step)

section \<open>Properties\<close>

text \<open>
  When the three indices of a channel start out different, the sender's slot is never the slot
  the receivers read, in any interleaving; no receiver fails the assertion that the pending element it
  consumes was published; and neither side reads a flag byte that is not an index.
\<close>

theorem broadcast_race_free:
  assumes "reachable br_init_distinct br_step s"
  shows "br_producer s \<noteq> bc_consumer (br_shared s) \<and>
    (\<forall>i < length (br_pcs s). \<exists>r. br_reader (br_pcs s ! i) (br_shared s) = Inr r) \<and>
    (\<exists>r. tb_publish (br_producer s) (bc_buffer (br_shared s)) = Inr r)"
proof -
  obtain k full where fl: "tb_flags (bc_buffer (br_shared s)) = flag_byte k full" and
    d: "distinct [k, br_producer s, bc_consumer (br_shared s)]" and f: "Br_Consume \<in> set (br_pcs s) \<Longrightarrow> full"
    using br_sys.reachable_inv[OF assms] unfolding br_inv_def by blast
  have "\<exists>r. br_reader (br_pcs s ! i) (br_shared s) = Inr r" if i: "i < length (br_pcs s)" for i
  proof (cases "br_pcs s ! i = Br_Consume")
    case True
    with f i have full by (metis nth_mem)
    with True fl show ?thesis by (simp add: tb_consume_flags)
  next
    case False
    then show ?thesis by (cases "br_pcs s ! i") auto
  qed
  with d tb_publish_flags[OF fl] show ?thesis by auto
qed

text \<open>A receiver about to consume what the sender has published.\<close>

definition br_distinct_start :: "nat br_system" where
  "br_distinct_start = \<lparr>br_shared = \<lparr>bc_buffer = tb_new (1, 0) (1, 0) (1, 0), bc_consumer = Two\<rparr>,
     br_producer = One, br_pcs = [Br_Idle, Br_Idle]\<rparr>"

definition br_visiting :: "nat br_system" where
  "br_visiting = br_distinct_start\<lparr>br_pcs := [Br_Visit_Read, Br_Idle]\<rparr>"

lemma br_visiting_reachable: "reachable br_init_distinct br_step br_visiting"
proof -
  let ?s = "br_distinct_start\<lparr>br_pcs := [Br_Want_Read, Br_Idle]\<rparr>"
  have fl: "tb_flags (bc_buffer (br_shared br_distinct_start)) = flag_byte Zero False"
    by (simp add: br_distinct_start_def tb_new_def flags_init_byte)
  have "reachable br_init_distinct br_step br_distinct_start"
    using fl by (intro reach_init) (auto simp: br_init_distinct_def br_distinct_start_def intro!: exI[of _ Zero])
  moreover have "br_step br_distinct_start ?s"
    using receiver_steps[of 0 br_distinct_start Br_Want_Read "br_shared br_distinct_start"] tb_consumed_flags[OF fl]
    by (simp add: br_distinct_start_def br_lock_free_def)
  moreover have "br_step ?s br_visiting"
    using receiver_steps[of 0 ?s Br_Visit_Read "br_shared br_distinct_start"]
    by (simp add: br_visiting_def br_distinct_start_def br_lock_free_def br_write_locked_def)
  ultimately show ?thesis by (blast intro: reach_step)
qed

theorem broadcast_race_free_witness: "br_producer br_visiting \<noteq> bc_consumer (br_shared br_visiting)"
  using broadcast_race_free[OF br_visiting_reachable] by blast

text \<open>
  Then a receiver's closure sees a stable value: no step of the sender or of another receiver
  moves the consumer index or changes the element while a receiver holds a reference to it.
\<close>

theorem visited_element_is_stable:
  assumes reach: "reachable br_init_distinct br_step s" and step: "br_step s t" and i: "i < length (br_pcs s)"
    and visits: "br_visits (br_pcs s ! i)" "br_visits (br_pcs t ! i)"
  shows "bc_consumer (br_shared t) = bc_consumer (br_shared s) \<and>
    tb_elements (bc_buffer (br_shared t)) (bc_consumer (br_shared t)) =
      tb_elements (bc_buffer (br_shared s)) (bc_consumer (br_shared s))"
proof -
  have lock: "br_lock_ok (br_pcs s)" and ne: "br_producer s \<noteq> bc_consumer (br_shared s)"
    using br_sys.reachable_inv[OF reach] by (auto simp: br_inv_def)
  show ?thesis
  proof (rule br_step_cases[OF step])
    fix f
    assume "t = s\<lparr>br_shared := (br_shared s)\<lparr>bc_buffer := tb_update (br_producer s) f (bc_buffer (br_shared s))\<rparr>\<rparr>"
    with ne show ?thesis by (simp add: tb_update_def)
  next
    fix p consumed tb
    assume pub: "tb_publish (br_producer s) (bc_buffer (br_shared s)) = Inr ((p, consumed), tb)"
      and t: "t = s\<lparr>br_shared := (br_shared s)\<lparr>bc_buffer := tb\<rparr>, br_producer := p\<rparr>"
    from pub have "tb_elements tb = tb_elements (bc_buffer (br_shared s))"
      by (auto simp: tb_publish_def Let_def bind_res_Inr_conv)
    with t show ?thesis by simp
  next
    fix j pc b
    assume t: "t = s\<lparr>br_shared := b, br_pcs := (br_pcs s)[j := pc]\<rparr>" and j: "j < length (br_pcs s)"
      and rd: "br_reader (br_pcs s ! j) (br_shared s) = Inr (pc, b)"
    have "br_pcs s ! j \<noteq> Br_Consume"
    proof
      assume c: "br_pcs s ! j = Br_Consume"
      with visits(1) br_lock_okD[OF lock j i] have "j = i"
        by (auto simp: br_visits_def br_write_locked_def br_read_locked_def)
      with c visits(1) show False by (simp add: br_visits_def)
    qed
    with rd have "b = br_shared s" by (cases "br_pcs s ! j") auto
    with t show ?thesis by simp
  qed
qed

theorem visited_element_is_stable_witness:
  "\<exists>t. br_step br_visiting t \<and> tb_elements (bc_buffer (br_shared t)) One = (9, 9) \<and>
    tb_elements (bc_buffer (br_shared t)) (bc_consumer (br_shared t)) = (1, 0)"
proof -
  let ?t = "br_visiting\<lparr>br_shared := (br_shared br_visiting)\<lparr>bc_buffer := tb_update (br_producer br_visiting)
    (\<lambda>_. (9, 9)) (bc_buffer (br_shared br_visiting))\<rparr>\<rparr>"
  have step: "br_step br_visiting ?t" by (rule sender_writes)
  have "tb_elements (bc_buffer (br_shared ?t)) (bc_consumer (br_shared ?t)) = (1, 0)"
    using visited_element_is_stable[OF br_visiting_reachable step, of 0]
    by (simp add: br_visiting_def br_distinct_start_def br_visits_def tb_new_def)
  moreover have "tb_elements (bc_buffer (br_shared ?t)) One = (9, 9)"
    by (simp add: br_visiting_def br_distinct_start_def tb_update_def)
  ultimately show ?thesis using step by blast
qed

text \<open>
  Claim C23. \<open>Broadcast::new\<close> does not make the three indices different: the producer starts at the pending
  slot. On a new channel, after one publication a receiver can hold a reference to the very slot the
  sender writes next: a data race, in which the element changes under the receiver's closure.
\<close>

theorem broadcast_new_races:
  "\<exists>s t. reachable (br_init_new v) br_step s \<and> br_step s t \<and>
    br_pcs s ! 0 = Br_Visit_Write \<and> br_pcs t ! 0 = Br_Visit_Write \<and>
    tb_elements (bc_buffer (br_shared s)) (bc_consumer (br_shared s)) = (a, 1) \<and>
    tb_elements (bc_buffer (br_shared t)) (bc_consumer (br_shared t)) = (b, 3)"
proof -
  let ?sys = "\<lambda>e full c pcs. \<lparr>br_shared = \<lparr>bc_buffer = \<lparr>tb_elements = e, tb_flags = flag_byte (if c = Zero then One else Zero) full\<rparr>,
    bc_consumer = c\<rparr>, br_producer = Zero, br_pcs = pcs\<rparr>"
  let ?e0 = "\<lambda>i. case i of Zero \<Rightarrow> (v, 0) | One \<Rightarrow> (v, 0) | Two \<Rightarrow> (v, 0::u64)"
  let ?e1 = "?e0(Zero := (a, 1))" and ?e2 = "?e0(Zero := (b, 3))"
  have init: "br_init_new v (?sys ?e0 False One [Br_Idle])"
    by (simp add: br_init_new_def bc_new_def idx_default_def tb_new_def flags_init_byte Let_def)
  have s1: "br_step (?sys ?e0 False One [Br_Idle]) (?sys ?e1 False One [Br_Idle])"
    using sender_writes[of "?sys ?e0 False One [Br_Idle]" "\<lambda>_. (a, 1)"] by (simp add: tb_update_def)
  have s2: "br_step (?sys ?e1 False One [Br_Idle]) (?sys ?e1 True One [Br_Idle])"
    using sender_publishes[of "?sys ?e1 False One [Br_Idle]" Zero True] by (simp add: tb_publish_flags)
  have s3: "br_step (?sys ?e1 True One [Br_Idle]) (?sys ?e1 True One [Br_Want_Write])"
    using receiver_steps[of 0 "?sys ?e1 True One [Br_Idle]"] by (simp add: br_lock_free_def tb_consumed_flags)
  have s4: "br_step (?sys ?e1 True One [Br_Want_Write]) (?sys ?e1 True One [Br_Check])"
    using receiver_steps[of 0 "?sys ?e1 True One [Br_Want_Write]"]
    by (simp add: br_lock_free_def br_write_locked_def br_read_locked_def)
  have s5: "br_step (?sys ?e1 True One [Br_Check]) (?sys ?e1 True One [Br_Consume])"
    using receiver_steps[of 0 "?sys ?e1 True One [Br_Check]"] by (simp add: br_lock_free_def tb_consumed_flags)
  have s6: "br_step (?sys ?e1 True One [Br_Consume]) (?sys ?e1 False Zero [Br_Visit_Write])"
    using receiver_steps[of 0 "?sys ?e1 True One [Br_Consume]"] by (simp add: br_lock_free_def tb_consume_flags)
  have "reachable (br_init_new v) br_step (?sys ?e1 False Zero [Br_Visit_Write])"
    by (rule reach_step[OF reach_step[OF reach_step[OF reach_step[OF reach_step[OF reach_step[OF
      reach_init[of "br_init_new v" _ br_step, OF init] s1] s2] s3] s4] s5] s6])
  moreover have "br_step (?sys ?e1 False Zero [Br_Visit_Write]) (?sys ?e2 False Zero [Br_Visit_Write])"
    using sender_writes[of "?sys ?e1 False Zero [Br_Visit_Write]" "\<lambda>_. (b, 3)"] by (simp add: tb_update_def)
  ultimately show ?thesis
    by (intro exI[of _ "?sys ?e1 False Zero [Br_Visit_Write]"] exI[of _ "?sys ?e2 False Zero [Br_Visit_Write]"]) simp
qed

end
