(* ===== verification/Lock_Api.thy ===== *)
theory Lock_Api
  imports Amity_Prelude
begin

text \<open>
  What the queues of this library need of their lock parameter \<open>L: lock_api::RawRwLock\<close> and of the
  guards of \<open>lock_api::RwLock\<close>. The crate \<open>lock_api\<close> is not part of the repository; its \<open>read()\<close> calls
  \<open>lock_shared\<close> and \<open>write()\<close> calls \<open>lock_exclusive\<close>, which block, a guard exists from their return
  until it is dropped, and dropping it calls the unlock method of its mode.

  A lock is given by a state with numbered threads and the steps of a thread; \<open>Rw_Spin\<close> and
  \<open>Raw_Rw_Lock\<close> give the two locks of the library in this form and prove the contract.
\<close>

section \<open>The operations\<close>

datatype lock_mode = Lk_Read | Lk_Write

lemma not_lk_read [simp]: "m \<noteq> Lk_Read \<longleftrightarrow> m = Lk_Write"
  by (cases m) simp_all

record 'l raw_lock =
  lk_init :: "'l \<Rightarrow> bool"
  lk_call :: "lock_mode \<Rightarrow> nat \<Rightarrow> 'l \<Rightarrow> 'l \<Rightarrow> bool"     \<comment> \<open>the thread calls the blocking lock method\<close>
  lk_run :: "nat \<Rightarrow> 'l \<Rightarrow> 'l \<Rightarrow> bool"                    \<comment> \<open>the next access of the call it is in\<close>
  lk_unlock :: "lock_mode \<Rightarrow> nat \<Rightarrow> 'l \<Rightarrow> 'l \<Rightarrow> bool"   \<comment> \<open>it calls the unlock method\<close>
  lk_guard :: "lock_mode \<Rightarrow> nat \<Rightarrow> 'l \<Rightarrow> bool"          \<comment> \<open>its lock method has returned\<close>
  lk_idle :: "nat \<Rightarrow> 'l \<Rightarrow> bool"                         \<comment> \<open>it is in no call and holds no lock\<close>

definition lk_thread :: "'l raw_lock \<Rightarrow> nat \<Rightarrow> 'l \<Rightarrow> 'l \<Rightarrow> bool" where
  "lk_thread L i l l' \<longleftrightarrow> lk_run L i l l' \<or> (\<exists>m. lk_call L m i l l' \<or> lk_unlock L m i l l')"

definition lk_step :: "'l raw_lock \<Rightarrow> 'l \<Rightarrow> 'l \<Rightarrow> bool" where
  "lk_step L l l' \<longleftrightarrow> (\<exists>i. lk_thread L i l l')"

lemma lk_threadI:
  "lk_call L m i l l' \<Longrightarrow> lk_thread L i l l'"
  "lk_run L i l l' \<Longrightarrow> lk_thread L i l l'"
  "lk_unlock L m i l l' \<Longrightarrow> lk_thread L i l l'"
  by (auto simp: lk_thread_def)

lemma lk_stepI: "lk_thread L i l l' \<Longrightarrow> lk_step L l l'"
  by (auto simp: lk_step_def)

section \<open>The contract\<close>

text \<open>
  A write guard excludes every guard of another thread, and a thread does not change the guards of the
  others.
\<close>

locale rw_lock_contract = transition_system "lk_init L" "lk_step L" lock_inv
  for L :: "'l raw_lock" and lock_inv +
  assumes write_guard_alone: "lock_inv l \<Longrightarrow> lk_guard L Lk_Write i l \<Longrightarrow> lk_guard L m j l \<Longrightarrow> i = j"
    and guard_frame: "lk_thread L i l l' \<Longrightarrow> j \<noteq> i \<Longrightarrow> lk_guard L m j l' = lk_guard L m j l"

text \<open>The guards that the threads of a client take to have are there.\<close>

definition lk_held :: "'l raw_lock \<Rightarrow> 'l \<Rightarrow> lock_mode option list \<Rightarrow> bool" where
  "lk_held L l guards \<longleftrightarrow> (\<forall>i < length guards. \<forall>m. guards ! i = Some m \<longrightarrow> lk_guard L m i l)"

lemma lk_held_update:
  "lk_held L l guards \<Longrightarrow> (\<And>m. g = Some m \<Longrightarrow> lk_guard L m i l) \<Longrightarrow> lk_held L l (guards[i := g])"
  unfolding lk_held_def by (metis length_list_update nth_list_update_eq nth_list_update_neq)

context rw_lock_contract begin

lemma lk_held_step:
  assumes "lk_held L l guards" and "lk_thread L i l l'"
  shows "lk_held L l' (guards[i := None])"
  unfolding lk_held_def
proof (intro allI impI)
  fix j m
  assume j: "j < length (guards[i := None])" "guards[i := None] ! j = Some m"
  then have "j \<noteq> i" "guards ! j = Some m" by (cases "j = i"; simp)+
  with assms(1) j(1) guard_frame[OF assms(2)] show "lk_guard L m j l'" by (simp add: lk_held_def)
qed

lemma lk_held_alone:
  assumes "lock_inv l" and "lk_held L l guards" and "i < length guards" and "j < length guards"
    and "guards ! i = Some Lk_Write" and "guards ! j \<noteq> None"
  shows "i = j"
  using assms write_guard_alone[OF assms(1)] unfolding lk_held_def by blast

end

sublocale rw_lock_contract \<subseteq> exclusion_system "lk_init L" "lk_step L" lock_inv
  "\<lambda>l i. lk_guard L Lk_Write i l" "\<lambda>l i. \<exists>m. lk_guard L m i l"
  by unfold_locales (auto dest: write_guard_alone)

end
