(* ===== verification/Rw_Spin.thy ===== *)
theory Rw_Spin
  imports Backoff Lock_Api
begin

text \<open>
  The read-write spin lock \<open>RawRwSpin\<close> of \<open>src/src/spin.rs\<close>: the atomic word, and any number of
  threads that call the operations, interleaved at the atomic accesses.

  A thread is where its call has got to, that is, the next atomic access it makes together with the
  local variables that are still live (\<open>rw_pc\<close>); what it computes between two accesses is a
  function from the value read to the next place. A thread that holds several guards or runs several
  calls counts as several. The answers of the closure \<open>cond\<close> and the spurious failures of
  \<open>compare_exchange_weak\<close> are inputs of the step, so every schedule and every closure is covered.
  \<open>blocking\<close> marks the calls made by \<open>lock_shared\<close> and \<open>lock_exclusive\<close>, whose closure is constantly
  true and which assert the result. \<open>dbg\<close> says whether debug assertions are compiled. The steps
  are sequentially consistent; \<open>Spin_Order\<close> has the orderings. The lock_api implementation of \<open>RawRwLock\<close> forwards to these operations.
\<close>

section \<open>The word\<close>

definition shared_lock_threshold :: usize where
  "shared_lock_threshold = - 1 div 32 + 1"

definition exclusive_pending :: usize where
  "exclusive_pending = - 1 div 4 + 1"

definition exclusive_locked :: usize where
  "exclusive_locked = - 1 div 2 + 1"

definition rw_new :: usize where
  "rw_new = 0"

definition rw_is_locked_exclusive :: "usize \<Rightarrow> bool" where
  "rw_is_locked_exclusive lock \<longleftrightarrow> exclusive_locked \<le> lock"

definition rw_is_locked :: "usize \<Rightarrow> bool" where
  "rw_is_locked lock \<longleftrightarrow> 0 < lock"

definition fetch_add :: "usize \<Rightarrow> usize \<Rightarrow> usize \<times> usize" where
  "fetch_add v lock = (lock, lock + v)"

definition fetch_sub :: "usize \<Rightarrow> usize \<Rightarrow> usize \<times> usize" where
  "fetch_sub v lock = (lock, lock - v)"

text \<open>\<open>Inr\<close> is \<open>Ok\<close> and \<open>Inl\<close> is \<open>Err\<close>, both with the previous value.\<close>

definition compare_exchange :: "usize \<Rightarrow> usize \<Rightarrow> usize \<Rightarrow> (usize + usize) \<times> usize" where
  "compare_exchange expected v lock = (if lock = expected then (Inr lock, v) else (Inl lock, lock))"

definition compare_exchange_weak :: "bool \<Rightarrow> usize \<Rightarrow> usize \<Rightarrow> usize \<Rightarrow> (usize + usize) \<times> usize" where
  "compare_exchange_weak spurious expected v lock =
     (if lock = expected \<and> \<not> spurious then (Inr lock, v) else (Inl lock, lock))"

section \<open>The debug check\<close>

definition too_many_shared_locks :: "usize \<Rightarrow> fault" where
  "too_many_shared_locks count = Explicit_panic"

text \<open>
  The panic of \<open>locks_count_check\<close>, if it panics; the closure \<open>failure\<close> is called exactly then.
  The subtraction in the argument of \<open>too_many_shared_locks\<close> is checked.
\<close>

definition locks_count_check :: "usize \<Rightarrow> fault option" where
  "locks_count_check count =
     (if count < exclusive_pending then
        if count > shared_lock_threshold then Some (too_many_shared_locks count) else None
      else if count < exclusive_locked then
        if count > exclusive_pending + shared_lock_threshold
        then Some (case usize_sub (unat count) (unat exclusive_locked) of
               Inl e \<Rightarrow> e | Inr n \<Rightarrow> too_many_shared_locks (of_nat n))
        else None
      else
        if count > exclusive_locked + shared_lock_threshold
        then Some (case usize_sub (unat count) (unat exclusive_locked) of
               Inl e \<Rightarrow> e | Inr n \<Rightarrow> too_many_shared_locks (of_nat n))
        else None)"

section \<open>Threads\<close>

datatype rw_pc =
    Rw_Idle
  | Rw_Shared                          \<comment> \<open>holds a shared lock\<close>
  | Rw_Excl                            \<comment> \<open>holds the exclusive lock\<close>
  | Rw_Panicked fault
  | Check_Undo fault                   \<comment> \<open>the \<open>failure\<close> closure, before its \<open>fetch_sub\<close>\<close>
  | Try_Undo                           \<comment> \<open>\<open>try_lock_shared\<close> gives up, before its \<open>fetch_sub\<close>\<close>
  | Room_Sub bool back_off             \<comment> \<open>\<open>lock_shared_while\<close> gives room, before the \<open>fetch_sub\<close>\<close>
  | Room_Load bool back_off            \<comment> \<open>waiting for room, before the load\<close>
  | Room_Add bool back_off             \<comment> \<open>back to the queue, before the \<open>fetch_add\<close>\<close>
  | Queue_Load bool back_off           \<comment> \<open>waiting for the exclusive lock to go, before the load\<close>
  | Queue_Undo bool                    \<comment> \<open>\<open>cond\<close> said stop, before the \<open>fetch_sub\<close>\<close>
  | Excl_Cas bool bool back_off        \<comment> \<open>before \<open>compare_exchange_weak(expected, EXCLUSIVE_LOCKED)\<close>\<close>
  | Excl_Enqueue bool usize back_off   \<comment> \<open>before \<open>compare_exchange_weak(count, count + EXCLUSIVE_PENDING)\<close>\<close>
  | Excl_Leave bool                    \<comment> \<open>\<open>cond\<close> said stop in the queue, before the \<open>fetch_sub\<close>\<close>

text \<open>A call returns false; \<open>lock_shared\<close> and \<open>lock_exclusive\<close> assert that it does not.\<close>

definition rw_return_false :: "bool \<Rightarrow> rw_pc" where
  "rw_return_false blocking = (if blocking then Rw_Panicked Debug_assert else Rw_Idle)"

definition rw_checked :: "bool \<Rightarrow> usize \<Rightarrow> rw_pc \<Rightarrow> rw_pc" where
  "rw_checked dbg count pc =
     (if dbg then case locks_count_check count of Some e \<Rightarrow> Check_Undo e | None \<Rightarrow> pc else pc)"

definition rw_try_lock_shared :: "bool \<Rightarrow> usize \<Rightarrow> rw_pc \<times> usize" where
  "rw_try_lock_shared dbg lock =
     (case fetch_add 1 lock of (count, lock') \<Rightarrow>
        (rw_checked dbg count (if count < exclusive_pending then Rw_Shared else Try_Undo), lock'))"

text \<open>The body of the last loop of \<open>lock_shared_while\<close>, up to its next atomic access.\<close>

definition rw_queue :: "bool \<Rightarrow> bool \<Rightarrow> bool \<Rightarrow> bool \<Rightarrow> usize \<Rightarrow> back_off \<Rightarrow> rw_pc" where
  "rw_queue dbg std blocking cond count b =
     rw_checked dbg count
       (if count < exclusive_locked then Rw_Shared
        else if \<not> (blocking \<or> cond) then Queue_Undo blocking
        else Queue_Load blocking (snd (backoff_wait std b)))"

text \<open>The body of the loop in which \<open>lock_shared_while\<close> gives room to a queued exclusive lock.\<close>

definition rw_room :: "bool \<Rightarrow> bool \<Rightarrow> bool \<Rightarrow> bool \<Rightarrow> usize \<Rightarrow> back_off \<Rightarrow> rw_pc" where
  "rw_room dbg std blocking cond count b =
     (case (if dbg then locks_count_check count else None) of
        Some e \<Rightarrow> Rw_Panicked e
      | None \<Rightarrow>
          if \<not> (blocking \<or> cond) then rw_return_false blocking
          else if exclusive_locked \<le> count \<or> count < exclusive_pending then Room_Add blocking b
          else Room_Load blocking (snd (backoff_wait std b)))"

definition rw_lock_shared_start :: "bool \<Rightarrow> bool \<Rightarrow> bool \<Rightarrow> bool \<Rightarrow> usize \<Rightarrow> rw_pc \<times> usize" where
  "rw_lock_shared_start dbg std blocking cond lock =
     (case fetch_add 1 lock of (count, lock') \<Rightarrow>
        (rw_checked dbg count
           (if count < exclusive_pending then Rw_Shared
            else if count < exclusive_locked then Room_Sub blocking backoff_new
            else rw_queue dbg std blocking cond count backoff_new), lock'))"

text \<open>The further atomic accesses of \<open>lock_shared_while\<close>.\<close>

fun rw_shared_step :: "bool \<Rightarrow> bool \<Rightarrow> bool \<Rightarrow> rw_pc \<Rightarrow> usize \<Rightarrow> (rw_pc \<times> usize) option" where
  "rw_shared_step dbg std cond (Room_Sub blocking b) lock =
     (case fetch_sub 1 lock of (count, lock') \<Rightarrow> Some (rw_room dbg std blocking cond count b, lock'))"
| "rw_shared_step dbg std cond (Room_Load blocking b) lock =
     Some (rw_room dbg std blocking cond lock b, lock)"
| "rw_shared_step dbg std cond (Room_Add blocking b) lock =
     (case fetch_add 1 lock of (count, lock') \<Rightarrow> Some (rw_queue dbg std blocking cond count b, lock'))"
| "rw_shared_step dbg std cond (Queue_Load blocking b) lock =
     Some (rw_queue dbg std blocking cond lock b, lock)"
| "rw_shared_step dbg std cond (Queue_Undo blocking) lock =
     Some (rw_return_false blocking, snd (fetch_sub 1 lock))"
| "rw_shared_step dbg std cond Try_Undo lock = Some (Rw_Idle, snd (fetch_sub 1 lock))"
| "rw_shared_step dbg std cond (Check_Undo e) lock = Some (Rw_Panicked e, snd (fetch_sub 1 lock))"
| "rw_shared_step dbg std cond _ lock = None"

definition rw_try_lock_exclusive :: "usize \<Rightarrow> bool \<times> usize" where
  "rw_try_lock_exclusive lock =
     (case compare_exchange 0 exclusive_locked lock of (r, lock') \<Rightarrow> (case r of Inr _ \<Rightarrow> True | Inl _ \<Rightarrow> False, lock'))"

definition rw_excl_expected :: "bool \<Rightarrow> usize" where
  "rw_excl_expected in_queue = (if in_queue then exclusive_pending else 0)"

text \<open>The end of the \<open>Err\<close> branch of \<open>lock_exclusive_while\<close>: wait unless the failure was spurious.\<close>

definition rw_excl_retry :: "bool \<Rightarrow> bool \<Rightarrow> bool \<Rightarrow> usize \<Rightarrow> back_off \<Rightarrow> rw_pc" where
  "rw_excl_retry std blocking in_queue count b =
     (let expected = rw_excl_expected in_queue
      in Excl_Cas blocking in_queue (if count \<noteq> expected then snd (backoff_wait std b) else b))"

definition rw_excl_failed :: "bool \<Rightarrow> bool \<Rightarrow> bool \<Rightarrow> bool \<Rightarrow> usize \<Rightarrow> back_off \<Rightarrow> rw_pc" where
  "rw_excl_failed std blocking cond in_queue count b =
     (if \<not> (blocking \<or> cond) then
        if in_queue then Excl_Leave blocking else rw_return_false blocking
      else if \<not> in_queue \<and> count > 0 \<and> count < exclusive_pending then Excl_Enqueue blocking count b
      else rw_excl_retry std blocking in_queue count b)"

text \<open>The atomic accesses of \<open>lock_exclusive_while\<close>.\<close>

fun rw_excl_step :: "bool \<Rightarrow> bool \<Rightarrow> bool \<Rightarrow> rw_pc \<Rightarrow> usize \<Rightarrow> (rw_pc \<times> usize) option" where
  "rw_excl_step std cond spurious (Excl_Cas blocking in_queue b) lock =
     (case compare_exchange_weak spurious (rw_excl_expected in_queue) exclusive_locked lock of
        (Inr _, lock') \<Rightarrow> Some (Rw_Excl, lock')
      | (Inl count, lock') \<Rightarrow> Some (rw_excl_failed std blocking cond in_queue count b, lock'))"
| "rw_excl_step std cond spurious (Excl_Enqueue blocking count b) lock =
     (case compare_exchange_weak spurious count (count + exclusive_pending) lock of
        (Inr _, lock') \<Rightarrow> Some (rw_excl_retry std blocking True (count + exclusive_pending) b, lock')
      | (Inl c, lock') \<Rightarrow> Some (rw_excl_retry std blocking False c b, lock'))"
| "rw_excl_step std cond spurious (Excl_Leave blocking) lock =
     Some (rw_return_false blocking, snd (fetch_sub exclusive_pending lock))"
| "rw_excl_step std cond spurious _ lock = None"

definition rw_unlock_shared :: "usize \<Rightarrow> usize" where
  "rw_unlock_shared lock = snd (fetch_sub 1 lock)"

definition rw_unlock_exclusive :: "usize \<Rightarrow> usize" where
  "rw_unlock_exclusive lock = snd (fetch_sub exclusive_locked lock)"

text \<open>A call is made with \<open>blocking\<close> by \<open>lock_shared\<close> or \<open>lock_exclusive\<close>.\<close>

datatype rw_event =
    Call_Try_Shared | Call_Lock_Shared bool bool | Call_Try_Excl | Call_Lock_Excl bool
  | Shared_Continue bool | Excl_Continue bool bool | Unlock_Shared | Unlock_Excl

fun rw_next :: "bool \<Rightarrow> bool \<Rightarrow> rw_event \<Rightarrow> rw_pc \<Rightarrow> usize \<Rightarrow> (rw_pc \<times> usize) option" where
  "rw_next dbg std Call_Try_Shared pc lock =
     (if pc = Rw_Idle then Some (rw_try_lock_shared dbg lock) else None)"
| "rw_next dbg std (Call_Lock_Shared blocking cond) pc lock =
     (if pc = Rw_Idle then Some (rw_lock_shared_start dbg std blocking cond lock) else None)"
| "rw_next dbg std Call_Try_Excl pc lock =
     (if pc = Rw_Idle
      then case rw_try_lock_exclusive lock of (ok, lock') \<Rightarrow> Some (if ok then Rw_Excl else Rw_Idle, lock')
      else None)"
| "rw_next dbg std (Call_Lock_Excl blocking) pc lock =
     (if pc = Rw_Idle then Some (Excl_Cas blocking False backoff_new, lock) else None)"
| "rw_next dbg std (Shared_Continue cond) pc lock = rw_shared_step dbg std cond pc lock"
| "rw_next dbg std (Excl_Continue cond spurious) pc lock = rw_excl_step std cond spurious pc lock"
| "rw_next dbg std Unlock_Shared pc lock =
     (if pc = Rw_Shared then Some (Rw_Idle, rw_unlock_shared lock) else None)"
| "rw_next dbg std Unlock_Excl pc lock =
     (if pc = Rw_Excl then Some (Rw_Idle, rw_unlock_exclusive lock) else None)"

section \<open>What the word counts\<close>

lemma rw_constants:
  "unat exclusive_pending = 2 ^ 62" "unat exclusive_locked = 2 ^ 63" "unat shared_lock_threshold = 2 ^ 59"
  by (simp_all add: exclusive_pending_def exclusive_locked_def shared_lock_threshold_def)

lemma unat_add64: "unat a + unat b < 2 ^ 64 \<Longrightarrow> unat (a + b :: usize) = unat a + unat b"
  using unat_add_lem[of a b] by simp

lemma unat_sub64: "unat b \<le> unat a \<Longrightarrow> unat (a - b :: usize) = unat a - unat b"
  by (simp add: unat_sub word_le_nat_alt)

fun rw_shared_weight :: "rw_pc \<Rightarrow> nat" where
  "rw_shared_weight Rw_Shared = 1"
| "rw_shared_weight (Check_Undo _) = 1"
| "rw_shared_weight Try_Undo = 1"
| "rw_shared_weight (Room_Sub _ _) = 1"
| "rw_shared_weight (Queue_Load _ _) = 1"
| "rw_shared_weight (Queue_Undo _) = 1"
| "rw_shared_weight _ = 0"

fun rw_queued :: "rw_pc \<Rightarrow> nat" where
  "rw_queued (Excl_Cas _ in_queue _) = (if in_queue then 1 else 0)"
| "rw_queued (Excl_Leave _) = 1"
| "rw_queued _ = 0"

fun rw_excl :: "rw_pc \<Rightarrow> nat" where
  "rw_excl Rw_Excl = 1"
| "rw_excl _ = 0"

text \<open>What holds of a thread by itself; in particular that it has not panicked.\<close>

fun rw_pc_ok :: "rw_pc \<Rightarrow> bool" where
  "rw_pc_ok (Rw_Panicked _) = False"
| "rw_pc_ok (Check_Undo _) = False"
| "rw_pc_ok (Queue_Undo blocking) = (\<not> blocking)"
| "rw_pc_ok (Excl_Leave blocking) = (\<not> blocking)"
| "rw_pc_ok (Excl_Enqueue _ count _) = (0 < count \<and> count < exclusive_pending)"
| "rw_pc_ok _ = True"

text \<open>The word for \<open>s\<close> shared counts, \<open>q\<close> queued and \<open>x\<close> exclusive locks.\<close>

definition rw_word_is :: "usize \<Rightarrow> nat \<Rightarrow> nat \<Rightarrow> nat \<Rightarrow> bool" where
  "rw_word_is w s q x \<longleftrightarrow> unat w = s + 2 ^ 62 * q + 2 ^ 63 * x \<and> s \<le> 2 ^ 59 \<and> q + x \<le> 1"

lemma rw_word_is_cases: "rw_word_is w s q x \<Longrightarrow> (q = 0 \<and> x = 0) \<or> (q = 1 \<and> x = 0) \<or> (q = 0 \<and> x = 1)"
  by (auto simp: rw_word_is_def)

lemma rw_word_tests:
  assumes "rw_word_is w s q x"
  shows "w < exclusive_pending \<longleftrightarrow> q = 0 \<and> x = 0" "exclusive_pending \<le> w \<longleftrightarrow> q = 1 \<or> x = 1"
    "w < exclusive_locked \<longleftrightarrow> x = 0" "exclusive_locked \<le> w \<longleftrightarrow> x = 1"
    "0 < w \<longleftrightarrow> 0 < s \<or> q = 1 \<or> x = 1"
  using rw_word_is_cases[OF assms] assms
  by (auto simp: rw_word_is_def word_less_nat_alt word_le_nat_alt rw_constants)

lemma rw_word_check: "rw_word_is w s q x \<Longrightarrow> locks_count_check w = None"
  using rw_word_is_cases[of w s q x]
  by (auto simp: rw_word_is_def locks_count_check_def word_less_nat_alt word_le_nat_alt rw_constants unat_add64)

lemma rw_word_changes:
  assumes "rw_word_is w s q x"
  shows "s < 2 ^ 59 \<Longrightarrow> rw_word_is (w + 1) (Suc s) q x"
    and "0 < s \<Longrightarrow> rw_word_is (w - 1) (s - 1) q x"
    and "w = 0 \<Longrightarrow> rw_word_is exclusive_locked s q (Suc x) \<and> s = 0"
    and "w = exclusive_pending \<Longrightarrow> q = 1 \<Longrightarrow> rw_word_is exclusive_locked s 0 (Suc x) \<and> s = 0"
    and "w < exclusive_pending \<Longrightarrow> rw_word_is (w + exclusive_pending) s (Suc q) x"
    and "q = 1 \<Longrightarrow> rw_word_is (w - exclusive_pending) s 0 x"
    and "x = 1 \<Longrightarrow> rw_word_is (w - exclusive_locked) s q 0"
  using rw_word_is_cases[OF assms] assms
  by (auto simp: rw_word_is_def word_less_nat_alt rw_constants unat_add64 unat_sub64 Suc_diff_le)

lemma rw_excl_cas_tests:
  assumes "rw_word_is w s q x" and "w = rw_excl_expected in_queue" and "in_queue \<Longrightarrow> q = 1"
  shows "rw_word_is exclusive_locked 0 0 1 \<and> s = 0 \<and> x = 0 \<and> q = (if in_queue then 1 else 0)"
  using rw_word_is_cases[OF assms(1)] assms
  by (auto simp: rw_word_is_def rw_excl_expected_def rw_constants)

text \<open>
  One step of a thread: \<open>S\<close>, \<open>Q\<close> and \<open>X\<close> are the shares of the other threads. The word follows the
  thread's share, the thread does not panic, and it acquires only what the others allow.
\<close>

lemma rw_room_word:
  "rw_word_is w s q x \<Longrightarrow> rw_room dbg std blocking cond w b =
    (if \<not> (blocking \<or> cond) then Rw_Idle
     else if q = 0 then Room_Add blocking b else Room_Load blocking (snd (backoff_wait std b)))"
  using rw_word_is_cases[of w s q x]
  by (auto simp: rw_room_def rw_word_tests rw_word_check rw_return_false_def)

lemma rw_queue_word:
  "rw_word_is w s q x \<Longrightarrow> rw_queue dbg std blocking cond w b =
    (if x = 0 then Rw_Shared else if \<not> (blocking \<or> cond) then Queue_Undo blocking
     else Queue_Load blocking (snd (backoff_wait std b)))"
  by (auto simp: rw_queue_def rw_checked_def rw_word_tests rw_word_check)

definition rw_step_ok :: "nat \<Rightarrow> nat \<Rightarrow> nat \<Rightarrow> rw_pc \<Rightarrow> usize \<Rightarrow> bool" where
  "rw_step_ok S Q X pc w \<longleftrightarrow>
     rw_word_is w (S + rw_shared_weight pc) (Q + rw_queued pc) (X + rw_excl pc) \<and> rw_pc_ok pc \<and>
     (pc = Rw_Shared \<longrightarrow> X = 0) \<and> (pc = Rw_Excl \<longrightarrow> S = 0)"

lemma rw_shared_step_ok:
  assumes "rw_shared_step dbg std cond pc w = Some (pc', w')"
    and "rw_word_is w (S + rw_shared_weight pc) (Q + rw_queued pc) (X + rw_excl pc)"
    and "rw_pc_ok pc" and "S < 2 ^ 59"
  shows "rw_step_ok S Q X pc' w'"
  using assms rw_word_changes(1,2)[OF assms(2)] rw_word_is_cases[OF assms(2)]
  by (cases "(dbg, std, cond, pc, w)" rule: rw_shared_step.cases)
    (auto simp: rw_step_ok_def fetch_add_def fetch_sub_def rw_room_word rw_queue_word rw_return_false_def
      split: if_splits)

lemma rw_excl_retry_weights:
  "rw_shared_weight (rw_excl_retry std blocking in_queue count b) = 0"
  "rw_queued (rw_excl_retry std blocking in_queue count b) = (if in_queue then 1 else 0)"
  "rw_excl (rw_excl_retry std blocking in_queue count b) = 0"
  "rw_pc_ok (rw_excl_retry std blocking in_queue count b)"
  "rw_excl_retry std blocking in_queue count b \<noteq> Rw_Shared" "rw_excl_retry std blocking in_queue count b \<noteq> Rw_Excl"
  by (simp_all add: rw_excl_retry_def Let_def)

lemma rw_excl_failed_ok:
  assumes "rw_word_is w S (Q + (if in_queue then 1 else 0)) X"
  shows "rw_step_ok S Q X (rw_excl_failed std blocking cond in_queue w b) w"
  using assms by (auto simp: rw_excl_failed_def rw_step_ok_def rw_excl_retry_weights rw_return_false_def)

lemma rw_excl_step_ok:
  assumes "rw_excl_step std cond spurious pc w = Some (pc', w')"
    and "rw_word_is w (S + rw_shared_weight pc) (Q + rw_queued pc) (X + rw_excl pc)"
    and "rw_pc_ok pc"
  shows "rw_step_ok S Q X pc' w'"
proof (cases pc)
  case (Excl_Cas blocking in_queue b)
  with assms(2) have w: "rw_word_is w S (Q + (if in_queue then 1 else 0)) X" by simp
  show ?thesis
    using assms(1) rw_excl_failed_ok[OF w] rw_excl_cas_tests[OF w, of in_queue] rw_word_is_cases[OF w] Excl_Cas
    by (auto simp: compare_exchange_weak_def rw_step_ok_def split: if_splits)
next
  case (Excl_Enqueue blocking count b)
  with assms rw_word_changes(5)[OF assms(2)] show ?thesis
    by (auto simp: compare_exchange_weak_def rw_step_ok_def rw_excl_retry_weights split: if_splits)
next
  case (Excl_Leave blocking)
  with assms rw_word_changes(6)[OF assms(2)] rw_word_is_cases[OF assms(2)] show ?thesis
    by (auto simp: rw_step_ok_def rw_return_false_def fetch_sub_def)
qed (use assms in auto)

lemma rw_next_ok:
  assumes "rw_next dbg std ev pc w = Some (pc', w')"
    and "rw_word_is w (S + rw_shared_weight pc) (Q + rw_queued pc) (X + rw_excl pc)"
    and "rw_pc_ok pc" and "S < 2 ^ 59"
  shows "rw_step_ok S Q X pc' w'"
proof (cases "(\<exists>c. ev = Shared_Continue c) \<or> (\<exists>c sp. ev = Excl_Continue c sp)")
  case True
  then show ?thesis
    using assms(1) rw_shared_step_ok[OF _ assms(2-4)] rw_excl_step_ok[OF _ assms(2,3)] by auto
next
  case False
  with assms rw_word_changes[OF assms(2)] rw_word_is_cases[OF assms(2)] show ?thesis
    by (cases ev)
      (auto simp: rw_try_lock_shared_def rw_lock_shared_start_def rw_try_lock_exclusive_def compare_exchange_def
        rw_unlock_shared_def rw_unlock_exclusive_def fetch_add_def fetch_sub_def rw_step_ok_def rw_checked_def
        rw_word_check rw_queue_word rw_word_tests split: if_splits)
qed

section \<open>Any number of threads\<close>

record rw_system =
  rw_word :: usize
  rw_pcs :: "rw_pc list"

definition rw_init :: "rw_system \<Rightarrow> bool" where
  "rw_init s \<longleftrightarrow> rw_word s = rw_new \<and> set (rw_pcs s) \<subseteq> {Rw_Idle} \<and> length (rw_pcs s) \<le> 2 ^ 59"

inductive rw_step :: "bool \<Rightarrow> bool \<Rightarrow> rw_system \<Rightarrow> rw_system \<Rightarrow> bool" for dbg std where
  rw_stepI: "i < length (rw_pcs s) \<Longrightarrow> rw_next dbg std ev (rw_pcs s ! i) (rw_word s) = Some (pc, w) \<Longrightarrow>
    rw_step dbg std s (s\<lparr>rw_word := w, rw_pcs := (rw_pcs s)[i := pc]\<rparr>)"

inductive_cases rw_step_cases: "rw_step dbg std s t"

definition rw_total :: "(rw_pc \<Rightarrow> nat) \<Rightarrow> rw_system \<Rightarrow> nat" where
  "rw_total f s = sum_list (map f (rw_pcs s))"

definition rw_holds_shared :: "rw_system \<Rightarrow> nat \<Rightarrow> bool" where
  "rw_holds_shared s i \<longleftrightarrow> i < length (rw_pcs s) \<and> rw_pcs s ! i = Rw_Shared"

definition rw_holds_excl :: "rw_system \<Rightarrow> nat \<Rightarrow> bool" where
  "rw_holds_excl s i \<longleftrightarrow> i < length (rw_pcs s) \<and> rw_pcs s ! i = Rw_Excl"

definition rw_holds :: "rw_system \<Rightarrow> nat \<Rightarrow> bool" where
  "rw_holds s i \<longleftrightarrow> rw_holds_shared s i \<or> rw_holds_excl s i"

definition rw_inv :: "rw_system \<Rightarrow> bool" where
  "rw_inv s \<longleftrightarrow>
     rw_word_is (rw_word s) (rw_total rw_shared_weight s) (rw_total rw_queued s) (rw_total rw_excl s) \<and>
     length (rw_pcs s) \<le> 2 ^ 59 \<and> (\<forall>pc \<in> set (rw_pcs s). rw_pc_ok pc) \<and>
     (Rw_Excl \<in> set (rw_pcs s) \<longrightarrow> Rw_Shared \<notin> set (rw_pcs s))"

lemma rw_weights_le: "rw_shared_weight pc \<le> 1" "rw_queued pc \<le> 1" "rw_excl pc \<le> 1"
  by (cases pc; simp)+

lemma rw_shared_weight_total: "sum_list (map rw_shared_weight pcs) \<le> length pcs"
proof (induction pcs)
  case (Cons pc pcs)
  with rw_weights_le(1)[of pc] show ?case by simp
qed simp

lemma rw_inv_init: "rw_init s \<Longrightarrow> rw_inv s"
proof -
  assume s: "rw_init s"
  have "rw_total f s = 0" if "f Rw_Idle = 0" for f
    using s that by (auto simp: rw_init_def rw_total_def sum_list_eq_0_iff)
  then have "rw_total rw_shared_weight s = 0" "rw_total rw_queued s = 0" "rw_total rw_excl s = 0"
    by simp_all
  with s show ?thesis
    by (auto simp: rw_init_def rw_inv_def rw_word_is_def rw_new_def)
qed

lemma rw_excl_total: "rw_total rw_excl s = 0 \<longleftrightarrow> Rw_Excl \<notin> set (rw_pcs s)"
proof -
  have "rw_excl pc = 0 \<longleftrightarrow> pc \<noteq> Rw_Excl" for pc by (cases pc) simp_all
  then show ?thesis by (auto simp: rw_total_def sum_list_eq_0_iff)
qed

text \<open>A step of thread \<open>i\<close> against the shares of the others.\<close>

lemma rw_step_frame:
  assumes inv: "rw_inv s" and i: "i < length (rw_pcs s)"
    and nx: "rw_next dbg std ev (rw_pcs s ! i) (rw_word s) = Some (pc, w)"
    and t: "t = s\<lparr>rw_word := w, rw_pcs := (rw_pcs s)[i := pc]\<rparr>"
  obtains S Q X where "rw_total rw_shared_weight s = S + rw_shared_weight (rw_pcs s ! i)"
    "rw_total rw_shared_weight t = S + rw_shared_weight pc"
    "rw_total rw_queued s = Q + rw_queued (rw_pcs s ! i)" "rw_total rw_queued t = Q + rw_queued pc"
    "rw_total rw_excl s = X + rw_excl (rw_pcs s ! i)" "rw_total rw_excl t = X + rw_excl pc"
    "rw_step_ok S Q X pc w"
proof -
  have frame: "\<exists>n. rw_total f s = n + f (rw_pcs s ! i) \<and> rw_total f t = n + f pc" for f
    using sum_list_map_frame[OF i, of f] by (auto simp: rw_total_def t)
  obtain S where S: "rw_total rw_shared_weight s = S + rw_shared_weight (rw_pcs s ! i)"
    "rw_total rw_shared_weight t = S + rw_shared_weight pc" using frame by blast
  obtain Q where Q: "rw_total rw_queued s = Q + rw_queued (rw_pcs s ! i)"
    "rw_total rw_queued t = Q + rw_queued pc" using frame by blast
  obtain X where X: "rw_total rw_excl s = X + rw_excl (rw_pcs s ! i)"
    "rw_total rw_excl t = X + rw_excl pc" using frame by blast
  have "S + 1 = sum_list (map rw_shared_weight ((rw_pcs s)[i := Try_Undo]))"
    using sum_list_map_update[OF i, of rw_shared_weight Try_Undo] S(1) by (simp add: rw_total_def)
  also have "\<dots> \<le> 2 ^ 59" using rw_shared_weight_total[of "(rw_pcs s)[i := Try_Undo]"] inv by (simp add: rw_inv_def)
  finally have "S < 2 ^ 59" by simp
  moreover have "rw_word_is (rw_word s) (S + rw_shared_weight (rw_pcs s ! i)) (Q + rw_queued (rw_pcs s ! i))
      (X + rw_excl (rw_pcs s ! i))" "rw_pc_ok (rw_pcs s ! i)"
    using inv i by (auto simp: rw_inv_def S Q X)
  ultimately have "rw_step_ok S Q X pc w" using rw_next_ok[OF nx] by blast
  with S Q X show thesis by (rule that)
qed

lemma rw_inv_step: "rw_step dbg std s t \<Longrightarrow> rw_inv s \<Longrightarrow> rw_inv t"
proof (erule rw_step_cases)
  fix i ev pc w
  assume inv: "rw_inv s" and i: "i < length (rw_pcs s)"
    and nx: "rw_next dbg std ev (rw_pcs s ! i) (rw_word s) = Some (pc, w)"
    and t: "t = s\<lparr>rw_word := w, rw_pcs := (rw_pcs s)[i := pc]\<rparr>"
  obtain S Q X where S: "rw_total rw_shared_weight t = S + rw_shared_weight pc"
    and Q: "rw_total rw_queued t = Q + rw_queued pc"
    and X: "rw_total rw_excl s = X + rw_excl (rw_pcs s ! i)" "rw_total rw_excl t = X + rw_excl pc"
    and ok: "rw_step_ok S Q X pc w" using rw_step_frame[OF inv i nx t] by blast
  have len: "length (rw_pcs s) \<le> 2 ^ 59" using inv by (simp add: rw_inv_def)
  have "Rw_Shared \<notin> set (rw_pcs t)" if excl: "Rw_Excl \<in> set (rw_pcs t)"
  proof (cases "pc = Rw_Excl")
    case True
    with ok S have "rw_total rw_shared_weight t = 0" by (simp add: rw_step_ok_def)
    then show ?thesis by (force simp: rw_total_def sum_list_eq_0_iff)
  next
    case False
    then have "rw_excl pc = 0" by (cases pc) simp_all
    with excl X rw_excl_total[of t] have "0 < X" by (metis add_0_right neq0_conv)
    with X(1) have "rw_total rw_excl s \<noteq> 0" by simp
    with inv have "Rw_Shared \<notin> set (rw_pcs s)" by (simp add: rw_inv_def rw_excl_total)
    moreover have "pc \<noteq> Rw_Shared" using ok \<open>0 < X\<close> by (auto simp: rw_step_ok_def)
    ultimately show ?thesis by (auto simp: t dest: set_update_subset_insert[THEN subsetD])
  qed
  moreover have "\<forall>pc \<in> set (rw_pcs t). rw_pc_ok pc"
    using ok inv by (auto simp: t rw_inv_def rw_step_ok_def dest!: set_update_subset_insert[THEN subsetD])
  moreover have "rw_word t = w" "length (rw_pcs t) = length (rw_pcs s)" by (simp_all add: t)
  ultimately show "rw_inv t"
    using ok len by (simp add: rw_inv_def rw_step_ok_def S Q X(2))
qed

lemma rw_inv_exclusive: "rw_inv s \<Longrightarrow> rw_holds_excl s i \<Longrightarrow> rw_holds s j \<Longrightarrow> i = j"
proof (rule ccontr)
  assume inv: "rw_inv s" and i: "rw_holds_excl s i" and j: "rw_holds s j" and ne: "i \<noteq> j"
  from inv i have "Rw_Shared \<notin> set (rw_pcs s)" by (auto simp: rw_inv_def rw_holds_excl_def in_set_conv_nth)
  with j have "rw_holds_excl s j" by (metis nth_mem rw_holds_def rw_holds_shared_def)
  with i ne sum_list_map_two_le[of i "rw_pcs s" j rw_excl] have "2 \<le> rw_total rw_excl s"
    by (simp add: rw_holds_excl_def rw_total_def)
  with inv show False by (simp add: rw_inv_def rw_word_is_def)
qed

interpretation rw: exclusion_system rw_init "rw_step dbg std" rw_inv rw_holds_excl rw_holds for dbg std
  by unfold_locales (auto intro: rw_inv_init rw_inv_step rw_inv_exclusive simp: rw_holds_def)

text \<open>
  The lock as the lock parameter of a queue. \<open>lock_shared\<close> and \<open>lock_exclusive\<close> are the calls with
  \<open>blocking\<close>, for which the answers of \<open>cond\<close> do not matter.
\<close>

definition rw_thread :: "bool \<Rightarrow> bool \<Rightarrow> nat \<Rightarrow> rw_event \<Rightarrow> rw_system \<Rightarrow> rw_system option" where
  "rw_thread dbg std i ev s =
     (if i < length (rw_pcs s) then
        case rw_next dbg std ev (rw_pcs s ! i) (rw_word s) of
          Some (pc, w) \<Rightarrow> Some (s\<lparr>rw_word := w, rw_pcs := (rw_pcs s)[i := pc]\<rparr>)
        | None \<Rightarrow> None
      else None)"

definition rw_raw :: "bool \<Rightarrow> bool \<Rightarrow> rw_system raw_lock" where
  "rw_raw dbg std = \<lparr>lk_init = rw_init,
     lk_call = (\<lambda>m i s t. rw_thread dbg std i
       (case m of Lk_Read \<Rightarrow> Call_Lock_Shared True True | Lk_Write \<Rightarrow> Call_Lock_Excl True) s = Some t),
     lk_run = (\<lambda>i s t. \<exists>ev \<in> {Shared_Continue True, Excl_Continue True True, Excl_Continue True False}.
       rw_thread dbg std i ev s = Some t),
     lk_unlock = (\<lambda>m i s t. rw_thread dbg std i
       (case m of Lk_Read \<Rightarrow> Unlock_Shared | Lk_Write \<Rightarrow> Unlock_Excl) s = Some t),
     lk_guard = (\<lambda>m i s. case m of Lk_Read \<Rightarrow> rw_holds_shared s i | Lk_Write \<Rightarrow> rw_holds_excl s i),
     lk_idle = (\<lambda>i s. i < length (rw_pcs s) \<and> rw_pcs s ! i = Rw_Idle)\<rparr>"

lemma rw_thread_step: "rw_thread dbg std i ev s = Some t \<Longrightarrow> rw_step dbg std s t"
  by (auto simp: rw_thread_def intro: rw_stepI split: if_splits option.splits)

lemma rw_thread_frame:
  assumes "rw_thread dbg std i ev s = Some t" and "j \<noteq> i"
  shows "rw_holds_shared t j = rw_holds_shared s j" "rw_holds_excl t j = rw_holds_excl s j"
  using assms
  by (auto simp: rw_thread_def rw_holds_shared_def rw_holds_excl_def split: if_splits option.splits)

lemma rw_raw_step: "lk_step (rw_raw dbg std) s t \<Longrightarrow> rw_step dbg std s t"
  by (auto simp: lk_step_def lk_thread_def rw_raw_def dest: rw_thread_step)

interpretation rw_lock: rw_lock_contract "rw_raw dbg std" rw_inv for dbg std
proof
  fix s t i m j
  show "lk_init (rw_raw dbg std) s \<Longrightarrow> rw_inv s" by (simp add: rw_raw_def rw_inv_init)
  show "lk_step (rw_raw dbg std) s t \<Longrightarrow> rw_inv s \<Longrightarrow> rw_inv t" using rw_raw_step rw_inv_step by blast
  show "rw_inv s \<Longrightarrow> lk_guard (rw_raw dbg std) Lk_Write i s \<Longrightarrow> lk_guard (rw_raw dbg std) m j s \<Longrightarrow> i = j"
    using rw_inv_exclusive[of s i j] by (cases m) (simp_all add: rw_raw_def rw_holds_def)
qed (auto simp: lk_thread_def rw_raw_def rw_thread_frame split: lock_mode.splits)

lemma rw_queued_one: "rw_queued pc = 0 \<or> rw_queued pc = 1"
  by (cases pc) simp_all

lemma rw_reachable_word:
  assumes "reachable rw_init (rw_step dbg std) s"
  shows "rw_word_is (rw_word s) (rw_total rw_shared_weight s) (rw_total rw_queued s) (rw_total rw_excl s)"
  using rw.reachable_inv[OF assms] by (simp add: rw_inv_def)

lemma rw_excl_exists: "rw_total rw_excl s = 0 \<longleftrightarrow> (\<nexists>k. rw_holds_excl s k)"
  unfolding rw_excl_total by (auto simp: rw_holds_excl_def in_set_conv_nth)

lemma rw_shared_exists: "rw_holds_shared s k \<Longrightarrow> 0 < rw_total rw_shared_weight s"
  using sum_list_map_ge[of k "rw_pcs s" rw_shared_weight] by (auto simp: rw_holds_shared_def rw_total_def)

text \<open>A schedule is a list of threads and events.\<close>

fun rw_run :: "bool \<Rightarrow> bool \<Rightarrow> (nat \<times> rw_event) list \<Rightarrow> rw_system \<Rightarrow> rw_system option" where
  "rw_run dbg std [] s = Some s"
| "rw_run dbg std ((i, ev) # evs) s =
     (if i < length (rw_pcs s) then
        case rw_next dbg std ev (rw_pcs s ! i) (rw_word s) of
          None \<Rightarrow> None
        | Some (pc, w) \<Rightarrow> rw_run dbg std evs (s\<lparr>rw_word := w, rw_pcs := (rw_pcs s)[i := pc]\<rparr>)
      else None)"

lemma rw_run_reachable:
  "rw_run dbg std evs s = Some t \<Longrightarrow> reachable rw_init (rw_step dbg std) s \<Longrightarrow> reachable rw_init (rw_step dbg std) t"
proof (induction evs arbitrary: s)
  case (Cons e evs)
  obtain i ev where e: "e = (i, ev)" by (cases e)
  with Cons.prems(1) obtain pc w where
    "i < length (rw_pcs s)" "rw_next dbg std ev (rw_pcs s ! i) (rw_word s) = Some (pc, w)"
    "rw_run dbg std evs (s\<lparr>rw_word := w, rw_pcs := (rw_pcs s)[i := pc]\<rparr>) = Some t"
    by (auto split: if_splits option.splits)
  with Cons.IH Cons.prems(2) show ?case by (blast intro: reach_step rw_stepI)
qed simp

text \<open>A reader, a queued writer and an idle thread.\<close>

definition rw_queue_schedule :: "(nat \<times> rw_event) list" where
  "rw_queue_schedule =
     [(0, Call_Try_Shared), (1, Call_Lock_Excl True), (1, Excl_Continue False False), (1, Excl_Continue False False)]"

definition rw_queue_state :: rw_system where
  "rw_queue_state = \<lparr>rw_word = exclusive_pending + 1,
     rw_pcs = [Rw_Shared, Excl_Cas True True (snd (backoff_wait True backoff_new)), Rw_Idle]\<rparr>"

lemma rw_idle_reachable: "reachable rw_init (rw_step dbg std) \<lparr>rw_word = 0, rw_pcs = [Rw_Idle, Rw_Idle, Rw_Idle]\<rparr>"
  by (rule reach_init) (simp add: rw_init_def rw_new_def)

lemma rw_queue_state_reachable: "reachable rw_init (rw_step True True) rw_queue_state"
proof (rule rw_run_reachable[OF _ rw_idle_reachable])
  show "rw_run True True rw_queue_schedule \<lparr>rw_word = 0, rw_pcs = [Rw_Idle, Rw_Idle, Rw_Idle]\<rparr> = Some rw_queue_state"
    by (simp add: rw_queue_schedule_def rw_queue_state_def rw_try_lock_shared_def fetch_add_def rw_checked_def
        locks_count_check_def exclusive_pending_def shared_lock_threshold_def compare_exchange_weak_def
        rw_excl_expected_def rw_excl_failed_def rw_excl_retry_def Let_def)
qed

section \<open>Properties\<close>

text \<open>
  Claim C2. Readers and writers exclude each other: however the calls interleave, while a thread holds
  the exclusive lock no other thread holds the lock in either mode; \<open>is_locked_exclusive\<close> is true
  exactly while a thread holds it exclusively, and \<open>is_locked\<close> is true while any thread holds it.
\<close>

theorem rw_mutual_exclusion:
  assumes "reachable rw_init (rw_step dbg std) s"
  shows "(rw_holds_excl s i \<and> rw_holds s j \<longrightarrow> i = j) \<and>
    rw_is_locked_exclusive (rw_word s) = (\<exists>k. rw_holds_excl s k) \<and>
    (rw_holds s i \<longrightarrow> rw_is_locked (rw_word s))"
proof -
  note w = rw_reachable_word[OF assms]
  have "rw_total rw_excl s = 0 \<or> rw_total rw_excl s = 1" using rw_word_is_cases[OF w] by auto
  then have "rw_is_locked_exclusive (rw_word s) = (\<exists>k. rw_holds_excl s k)"
    using rw_word_tests(4)[OF w] rw_excl_exists[of s] by (auto simp: rw_is_locked_exclusive_def)
  moreover have "rw_holds s i \<longrightarrow> rw_is_locked (rw_word s)"
    using rw_word_tests(5)[OF w] rw_excl_exists[of s] rw_shared_exists[of s i] rw_word_is_cases[OF w]
    by (auto simp: rw_is_locked_def rw_holds_def)
  ultimately show ?thesis using rw.reachable_exclusive[OF assms] by blast
qed

theorem rw_mutual_exclusion_witness:
  "\<not> rw_is_locked_exclusive (rw_word rw_queue_state) \<and> rw_is_locked (rw_word rw_queue_state)"
proof -
  have "rw_holds rw_queue_state 0"
    by (simp add: rw_holds_def rw_holds_shared_def rw_queue_state_def)
  moreover have "\<nexists>k. rw_holds_excl rw_queue_state k"
    by (auto simp: rw_holds_excl_def rw_queue_state_def nth_Cons split: nat.splits)
  ultimately show ?thesis using rw_mutual_exclusion[OF rw_queue_state_reachable, of 0 0] by simp
qed

text \<open>
  With at most \<open>SHARED_LOCK_THRESHOLD\<close> calls and guards at a time no call ever panics: the
  debug check of the counter never fires, \<open>lock_shared\<close> and \<open>lock_exclusive\<close> never return without the
  lock, and the counters never overflow into each other.
\<close>

theorem rw_never_panics:
  assumes "reachable rw_init (rw_step dbg std) s"
  shows "Rw_Panicked e \<notin> set (rw_pcs s) \<and> Check_Undo e \<notin> set (rw_pcs s) \<and> locks_count_check (rw_word s) = None"
  using rw.reachable_inv[OF assms] rw_word_check[OF rw_reachable_word[OF assms]]
  by (force simp: rw_inv_def)

theorem rw_never_panics_witness: "locks_count_check (rw_word rw_queue_state) = None"
  using rw_never_panics[OF rw_queue_state_reachable] by blast

text \<open>
  Nothing leaks: whatever calls were made, given up or undone, once every thread is between
  calls and holds nothing the word is zero, so both kinds of lock can be taken again.
\<close>

theorem rw_word_returns_to_zero:
  assumes "reachable rw_init (rw_step dbg std) s" and "set (rw_pcs s) \<subseteq> {Rw_Idle}"
  shows "rw_word s = rw_new \<and> fst (rw_try_lock_exclusive (rw_word s)) \<and>
    fst (rw_try_lock_shared dbg (rw_word s)) = Rw_Shared"
proof -
  have "rw_total f s = 0" if "f Rw_Idle = 0" for f
    using assms(2) that by (auto simp: rw_total_def sum_list_eq_0_iff)
  then have "rw_total rw_shared_weight s = 0" "rw_total rw_queued s = 0" "rw_total rw_excl s = 0" by simp_all
  with rw_reachable_word[OF assms(1)] have "unat (rw_word s) = 0" by (simp add: rw_word_is_def)
  then have "rw_word s = 0" by (simp add: unat_eq_0)
  then show ?thesis
    by (simp add: rw_new_def rw_try_lock_exclusive_def compare_exchange_def rw_try_lock_shared_def fetch_add_def
        rw_checked_def locks_count_check_def exclusive_pending_def shared_lock_threshold_def)
qed

theorem rw_word_returns_to_zero_witness:
  "fst (rw_try_lock_exclusive (rw_word \<lparr>rw_word = 0, rw_pcs = [Rw_Idle, Rw_Idle, Rw_Idle]\<rparr>))"
  using rw_word_returns_to_zero[OF rw_idle_reachable] by simp

text \<open>
  Claim C38. A queued writer keeps new readers out: while a thread waits in the queue of
  \<open>lock_exclusive\<close>, a call of \<open>try_lock_shared\<close> or \<open>lock_shared\<close> does not get the lock at once; there is
  no other queued or exclusive thread; and as soon as no other thread has a share in the counter the
  next exchange of the queued thread that does not fail spuriously takes the lock.
\<close>

theorem rw_queued_writer_has_priority:
  assumes "reachable rw_init (rw_step dbg std) s"
    and "i < length (rw_pcs s)" and "rw_pcs s ! i = Excl_Cas blocking True b"
  shows "fst (rw_try_lock_shared dbg (rw_word s)) = Try_Undo \<and>
    fst (rw_lock_shared_start dbg std blocking' cond (rw_word s)) = Room_Sub blocking' backoff_new \<and>
    (\<nexists>k. rw_holds_excl s k) \<and>
    (\<forall>k < length (rw_pcs s). rw_queued (rw_pcs s ! k) = 1 \<longrightarrow> k = i) \<and>
    (rw_next dbg std (Excl_Continue cond False) (rw_pcs s ! i) (rw_word s) = Some (Rw_Excl, exclusive_locked) \<longleftrightarrow>
      rw_total rw_shared_weight s = 0)"
proof -
  note w = rw_reachable_word[OF assms(1)]
  have "1 \<le> rw_total rw_queued s"
    using sum_list_map_ge[OF assms(2), of rw_queued] assms(3) by (simp add: rw_total_def)
  with rw_word_is_cases[OF w] have q: "rw_total rw_queued s = 1" "rw_total rw_excl s = 0" by auto
  have uniq: "\<forall>k < length (rw_pcs s). rw_queued (rw_pcs s ! k) = 1 \<longrightarrow> k = i"
  proof (intro allI impI, rule ccontr)
    fix k assume "k < length (rw_pcs s)" "rw_queued (rw_pcs s ! k) = 1" "k \<noteq> i"
    with sum_list_map_two_le[of k "rw_pcs s" i rw_queued] assms(2,3) q(1) show False
      by (simp add: rw_total_def)
  qed
  have "rw_word s = exclusive_pending \<longleftrightarrow> rw_total rw_shared_weight s = 0"
    using w q by (auto simp: rw_word_is_def word_unat_eq_iff rw_constants)
  then show ?thesis
    using q rw_word_tests[OF w] rw_word_check[OF w] rw_excl_exists[of s] uniq assms(3)
    by (auto simp: rw_try_lock_shared_def rw_lock_shared_start_def rw_checked_def fetch_add_def
        compare_exchange_weak_def rw_excl_expected_def rw_excl_failed_def rw_excl_retry_def)
qed

theorem rw_queued_writer_has_priority_witness:
  "fst (rw_try_lock_shared True (rw_word rw_queue_state)) = Try_Undo"
  using rw_queued_writer_has_priority[OF rw_queue_state_reachable, of 1] by (simp add: rw_queue_state_def)

text \<open>
  Should the counter pass the limit, the debug check panics with its message, except when an
  exclusive lock is queued: there it subtracts \<open>EXCLUSIVE_LOCKED\<close> from a smaller count, and the panic is
  an arithmetic overflow instead.
\<close>

theorem rw_check_underflows_when_pending:
  assumes "2 ^ 59 < s" and "s < 2 ^ 62"
  shows "locks_count_check (of_nat s) = Some Explicit_panic \<and>
    locks_count_check (of_nat (s + 2 ^ 62)) = Some Arith_overflow \<and>
    locks_count_check (of_nat (s + 2 ^ 63)) = Some Explicit_panic"
  using assms
  by (simp add: locks_count_check_def word_less_nat_alt rw_constants unat_add64 unat_of_nat
      too_many_shared_locks_def usize_sub_def)

theorem rw_check_underflows_when_pending_witness:
  "locks_count_check (of_nat (2 ^ 60 + 2 ^ 62)) = Some Arith_overflow"
  using rw_check_underflows_when_pending[of "2 ^ 60"] by simp

end
