(* ===== verification/Cond_Var.thy ===== *)
theory Cond_Var
  imports State_Ptr Backoff
begin

text \<open>
  The condition variable of \<open>src/src/condvar.rs\<close>, with the waiting protocol of \<open>src/src/park.rs\<close>: one
  atomic word holds an eight-bit state and a pointer to the list of the nodes of the waiting threads.

  The nodes live on the stacks of the threads that wait. \<open>cv_nodes\<close> maps the addresses of the nodes
  that are alive to their fields; a node is allocated at any free address of the right alignment (so
  addresses are reused) and is freed when its thread leaves the scope. An access through a pointer to
  no live node is \<open>Undefined_behaviour\<close>. The provenance of such pointers is not followed.

  A thread is at the next atomic access it makes (\<open>cv_pc\<close>). The three loops of the file
  (\<open>update_wait_break_park\<close>, \<open>update_break_wake\<close>, \<open>update_break_no_wake\<close>) have the same form and differ in
  what their closures can answer, in \<open>wake\<close>, and in whether they have a back-off: a \<open>cv_loop\<close>. The closures
  are functions of the state that can panic. \<open>BackOff\<close> has no methods \<open>lock_free_wait\<close> and \<open>blocking_wait\<close>: they are
  parameters. \<open>park\<close> may return at any time, as its documentation allows; the log \<open>cv_unparks\<close> records
  the tokens that were unparked. The steps are sequentially consistent; \<open>Cond_Var_Order\<close> has the orderings.
\<close>

section \<open>Nodes and the word\<close>

record cv_node =
  cn_unpark :: nat
  cn_next :: rust_ptr
  cn_ready :: bool

text \<open>The node type is aligned to 256 bytes, so the state has eight bits.\<close>

definition cv_align :: usize where
  "cv_align = 256"

record cv_shared =
  cv_atomic :: atomic_ptr_state
  cv_nodes :: "usize \<Rightarrow> cv_node option"
  cv_unparks :: "nat list"

datatype cv_decision = Cv_Update u8 | Cv_Wait | Cv_Break

datatype cv_wake = Wake_None | Wake_One | Wake_All

definition cv_trunc :: "u8 \<Rightarrow> ptr_state_bits" where
  "cv_trunc s = state_new_truncated cv_align (ucast s)"

definition cv_state :: "ptr_state \<Rightarrow> u8" where
  "cv_state ps = ucast (state_value (ps_state cv_align ps))"

definition cv_zero :: cv_shared where
  "cv_zero = \<lparr>cv_atomic = aps_null_zero, cv_nodes = (\<lambda>_. None), cv_unparks = []\<rparr>"

definition cv_new :: "u8 \<Rightarrow> cv_shared" where
  "cv_new s = \<lparr>cv_atomic = aps_null_state (cv_trunc s), cv_nodes = (\<lambda>_. None), cv_unparks = []\<rparr>"

definition cv_load :: "cv_shared \<Rightarrow> u8" where
  "cv_load sh = cv_state (aps_load (cv_atomic sh))"

definition cv_optimistic_update :: "u8 \<Rightarrow> u8 \<Rightarrow> cv_shared \<Rightarrow> bool \<times> cv_shared" where
  "cv_optimistic_update old_state new_state sh =
     (case aps_compare_exchange (ps_null_state (cv_trunc old_state)) (ps_null_state (cv_trunc new_state)) (cv_atomic sh) of
        (r, at) \<Rightarrow> (case r of Inr _ \<Rightarrow> True | Inl _ \<Rightarrow> False, sh\<lparr>cv_atomic := at\<rparr>))"

section \<open>Loops and places\<close>

record cv_loop =
  lp_f :: "u8 \<Rightarrow> cv_decision res"
  lp_wake :: cv_wake
  lp_backoff :: bool

text \<open>The result of a loop is \<open>Inr\<close> for \<open>Ok\<close> and \<open>Inl\<close> for \<open>Err\<close>, with a state.\<close>

datatype cv_pc =
    Cv_Idle
  | Cv_Load cv_loop back_off                         \<comment> \<open>before the load\<close>
  | Cv_Cas cv_loop back_off ptr_state u8             \<comment> \<open>before \<open>compare_exchange_weak(cur, new)\<close> of an update\<close>
  | Cv_Enqueue cv_loop back_off ptr_state usize      \<comment> \<open>before the exchange that appends the node\<close>
  | Cv_Parked cv_loop back_off usize                 \<comment> \<open>before \<open>node.ready.load\<close>\<close>
  | Cv_Swap u8                                       \<comment> \<open>\<open>set\<close>, before its \<open>swap\<close>\<close>
  | Cv_Walk rust_ptr u8                              \<comment> \<open>waking, before \<open>node.as_ref()\<close> and the reads of the node\<close>
  | Cv_Ready rust_ptr nat rust_ptr u8                \<comment> \<open>waking, before \<open>ready.store(true)\<close>\<close>
  | Cv_Unpark nat rust_ptr u8                        \<comment> \<open>waking, before \<open>unpark\<close>\<close>
  | Cv_Done "u8 + u8"

text \<open>What an update puts into the word: the nodes stay, or all of them are taken.\<close>

definition cv_updated :: "cv_wake \<Rightarrow> ptr_state \<Rightarrow> u8 \<Rightarrow> ptr_state" where
  "cv_updated wake cur s =
     (case wake of
        Wake_None \<Rightarrow> ps_with_state cv_align cur (cv_trunc s)
      | Wake_One \<Rightarrow> ps_null_state (cv_trunc s)
      | Wake_All \<Rightarrow> ps_null_state (cv_trunc s))"

text \<open>
  The head of the loop: ask the closure and go to the next access. \<open>addr\<close> is where a node would be
  placed and \<open>thread\<close> is the token \<open>park.unpark_token()\<close>.
\<close>

definition cv_decide :: "(back_off \<Rightarrow> back_off) \<Rightarrow> usize \<Rightarrow> nat \<Rightarrow> cv_loop \<Rightarrow> back_off \<Rightarrow> ptr_state
    \<Rightarrow> cv_shared \<Rightarrow> (cv_pc \<times> cv_shared) res" where
  "cv_decide blocking_wait addr thread lp b cur sh =
     (case lp_f lp (cv_state cur) of
        Inl e \<Rightarrow> Inl e
      | Inr (Cv_Update s) \<Rightarrow> Inr (Cv_Cas lp b cur s, sh)
      | Inr Cv_Wait \<Rightarrow>
          if backoff_should_block b then
            Inr (Cv_Enqueue lp b cur addr, sh\<lparr>cv_nodes := (cv_nodes sh)(addr \<mapsto>
               \<lparr>cn_unpark = thread, cn_next = ps_ptr cv_align cur, cn_ready = False\<rparr>)\<rparr>)
          else Inr (Cv_Load lp (blocking_wait b), sh)
      | Inr Cv_Break \<Rightarrow> Inr (Cv_Done (Inl (cv_state cur)), sh))"

definition cv_free :: "usize \<Rightarrow> cv_shared \<Rightarrow> cv_shared" where
  "cv_free addr sh = sh\<lparr>cv_nodes := (cv_nodes sh)(addr := None)\<rparr>"

text \<open>
  One atomic access. \<open>spurious\<close> makes a weak exchange fail. A thread whose node is ready loads the word
  once more and then leaves the scope of the node; here it leaves the scope first, so its address is
  free for others one access earlier.
\<close>

fun cv_next :: "(back_off \<Rightarrow> back_off) \<Rightarrow> (back_off \<Rightarrow> back_off) \<Rightarrow> usize \<Rightarrow> nat \<Rightarrow> bool \<Rightarrow> cv_pc \<Rightarrow> cv_shared
    \<Rightarrow> (cv_pc \<times> cv_shared) res" where
  "cv_next lfw blw addr thread spurious (Cv_Load lp b) sh =
     cv_decide blw addr thread lp b (aps_load (cv_atomic sh)) sh"
| "cv_next lfw blw addr thread spurious (Cv_Cas lp b cur s) sh =
     (case aps_compare_exchange_weak spurious cur (cv_updated (lp_wake lp) cur s) (cv_atomic sh) of
        (Inr _, at) \<Rightarrow>
          Inr (if lp_wake lp = Wake_None then Cv_Done (Inr (cv_state cur))
               else Cv_Walk (ps_ptr cv_align cur) (cv_state cur), sh\<lparr>cv_atomic := at\<rparr>)
      | (Inl cur', at) \<Rightarrow>
          cv_decide blw addr thread lp (if lp_backoff lp then lfw b else b) cur' (sh\<lparr>cv_atomic := at\<rparr>))"
| "cv_next lfw blw addr thread spurious (Cv_Enqueue lp b cur node) sh =
     (case aps_compare_exchange_weak spurious cur
         (ps_new \<lparr>ptr_prov = Some thread, ptr_addr = node\<rparr> (ps_state cv_align cur)) (cv_atomic sh) of
        (Inr _, at) \<Rightarrow> Inr (Cv_Parked lp b node, sh\<lparr>cv_atomic := at\<rparr>)
      | (Inl cur', at) \<Rightarrow> cv_decide blw addr thread lp b cur' (cv_free node (sh\<lparr>cv_atomic := at\<rparr>)))"
| "cv_next lfw blw addr thread spurious (Cv_Parked lp b node) sh =
     (case cv_nodes sh node of
        None \<Rightarrow> Inl Undefined_behaviour
      | Some n \<Rightarrow> if cn_ready n then Inr (Cv_Load lp b, cv_free node sh) else Inr (Cv_Parked lp b node, sh))"
| "cv_next lfw blw addr thread spurious (Cv_Swap s) sh =
     (case aps_swap (ps_null_state (cv_trunc s)) (cv_atomic sh) of
        (cur, at) \<Rightarrow> Inr (Cv_Walk (ps_ptr cv_align cur) (cv_state cur), sh\<lparr>cv_atomic := at\<rparr>))"
| "cv_next lfw blw addr thread spurious (Cv_Walk p r) sh =
     (if ptr_addr p = 0 then Inr (Cv_Done (Inr r), sh)
      else case cv_nodes sh (ptr_addr p) of
          None \<Rightarrow> Inl Undefined_behaviour
        | Some n \<Rightarrow> Inr (Cv_Ready p (cn_unpark n) (cn_next n) r, sh))"
| "cv_next lfw blw addr thread spurious (Cv_Ready p token nx r) sh =
     (case cv_nodes sh (ptr_addr p) of
        None \<Rightarrow> Inl Undefined_behaviour
      | Some n \<Rightarrow> Inr (Cv_Unpark token nx r,
          sh\<lparr>cv_nodes := (cv_nodes sh)(ptr_addr p \<mapsto> n\<lparr>cn_ready := True\<rparr>)\<rparr>))"
| "cv_next lfw blw addr thread spurious (Cv_Unpark token nx r) sh =
     Inr (Cv_Walk nx r, sh\<lparr>cv_unparks := cv_unparks sh @ [token]\<rparr>)"
| "cv_next lfw blw addr thread spurious Cv_Idle sh = Inr (Cv_Idle, sh)"
| "cv_next lfw blw addr thread spurious (Cv_Done r) sh = Inr (Cv_Done r, sh)"

section \<open>Calls\<close>

text \<open>
  Where each method starts; the loop itself is \<open>cv_next\<close>. The methods without \<open>_park\<close> in their name
  differ in the parking primitive, \<open>T::default_park()\<close>, which returns at any time like every other. What
  is \<open>unreachable!\<close> is the fault of a panic.
\<close>

definition cv_update_wait_break_park :: "cv_wake \<Rightarrow> (u8 \<Rightarrow> cv_decision res) \<Rightarrow> cv_pc" where
  "cv_update_wait_break_park wake f = Cv_Load \<lparr>lp_f = f, lp_wake = wake, lp_backoff = True\<rparr> backoff_new"

definition cv_update_wait_park :: "cv_wake \<Rightarrow> (u8 \<Rightarrow> u8 option res) \<Rightarrow> cv_pc" where
  "cv_update_wait_park wake f = cv_update_wait_break_park wake
       (\<lambda>s. bind_res (f s) (\<lambda>r. Inr (case r of Some s' \<Rightarrow> Cv_Update s' | None \<Rightarrow> Cv_Wait)))"

definition cv_wait_park :: "(u8 \<Rightarrow> bool res) \<Rightarrow> cv_pc" where
  "cv_wait_park stop = cv_update_wait_break_park Wake_None
       (\<lambda>s. bind_res (stop s) (\<lambda>b. Inr (if b then Cv_Break else Cv_Wait)))"

definition cv_wait_for_park :: "u8 \<Rightarrow> cv_pc" where
  "cv_wait_for_park target = cv_wait_park (\<lambda>s. Inr (s = target))"

definition cv_update_wait_break :: "cv_wake \<Rightarrow> (u8 \<Rightarrow> cv_decision res) \<Rightarrow> cv_pc" where
  "cv_update_wait_break wake f = cv_update_wait_break_park wake f"

definition cv_update_wait :: "cv_wake \<Rightarrow> (u8 \<Rightarrow> u8 option res) \<Rightarrow> cv_pc" where
  "cv_update_wait wake f = cv_update_wait_park wake f"

definition cv_wait :: "(u8 \<Rightarrow> bool res) \<Rightarrow> cv_pc" where
  "cv_wait stop = cv_wait_park stop"

definition cv_wait_for :: "u8 \<Rightarrow> cv_pc" where
  "cv_wait_for target = cv_wait_for_park target"

definition cv_break_decision :: "(u8 \<Rightarrow> u8 option res) \<Rightarrow> u8 \<Rightarrow> cv_decision res" where
  "cv_break_decision f s = bind_res (f s) (\<lambda>r. Inr (case r of Some s' \<Rightarrow> Cv_Update s' | None \<Rightarrow> Cv_Break))"

definition cv_update_break_wake :: "cv_wake \<Rightarrow> (u8 \<Rightarrow> u8 option res) \<Rightarrow> cv_pc" where
  "cv_update_break_wake wake f =
     Cv_Load \<lparr>lp_f = (\<lambda>s. bind_res (cv_break_decision f s) (\<lambda>d.
         if d \<noteq> Cv_Break \<and> wake = Wake_None then Inl Explicit_panic else Inr d)),
       lp_wake = wake, lp_backoff = False\<rparr> backoff_new"

definition cv_update_break_no_wake :: "(u8 \<Rightarrow> u8 option res) \<Rightarrow> cv_pc" where
  "cv_update_break_no_wake f =
     Cv_Load \<lparr>lp_f = cv_break_decision f, lp_wake = Wake_None, lp_backoff = False\<rparr> backoff_new"

definition cv_update_break :: "cv_wake \<Rightarrow> (u8 \<Rightarrow> u8 option res) \<Rightarrow> cv_pc" where
  "cv_update_break wake f =
     (if wake = Wake_None then cv_update_break_no_wake f else cv_update_break_wake wake f)"

definition cv_update :: "cv_wake \<Rightarrow> (u8 \<Rightarrow> u8 res) \<Rightarrow> cv_pc" where
  "cv_update wake f = cv_update_break wake (\<lambda>s. bind_res (f s) (\<lambda>s'. Inr (Some s')))"

definition cv_update_no_wake :: "(u8 \<Rightarrow> u8 res) \<Rightarrow> cv_pc" where
  "cv_update_no_wake f = cv_update_break_no_wake (\<lambda>s. bind_res (f s) (\<lambda>s'. Inr (Some s')))"

definition cv_set :: "cv_wake \<Rightarrow> u8 \<Rightarrow> cv_pc" where
  "cv_set wake s = (if wake = Wake_None then cv_update_no_wake (\<lambda>_. Inr s) else Cv_Swap s)"

definition cv_set_no_wake :: "u8 \<Rightarrow> cv_pc" where
  "cv_set_no_wake s = cv_update_no_wake (\<lambda>_. Inr s)"

definition cv_result_ok :: "u8 + u8 \<Rightarrow> u8 res" where
  "cv_result_ok r = (case r of Inr s \<Rightarrow> Inr s | Inl _ \<Rightarrow> Inl Explicit_panic)"

definition cv_result_err :: "u8 + u8 \<Rightarrow> u8 res" where
  "cv_result_err r = (case r of Inr _ \<Rightarrow> Inl Explicit_panic | Inl s \<Rightarrow> Inr s)"

section \<open>Any number of threads\<close>

record cv_system =
  cs_shared :: cv_shared
  cs_pcs :: "cv_pc list"

definition cv_init :: "cv_system \<Rightarrow> bool" where
  "cv_init s \<longleftrightarrow> (\<exists>st. cs_shared s = cv_new st) \<and> set (cs_pcs s) \<subseteq> {Cv_Idle}"

text \<open>An address at which a node can be placed.\<close>

definition cv_fresh :: "usize \<Rightarrow> cv_shared \<Rightarrow> bool" where
  "cv_fresh addr sh \<longleftrightarrow> addr \<noteq> 0 \<and> addr AND state_mask cv_align = 0 \<and> cv_nodes sh addr = None"

text \<open>The node on the stack of a thread, and the memory when the thread has left its scope.\<close>

fun cv_node_of :: "cv_pc \<Rightarrow> usize option" where
  "cv_node_of (Cv_Enqueue _ _ _ a) = Some a"
| "cv_node_of (Cv_Parked _ _ a) = Some a"
| "cv_node_of _ = None"

definition cv_leave :: "cv_pc \<Rightarrow> cv_shared \<Rightarrow> cv_shared" where
  "cv_leave pc sh = (case cv_node_of pc of Some a \<Rightarrow> cv_free a sh | None \<Rightarrow> sh)"

text \<open>A call starts a loop with any closure, or a \<open>set\<close>; \<open>optimistic_update\<close> is a single
  access. A new node may take the place of the one the thread has just left. A closure that panics
  unwinds the call.\<close>

inductive cv_step :: "(back_off \<Rightarrow> back_off) \<Rightarrow> (back_off \<Rightarrow> back_off) \<Rightarrow> cv_system \<Rightarrow> cv_system \<Rightarrow> bool"
  for lfw blw where
  cv_starts: "i < length (cs_pcs s) \<Longrightarrow> cs_pcs s ! i = Cv_Idle \<Longrightarrow> pc = Cv_Load lp backoff_new \<or> pc = Cv_Swap st \<Longrightarrow>
    cv_step lfw blw s (s\<lparr>cs_pcs := (cs_pcs s)[i := pc]\<rparr>)"
| cv_optimistic: "i < length (cs_pcs s) \<Longrightarrow> cs_pcs s ! i = Cv_Idle \<Longrightarrow>
    cv_optimistic_update old new (cs_shared s) = (ok, sh) \<Longrightarrow> cv_step lfw blw s (s\<lparr>cs_shared := sh\<rparr>)"
| cv_runs: "i < length (cs_pcs s) \<Longrightarrow> cv_fresh addr (cv_leave (cs_pcs s ! i) (cs_shared s)) \<Longrightarrow>
    cv_next lfw blw addr i spurious (cs_pcs s ! i) (cs_shared s) = Inr (pc, sh) \<Longrightarrow>
    cv_step lfw blw s (s\<lparr>cs_shared := sh, cs_pcs := (cs_pcs s)[i := pc]\<rparr>)"
| cv_panics: "i < length (cs_pcs s) \<Longrightarrow>
    cv_next lfw blw addr i spurious (cs_pcs s ! i) (cs_shared s) = Inl e \<Longrightarrow> e \<noteq> Undefined_behaviour \<Longrightarrow>
    cv_step lfw blw s (s\<lparr>cs_shared := cv_leave (cs_pcs s ! i) (cs_shared s), cs_pcs := (cs_pcs s)[i := Cv_Idle]\<rparr>)"
| cv_returns: "i < length (cs_pcs s) \<Longrightarrow> cs_pcs s ! i = Cv_Done r \<Longrightarrow>
    cv_step lfw blw s (s\<lparr>cs_pcs := (cs_pcs s)[i := Cv_Idle]\<rparr>)"

inductive_cases cv_step_cases: "cv_step lfw blw s t"

end
