(* ===== verification/Cond_Var_Nodes.thy ===== *)
theory Cond_Var_Nodes
  imports Cond_Var
begin

text \<open>
  The memory safety of \<open>src/src/condvar.rs\<close>: where the nodes of the waiting threads are. The invariant
  \<open>cv_inv\<close> says that the list on the word and the lists that the wakers have taken are disjoint and
  hold exactly the nodes of the threads that wait. It is kept by every step of any number of threads,
  so no access reaches a node that is gone, and no waiting thread is forgotten.
\<close>

section \<open>Where the nodes are\<close>

definition cv_head :: "cv_shared \<Rightarrow> usize" where
  "cv_head sh = ptr_addr (ps_ptr cv_align (aps_load (cv_atomic sh)))"

text \<open>The nodes reachable from an address: alive, not ready, ending in null.\<close>

fun cv_chain :: "(usize \<Rightarrow> cv_node option) \<Rightarrow> usize \<Rightarrow> usize list \<Rightarrow> bool" where
  "cv_chain m p [] = (p = 0)"
| "cv_chain m p (x # xs) = (p = x \<and> x \<noteq> 0 \<and>
     (\<exists>n. m x = Some n \<and> \<not> cn_ready n \<and> cv_chain m (ptr_addr (cn_next n)) xs))"

text \<open>The nodes a thread has still to wake.\<close>

fun cv_todo :: "(usize \<Rightarrow> cv_node option) \<Rightarrow> cv_pc \<Rightarrow> usize list \<Rightarrow> bool" where
  "cv_todo m (Cv_Walk p r) w = cv_chain m (ptr_addr p) w"
| "cv_todo m (Cv_Ready p token nx r) w =
     (\<exists>n w'. w = ptr_addr p # w' \<and> cv_chain m (ptr_addr p) w \<and> m (ptr_addr p) = Some n \<and>
        cn_next n = nx \<and> cn_unpark n = token)"
| "cv_todo m (Cv_Unpark token nx r) w = cv_chain m (ptr_addr nx) w"
| "cv_todo m _ w = (w = [])"

text \<open>Whether a thread has put its node into the list.\<close>

fun cv_parked :: "cv_pc \<Rightarrow> usize \<Rightarrow> bool" where
  "cv_parked (Cv_Parked _ _ a) a' = (a = a')"
| "cv_parked _ a' = False"

fun cv_enqueue_ok :: "(usize \<Rightarrow> cv_node option) \<Rightarrow> cv_pc \<Rightarrow> bool" where
  "cv_enqueue_ok m (Cv_Enqueue lp b cur a) =
     (\<exists>n. m a = Some n \<and> \<not> cn_ready n \<and> cn_next n = ps_ptr cv_align cur)"
| "cv_enqueue_ok m _ = True"

definition cv_waiting :: "(usize \<Rightarrow> cv_node option) \<Rightarrow> cv_pc list \<Rightarrow> usize \<Rightarrow> bool" where
  "cv_waiting m pcs a \<longleftrightarrow> (\<exists>n. m a = Some n \<and> \<not> cn_ready n \<and> cv_parked (pcs ! cn_unpark n) a)"

text \<open>
  The invariant, for the list \<open>xs\<close> that hangs off the word and the lists \<open>ws i\<close> that the wakers have
  taken: the lists are disjoint, they hold exactly the nodes of the threads that wait, every live node
  is the node of the thread it names, and every thread with a node has it alive.
\<close>

definition cv_lists :: "(usize \<Rightarrow> cv_node option) \<Rightarrow> cv_pc list \<Rightarrow> usize list \<Rightarrow> (nat \<Rightarrow> usize list) \<Rightarrow> bool" where
  "cv_lists m pcs xs ws \<longleftrightarrow> distinct xs \<and>
     (\<forall>i < length pcs. cv_todo m (pcs ! i) (ws i) \<and> distinct (ws i) \<and> set xs \<inter> set (ws i) = {}) \<and>
     (\<forall>i < length pcs. \<forall>j < length pcs. i \<noteq> j \<longrightarrow> set (ws i) \<inter> set (ws j) = {}) \<and>
     (\<forall>a. a \<in> set xs \<or> (\<exists>i < length pcs. a \<in> set (ws i)) \<longleftrightarrow> cv_waiting m pcs a)"

definition cv_owners :: "(usize \<Rightarrow> cv_node option) \<Rightarrow> cv_pc list \<Rightarrow> bool" where
  "cv_owners m pcs \<longleftrightarrow>
     (\<forall>i < length pcs. cv_enqueue_ok m (pcs ! i) \<and>
        (\<forall>a. cv_node_of (pcs ! i) = Some a \<longrightarrow> (\<exists>n. m a = Some n \<and> cn_unpark n = i))) \<and>
     (\<forall>a n. m a = Some n \<longrightarrow> a \<noteq> 0 \<and> a AND state_mask cv_align = 0 \<and> cn_unpark n < length pcs \<and>
        cv_node_of (pcs ! cn_unpark n) = Some a)"

definition cv_inv :: "cv_system \<Rightarrow> bool" where
  "cv_inv s \<longleftrightarrow> cv_owners (cv_nodes (cs_shared s)) (cs_pcs s) \<and>
     (\<exists>xs ws. cv_chain (cv_nodes (cs_shared s)) (cv_head (cs_shared s)) xs \<and>
        cv_lists (cv_nodes (cs_shared s)) (cs_pcs s) xs ws)"

lemma cv_chain_cong: "(\<And>x. x \<in> set xs \<Longrightarrow> m x = m' x) \<Longrightarrow> cv_chain m p xs \<longleftrightarrow> cv_chain m' p xs"
  by (induction xs arbitrary: p) auto

lemma cv_todo_cong: "(\<And>x. x \<in> set w \<Longrightarrow> m x = m' x) \<Longrightarrow> cv_todo m pc w \<longleftrightarrow> cv_todo m' pc w"
  by (cases pc) (auto cong: cv_chain_cong)

text \<open>A place with no node and nobody to wake.\<close>

definition cv_plain :: "cv_pc \<Rightarrow> bool" where
  "cv_plain pc \<longleftrightarrow> cv_node_of pc = None \<and> (\<forall>m w. cv_todo m pc w \<longleftrightarrow> w = []) \<and> (\<forall>m. cv_enqueue_ok m pc)"

lemma cv_plain_simps [simp]:
  "cv_plain Cv_Idle" "cv_plain (Cv_Load lp b)" "cv_plain (Cv_Cas lp b cur s)" "cv_plain (Cv_Swap st)"
  "cv_plain (Cv_Done r)"
  by (simp_all add: cv_plain_def)

lemma cv_not_parked: "cv_node_of pc = None \<Longrightarrow> \<not> cv_parked pc a"
  by (cases pc) simp_all

lemma cv_parked_node: "cv_parked pc a \<Longrightarrow> cv_node_of pc = Some a"
  by (cases pc) simp_all

section \<open>Kinds of steps\<close>

text \<open>The thread moves on with the same node and the same nodes to wake.\<close>

lemma cv_lists_quiet:
  assumes "cv_lists m pcs xs ws" and "i < length pcs" and "cv_todo m pc (ws i)"
    and "\<And>a. cv_parked pc a = cv_parked (pcs ! i) a"
  shows "cv_lists m (pcs[i := pc]) xs ws"
proof -
  have "cv_waiting m (pcs[i := pc]) a = cv_waiting m pcs a" for a
    using assms(2,4) by (auto simp: cv_waiting_def nth_list_update split: if_splits)
  with assms show ?thesis by (simp add: cv_lists_def nth_list_update)
qed

lemma cv_owners_quiet:
  assumes "cv_owners m pcs" and "i < length pcs" and "cv_enqueue_ok m pc"
    and "cv_node_of pc = cv_node_of (pcs ! i)"
  shows "cv_owners m (pcs[i := pc])"
  using assms by (auto simp: cv_owners_def nth_list_update)

lemma cv_inv_quiet:
  assumes "cv_inv s" and "i < length (cs_pcs s)"
    and "cv_plain pc" and "cv_plain (cs_pcs s ! i)"
    and "cv_nodes sh = cv_nodes (cs_shared s)" and "cv_head sh = cv_head (cs_shared s)"
  shows "cv_inv (s\<lparr>cs_shared := sh, cs_pcs := (cs_pcs s)[i := pc]\<rparr>)"
proof -
  obtain xs ws where inv: "cv_owners (cv_nodes (cs_shared s)) (cs_pcs s)"
    "cv_chain (cv_nodes (cs_shared s)) (cv_head (cs_shared s)) xs"
    "cv_lists (cv_nodes (cs_shared s)) (cs_pcs s) xs ws" using assms(1) unfolding cv_inv_def by blast
  have "cv_todo (cv_nodes (cs_shared s)) pc (ws i)"
    using inv(3) assms(2-4) by (auto simp: cv_lists_def cv_plain_def)
  then have "cv_lists (cv_nodes (cs_shared s)) ((cs_pcs s)[i := pc]) xs ws"
    using cv_lists_quiet[OF inv(3) assms(2)] assms(3,4) by (auto simp: cv_plain_def cv_not_parked)
  moreover have "cv_owners (cv_nodes (cs_shared s)) ((cs_pcs s)[i := pc])"
    using cv_owners_quiet[OF inv(1) assms(2)] assms(3,4) by (auto simp: cv_plain_def)
  ultimately show ?thesis using inv(2) assms(5,6) by (auto simp: cv_inv_def)
qed

text \<open>A node is placed at a fresh address.\<close>

lemma cv_inv_alloc:
  assumes inv: "cv_inv s" and i: "i < length (cs_pcs s)" and plain: "cv_plain (cs_pcs s ! i)"
    and fresh: "cv_fresh addr (cs_shared s)"
    and sh: "sh = (cs_shared s)\<lparr>cv_nodes := (cv_nodes (cs_shared s))(addr \<mapsto>
      \<lparr>cn_unpark = i, cn_next = ps_ptr cv_align cur, cn_ready = False\<rparr>)\<rparr>"
  shows "cv_inv (s\<lparr>cs_shared := sh, cs_pcs := (cs_pcs s)[i := Cv_Enqueue lp b cur addr]\<rparr>)"
proof -
  let ?m = "cv_nodes (cs_shared s)" and ?m' = "cv_nodes sh" and ?pcs = "cs_pcs s"
  let ?pcs' = "?pcs[i := Cv_Enqueue lp b cur addr]"
  obtain xs ws where own: "cv_owners ?m ?pcs" and ch: "cv_chain ?m (cv_head (cs_shared s)) xs"
    and li: "cv_lists ?m ?pcs xs ws" using inv unfolding cv_inv_def by blast
  have none: "?m addr = None" using fresh by (simp add: cv_fresh_def)
  have other: "?m' a = ?m a" if "a \<noteq> addr" for a using that by (simp add: sh)
  have listed: "a \<noteq> addr" if "a \<in> set xs \<or> (\<exists>j < length ?pcs. a \<in> set (ws j))" for a
    using that li none by (auto simp: cv_lists_def cv_waiting_def)
  have wait: "cv_waiting ?m' ?pcs' a = cv_waiting ?m ?pcs a" for a
  proof -
    have "cv_parked (?pcs' ! j) a = cv_parked (?pcs ! j) a" for j
      using i cv_not_parked[of "?pcs ! i"] plain by (cases "j = i") (auto simp: cv_plain_def)
    moreover have "\<not> cv_parked (?pcs' ! i) a" using i by simp
    ultimately show ?thesis using none by (cases "a = addr") (auto simp: cv_waiting_def other, force simp: sh)
  qed
  have "cv_chain ?m' (cv_head sh) xs"
    using ch cv_chain_cong[of xs ?m' ?m] listed other by (simp add: sh cv_head_def)
  moreover have "cv_todo ?m' (?pcs' ! j) (ws j)" if "j < length ?pcs" for j
  proof (cases "j = i")
    case True
    with li i plain show ?thesis by (auto simp: cv_lists_def cv_plain_def)
  next
    case False
    have "cv_todo ?m (?pcs ! j) (ws j)" using li that by (simp add: cv_lists_def)
    with False show ?thesis using cv_todo_cong[of "ws j" ?m' ?m] listed other that by auto
  qed
  then have "cv_lists ?m' ?pcs' xs ws" using li wait by (simp add: cv_lists_def)
  moreover have "cv_owners ?m' ?pcs'"
  proof -
    have "a \<noteq> addr" if "j < length ?pcs" "cv_node_of (?pcs ! j) = Some a" for j a
      using own that none by (auto simp: cv_owners_def)
    then have "cv_enqueue_ok ?m' (?pcs ! j)" if "j < length ?pcs" for j
      using own that other by (cases "?pcs ! j") (force simp: cv_owners_def)+
    with own plain fresh none i show ?thesis
      by (auto simp: cv_owners_def sh nth_list_update cv_fresh_def cv_plain_def)
  qed
  ultimately show ?thesis by (auto simp: cv_inv_def)
qed

lemma cv_invE:
  assumes "cv_inv s"
  obtains xs ws where "cv_owners (cv_nodes (cs_shared s)) (cs_pcs s)"
    "cv_chain (cv_nodes (cs_shared s)) (cv_head (cs_shared s)) xs"
    "cv_lists (cv_nodes (cs_shared s)) (cs_pcs s) xs ws"
  using assms unfolding cv_inv_def by blast

lemma cv_invI:
  "cv_owners (cv_nodes (cs_shared s)) (cs_pcs s) \<Longrightarrow> cv_chain (cv_nodes (cs_shared s)) (cv_head (cs_shared s)) xs \<Longrightarrow>
    cv_lists (cv_nodes (cs_shared s)) (cs_pcs s) xs ws \<Longrightarrow> cv_inv s"
  unfolding cv_inv_def by blast

text \<open>A live node is the node of the one thread it names.\<close>

lemma cv_owner_iff:
  assumes "cv_owners m pcs" and "i < length pcs" and "cv_node_of (pcs ! i) = Some a" and "m x = Some n"
  shows "cn_unpark n = i \<longleftrightarrow> x = a"
proof
  assume "cn_unpark n = i"
  with assms show "x = a" unfolding cv_owners_def by (metis option.inject)
next
  assume "x = a"
  with assms show "cn_unpark n = i" unfolding cv_owners_def by (metis option.inject)
qed

text \<open>Changing one node that is in no list keeps the lists.\<close>

lemma cv_lists_elsewhere:
  assumes li: "cv_lists m pcs xs ws" and a: "\<not> cv_waiting m pcs a" and other: "\<And>x. x \<noteq> a \<Longrightarrow> m' x = m x"
  shows "cv_chain m' p xs = cv_chain m p xs" "j < length pcs \<Longrightarrow> cv_todo m' pc (ws j) = cv_todo m pc (ws j)"
proof -
  have listed: "x \<noteq> a" if "x \<in> set xs \<or> (\<exists>j < length pcs. x \<in> set (ws j))" for x
    using that li a by (auto simp: cv_lists_def)
  show "cv_chain m' p xs = cv_chain m p xs" using listed other by (intro cv_chain_cong) auto
  show "j < length pcs \<Longrightarrow> cv_todo m' pc (ws j) = cv_todo m pc (ws j)"
    using listed other by (intro cv_todo_cong) blast
qed

text \<open>A thread leaves the scope of a node that is in no list.\<close>

lemma cv_inv_free:
  assumes inv: "cv_inv s" and i: "i < length (cs_pcs s)" and node: "cv_node_of (cs_pcs s ! i) = Some a"
    and unlisted: "\<not> cv_waiting (cv_nodes (cs_shared s)) (cs_pcs s) a" and plain: "cv_plain pc"
    and todo: "cv_todo (cv_nodes (cs_shared s)) (cs_pcs s ! i) = (\<lambda>w. w = [])"
  shows "cv_inv (s\<lparr>cs_shared := cv_free a (cs_shared s), cs_pcs := (cs_pcs s)[i := pc]\<rparr>)"
proof -
  let ?m = "cv_nodes (cs_shared s)" and ?pcs = "cs_pcs s"
  let ?m' = "?m(a := None)" and ?pcs' = "?pcs[i := pc]"
  obtain xs ws where own: "cv_owners ?m ?pcs" and ch: "cv_chain ?m (cv_head (cs_shared s)) xs"
    and li: "cv_lists ?m ?pcs xs ws" using inv by (rule cv_invE)
  have mine: "\<exists>n. ?m a = Some n \<and> cn_unpark n = i" using own i node by (auto simp: cv_owners_def)
  note owner = cv_owner_iff[OF own i node]
  note elsewhere = cv_lists_elsewhere[OF li unlisted, of ?m']
  have "cv_chain ?m' (cv_head (cs_shared s)) xs" using ch elsewhere(1) by simp
  moreover have "cv_waiting ?m' ?pcs' x = cv_waiting ?m ?pcs x" for x
  proof (cases "x = a")
    case True
    with unlisted show ?thesis by (simp add: cv_waiting_def)
  next
    case False
    then have "?pcs' ! cn_unpark n = ?pcs ! cn_unpark n" if "?m x = Some n" for n
      using owner[OF that] by simp
    with False show ?thesis by (auto simp: cv_waiting_def)
  qed
  moreover have "cv_todo ?m' (?pcs' ! j) (ws j)" if "j < length ?pcs" for j
  proof (cases "j = i")
    case True
    with li i todo have "ws j = []" by (auto simp: cv_lists_def)
    with True i plain show ?thesis by (simp add: cv_plain_def)
  next
    case False
    with li that elsewhere(2)[OF _ that] show ?thesis by (simp add: cv_lists_def)
  qed
  ultimately have "cv_chain ?m' (cv_head (cs_shared s)) xs" "cv_lists ?m' ?pcs' xs ws"
    using li by (simp_all add: cv_lists_def)
  moreover have "cv_owners ?m' ?pcs'"
  proof -
    have "cv_node_of (?pcs ! j) \<noteq> Some a" if "j < length ?pcs" "j \<noteq> i" for j
      using own that mine by (auto simp: cv_owners_def)
    then have "cv_enqueue_ok ?m' (?pcs ! j)" if "j < length ?pcs" "j \<noteq> i" for j
      using own that by (cases "?pcs ! j") (force simp: cv_owners_def)+
    then show ?thesis
      using own i plain owner \<open>\<And>j. j < length ?pcs \<Longrightarrow> j \<noteq> i \<Longrightarrow> cv_node_of (?pcs ! j) \<noteq> Some a\<close>
      by (auto simp: cv_owners_def nth_list_update cv_plain_def)
  qed
  ultimately show ?thesis by (intro cv_invI[of _ xs ws]) (simp_all add: cv_free_def cv_head_def)
qed

text \<open>A node joins the list.\<close>

lemma cv_inv_enqueue:
  assumes inv: "cv_inv s" and i: "i < length (cs_pcs s)" and pc: "cs_pcs s ! i = Cv_Enqueue lp b cur a"
    and cur: "ptr_addr (ps_ptr cv_align cur) = cv_head (cs_shared s)"
    and sh: "cv_nodes sh = cv_nodes (cs_shared s)" "cv_head sh = a"
  shows "cv_inv (s\<lparr>cs_shared := sh, cs_pcs := (cs_pcs s)[i := Cv_Parked lp b a]\<rparr>)"
proof -
  let ?m = "cv_nodes (cs_shared s)" and ?pcs = "cs_pcs s"
  let ?pcs' = "?pcs[i := Cv_Parked lp b a]"
  obtain xs ws where own: "cv_owners ?m ?pcs" and ch: "cv_chain ?m (cv_head (cs_shared s)) xs"
    and li: "cv_lists ?m ?pcs xs ws" using inv by (rule cv_invE)
  obtain n where n: "?m a = Some n" "cn_unpark n = i" "\<not> cn_ready n" "cn_next n = ps_ptr cv_align cur" "a \<noteq> 0"
    using own i pc by (force simp: cv_owners_def)
  have "\<not> cv_waiting ?m ?pcs a" using n pc by (auto simp: cv_waiting_def)
  then have fresh: "a \<notin> set xs" "\<forall>j < length ?pcs. a \<notin> set (ws j)" using li by (auto simp: cv_lists_def)
  have "cv_waiting ?m ?pcs' x \<longleftrightarrow> x = a \<or> cv_waiting ?m ?pcs x" for x
  proof -
    have "cn_unpark n' = i \<longleftrightarrow> x = a" if "?m x = Some n'" for n'
      using cv_owner_iff[OF own i _ that] pc by simp
    then have "x \<noteq> a \<Longrightarrow> cv_waiting ?m ?pcs' x \<longleftrightarrow> cv_waiting ?m ?pcs x"
      by (cases "?m x") (simp_all add: cv_waiting_def)
    moreover have "cv_waiting ?m ?pcs' a" using i n by (simp add: cv_waiting_def)
    ultimately show ?thesis by blast
  qed
  moreover have "cv_todo ?m (?pcs' ! j) (ws j)" if "j < length ?pcs" for j
    using li that i pc by (auto simp: cv_lists_def nth_list_update)
  ultimately have "cv_lists ?m ?pcs' (a # xs) ws" using li fresh by (auto simp: cv_lists_def)
  moreover have "cv_chain ?m (cv_head sh) (a # xs)" using ch n cur sh(2) by simp
  moreover have "cv_owners ?m ?pcs'" using cv_owners_quiet[OF own i, of "Cv_Parked lp b a"] pc by simp
  ultimately show ?thesis by (intro cv_invI[of _ "a # xs" ws]) (simp_all add: sh(1))
qed

text \<open>A thread takes the whole list to wake it.\<close>

lemma cv_inv_take:
  assumes inv: "cv_inv s" and i: "i < length (cs_pcs s)" and plain: "cv_plain (cs_pcs s ! i)"
    and p: "ptr_addr p = cv_head (cs_shared s)"
    and sh: "cv_nodes sh = cv_nodes (cs_shared s)" "cv_head sh = 0"
  shows "cv_inv (s\<lparr>cs_shared := sh, cs_pcs := (cs_pcs s)[i := Cv_Walk p r]\<rparr>)"
proof -
  let ?m = "cv_nodes (cs_shared s)" and ?pcs = "cs_pcs s"
  let ?pcs' = "?pcs[i := Cv_Walk p r]"
  obtain xs ws where own: "cv_owners ?m ?pcs" and ch: "cv_chain ?m (cv_head (cs_shared s)) xs"
    and li: "cv_lists ?m ?pcs xs ws" using inv by (rule cv_invE)
  have empty: "ws i = []" using li i plain by (auto simp: cv_lists_def cv_plain_def)
  have np: "\<not> cv_parked (?pcs ! i) x" for x using plain by (simp add: cv_plain_def cv_not_parked)
  have "cv_parked (?pcs' ! j) x = cv_parked (?pcs ! j) x" for j x
    using i np by (cases "j = i") simp_all
  then have "cv_waiting ?m ?pcs' x = cv_waiting ?m ?pcs x" for x by (simp add: cv_waiting_def)
  moreover have "(\<exists>j < length ?pcs. x \<in> set ((ws(i := xs)) j)) \<longleftrightarrow>
      x \<in> set xs \<or> (\<exists>j < length ?pcs. x \<in> set (ws j))" for x
  proof
    assume "\<exists>j < length ?pcs. x \<in> set ((ws(i := xs)) j)"
    then show "x \<in> set xs \<or> (\<exists>j < length ?pcs. x \<in> set (ws j))" by (metis fun_upd_apply)
  next
    assume "x \<in> set xs \<or> (\<exists>j < length ?pcs. x \<in> set (ws j))"
    then show "\<exists>j < length ?pcs. x \<in> set ((ws(i := xs)) j)"
    proof
      assume "x \<in> set xs"
      with i show ?thesis by (intro exI[of _ i]) simp
    next
      assume "\<exists>j < length ?pcs. x \<in> set (ws j)"
      then obtain j where "j < length ?pcs" "x \<in> set (ws j)" by blast
      moreover with empty have "j \<noteq> i" by auto
      ultimately show ?thesis by (intro exI[of _ j]) simp
    qed
  qed
  ultimately have "cv_lists ?m ?pcs' [] (ws(i := xs))"
    using li ch p i unfolding cv_lists_def by (auto simp: nth_list_update)
  moreover have "cv_owners ?m ?pcs'"
    using cv_owners_quiet[OF own i, of "Cv_Walk p r"] plain by (simp add: cv_plain_def)
  ultimately show ?thesis by (intro cv_invI[of _ "[]" "ws(i := xs)"]) (simp_all add: sh)
qed

text \<open>A waker reads a node, is done with one, or finds the end of its list.\<close>

lemma cv_inv_walk:
  assumes inv: "cv_inv s" and i: "i < length (cs_pcs s)"
    and todo: "\<And>w. cv_todo (cv_nodes (cs_shared s)) (cs_pcs s ! i) w \<Longrightarrow> cv_todo (cv_nodes (cs_shared s)) pc w"
    and node: "cv_node_of pc = None" "cv_node_of (cs_pcs s ! i) = None" "\<And>m. cv_enqueue_ok m pc"
    and sh: "cv_nodes sh = cv_nodes (cs_shared s)" "cv_head sh = cv_head (cs_shared s)"
  shows "cv_inv (s\<lparr>cs_shared := sh, cs_pcs := (cs_pcs s)[i := pc]\<rparr>)"
proof -
  obtain xs ws where own: "cv_owners (cv_nodes (cs_shared s)) (cs_pcs s)"
    and ch: "cv_chain (cv_nodes (cs_shared s)) (cv_head (cs_shared s)) xs"
    and li: "cv_lists (cv_nodes (cs_shared s)) (cs_pcs s) xs ws" using inv by (rule cv_invE)
  have "cv_todo (cv_nodes (cs_shared s)) (cs_pcs s ! i) (ws i)" using li i by (simp add: cv_lists_def)
  from cv_lists_quiet[OF li i todo[OF this]] cv_owners_quiet[OF own i] node ch sh show ?thesis
    by (intro cv_invI[of _ xs ws]) (simp_all add: cv_not_parked)
qed

text \<open>The lists that are taken get shorter.\<close>

lemma cv_lists_shrink:
  assumes li: "cv_lists m pcs xs ws" and len: "length pcs' = length pcs"
    and sub: "\<And>j. set (ws' j) \<subseteq> set (ws j)" and dist: "\<And>j. distinct (ws j) \<Longrightarrow> distinct (ws' j)"
    and todo: "\<And>j. j < length pcs \<Longrightarrow> cv_todo m' (pcs' ! j) (ws' j)"
    and cover: "\<And>a. (a \<in> set xs \<or> (\<exists>j < length pcs. a \<in> set (ws' j))) \<longleftrightarrow> cv_waiting m' pcs' a"
  shows "cv_lists m' pcs' xs ws'"
proof -
  have "distinct (ws' j) \<and> set xs \<inter> set (ws' j) = {}" if "j < length pcs" for j
    using li that sub[of j] dist[of j] unfolding cv_lists_def by blast
  moreover have "set (ws' i) \<inter> set (ws' j) = {}" if "i < length pcs" "j < length pcs" "i \<noteq> j" for i j
  proof -
    have "set (ws i) \<inter> set (ws j) = {}" using li that unfolding cv_lists_def by blast
    with sub[of i] sub[of j] show ?thesis by blast
  qed
  moreover have "distinct xs" using li by (simp add: cv_lists_def)
  ultimately show ?thesis using todo cover unfolding cv_lists_def len by blast
qed

text \<open>A waker makes a node ready; from then on the node belongs to its thread alone.\<close>

lemma cv_inv_ready:
  assumes inv: "cv_inv s" and i: "i < length (cs_pcs s)" and pc: "cs_pcs s ! i = Cv_Ready p token nx r"
    and n: "cv_nodes (cs_shared s) (ptr_addr p) = Some n"
    and sh: "cv_nodes sh = (cv_nodes (cs_shared s))(ptr_addr p \<mapsto> n\<lparr>cn_ready := True\<rparr>)"
      "cv_head sh = cv_head (cs_shared s)"
  shows "cv_inv (s\<lparr>cs_shared := sh, cs_pcs := (cs_pcs s)[i := Cv_Unpark token nx r]\<rparr>)"
proof -
  let ?m = "cv_nodes (cs_shared s)" and ?pcs = "cs_pcs s" and ?a = "ptr_addr p"
  let ?m' = "cv_nodes sh" and ?pcs' = "?pcs[i := Cv_Unpark token nx r]"
  obtain xs ws where own: "cv_owners ?m ?pcs" and ch: "cv_chain ?m (cv_head (cs_shared s)) xs"
    and li: "cv_lists ?m ?pcs xs ws" using inv by (rule cv_invE)
  have "cv_todo ?m (Cv_Ready p token nx r) (ws i)" using li i pc by (force simp: cv_lists_def)
  then obtain w where w: "ws i = ?a # w" "cv_chain ?m (ptr_addr nx) w" using n by auto
  have dis: "?a \<notin> set w" "?a \<notin> set xs" "\<And>j. j < length ?pcs \<Longrightarrow> j \<noteq> i \<Longrightarrow> ?a \<notin> set (ws j)"
    using li i w(1) by (auto simp: cv_lists_def)
  have "?a \<in> set (ws i)" using w(1) by simp
  with li i have wait: "cv_waiting ?m ?pcs ?a" unfolding cv_lists_def by blast
  have other: "?m' x = ?m x" if "x \<noteq> ?a" for x using that by (simp add: sh(1))
  have "cv_chain ?m' (cv_head sh) xs"
    using ch sh(2) dis(2) by (subst cv_chain_cong[of xs ?m' ?m]) (auto intro: other)
  moreover have "cv_lists ?m' ?pcs' xs (ws(i := w))"
  proof -
    have todo: "cv_todo ?m' (?pcs' ! j) ((ws(i := w)) j)" if j: "j < length ?pcs" for j
    proof (cases "j = i")
      case True
      have "cv_chain ?m' (ptr_addr nx) w" 
        using w(2) dis(1) by (subst cv_chain_cong[of w ?m' ?m]) (auto intro: other)
      with True i show ?thesis by simp
    next
      case False
      have "cv_todo ?m (?pcs ! j) (ws j)" using li j by (simp add: cv_lists_def)
      then have "cv_todo ?m' (?pcs ! j) (ws j)"
        using dis(3)[OF j False] by (subst cv_todo_cong[of "ws j" ?m' ?m]) (auto intro: other)
      with False show ?thesis by simp
    qed
    have waits: "cv_waiting ?m' ?pcs' x \<longleftrightarrow> x \<noteq> ?a \<and> cv_waiting ?m ?pcs x" for x
    proof -
      have "cv_parked (?pcs' ! j) x = cv_parked (?pcs ! j) x" for j using i pc by (cases "j = i") simp_all
      then show ?thesis by (cases "x = ?a") (auto simp: cv_waiting_def other, force simp: sh(1))
    qed
    have cover: "(x \<in> set xs \<or> (\<exists>j < length ?pcs. x \<in> set ((ws(i := w)) j))) \<longleftrightarrow>
        x \<noteq> ?a \<and> (x \<in> set xs \<or> (\<exists>j < length ?pcs. x \<in> set (ws j)))" for x
    proof (cases "x = ?a")
      case True
      then show ?thesis using dis i by (auto split: if_splits)
    next
      case False
      then have "x \<in> set ((ws(i := w)) j) \<longleftrightarrow> x \<in> set (ws j)" for j using w(1) by simp
      with False show ?thesis by simp
    qed
    show ?thesis
    proof (rule cv_lists_shrink[OF li _ _ _ todo])
      show "\<And>a. (a \<in> set xs \<or> (\<exists>j < length ?pcs. a \<in> set ((ws(i := w)) j))) \<longleftrightarrow> cv_waiting ?m' ?pcs' a"
        unfolding waits cover using li unfolding cv_lists_def by blast
    qed (use w(1) in auto)
  qed
  moreover have "cv_owners ?m' ?pcs'"
  proof -
    have "cv_node_of (?pcs ! cn_unpark n) = Some ?a" "cv_parked (?pcs ! cn_unpark n) ?a"
      using wait n by (auto simp: cv_waiting_def cv_parked_node)
    then have "cv_enqueue_ok ?m' (?pcs ! j)" if "j < length ?pcs" for j
      using own that n by (cases "?pcs ! j") (force simp: cv_owners_def sh(1))+
    moreover have "cn_unpark n' \<noteq> i" if "?m x = Some n'" for x n'
    proof
      assume "cn_unpark n' = i"
      with own that have "cv_node_of (?pcs ! i) = Some x" by (auto simp: cv_owners_def)
      with pc show False by simp
    qed
    ultimately show ?thesis using own i pc n by (auto simp: cv_owners_def sh(1) nth_list_update)
  qed
  ultimately show ?thesis by (intro cv_invI[of _ xs "ws(i := w)"]) simp_all
qed


section \<open>The steps keep the invariant\<close>

lemma cv_align_mask [simp]: "state_mask cv_align = 255"
  by (simp add: state_mask_def cv_align_def)

lemma cv_trunc_masked [simp]: "cv_trunc s AND 255 = cv_trunc s"
  unfolding cv_trunc_def state_new_truncated_def by (simp add: and.assoc)

lemma cv_head_null [simp]: "ps_ptr cv_align (ps_null_state (cv_trunc s)) = null_mut"
  unfolding ps_null_state_def by (rule ps_new_parts(1)) (simp_all add: null_mut_def)

lemma cv_head_with_state [simp]: "ps_ptr cv_align (ps_with_state cv_align cur (cv_trunc s)) = ps_ptr cv_align cur"
  unfolding ps_with_state_def using ps_ptr_aligned[of cv_align cur] by (intro ps_new_parts(1)) simp_all

lemma ps_raw_id [simp]: "\<lparr>ps_raw = ps_raw x\<rparr> = x"
  by (cases x) simp

lemma cv_head_new: "ptr_addr p AND 255 = 0 \<Longrightarrow> ps_ptr cv_align (ps_new p (ps_state cv_align cur)) = p"
  using ps_state_masked[of cv_align cur] by (intro ps_new_parts(1)) simp_all

lemma cv_ptr_eq: "ptr_eq (ps_raw a) (ps_raw b) \<Longrightarrow> ptr_addr (ps_ptr cv_align a) = ptr_addr (ps_ptr cv_align b)"
  by (simp add: ptr_eq_def ps_ptr_def wrapping_sub_def Let_def)

lemma cv_cas_cases:
  assumes "aps_compare_exchange_weak spurious cur new a = (r, a')"
  obtains (success) v where "r = Inr v" "ptr_eq (aps_cell a) (ps_raw cur)" "aps_load a' = new"
    | (failure) v where "r = Inl v" "a' = a"
  using assms by (auto simp: aps_compare_exchange_weak_def aps_load_def split: if_splits)

lemma cv_head_eqI:
  "ptr_eq (aps_cell (cv_atomic sh)) (ps_raw cur) \<Longrightarrow> ptr_addr (ps_ptr cv_align cur) = cv_head sh"
  unfolding cv_head_def using cv_ptr_eq[of "aps_load (cv_atomic sh)" cur] by (simp add: aps_load_def)

lemma cv_inv_decide:
  assumes inv: "cv_inv s" and i: "i < length (cs_pcs s)" and plain: "cv_plain (cs_pcs s ! i)"
    and fresh: "cv_fresh addr (cs_shared s)"
    and dec: "cv_decide blw addr i lp b cur (cs_shared s) = Inr (pc, sh)"
  shows "cv_inv (s\<lparr>cs_shared := sh, cs_pcs := (cs_pcs s)[i := pc]\<rparr>)"
proof (cases "cv_plain pc \<and> sh = cs_shared s")
  case True
  then show ?thesis using cv_inv_quiet[OF inv i _ plain, of pc sh] by simp
next
  case False
  with dec have "pc = Cv_Enqueue lp b cur addr \<and> sh = (cs_shared s)\<lparr>cv_nodes := (cv_nodes (cs_shared s))(addr \<mapsto>
      \<lparr>cn_unpark = i, cn_next = ps_ptr cv_align cur, cn_ready = False\<rparr>)\<rparr>"
    by (auto simp: cv_decide_def split: sum.splits cv_decision.splits if_splits)
  with cv_inv_alloc[OF inv i plain fresh] show ?thesis by blast
qed


text \<open>One case for every place; \<open>step\<close> is the access that the thread makes.\<close>

lemma cv_inv_next:
  assumes inv: "cv_inv s" and i: "i < length (cs_pcs s)"
    and fresh: "cv_fresh addr (cv_leave (cs_pcs s ! i) (cs_shared s))"
    and step: "cv_next lfw blw addr i spurious (cs_pcs s ! i) (cs_shared s) = Inr (pc, sh)"
  shows "cv_inv (s\<lparr>cs_shared := sh, cs_pcs := (cs_pcs s)[i := pc]\<rparr>)"
proof (cases "cs_pcs s ! i")
  case (Cv_Load lp b)
  with cv_inv_decide[OF inv i] fresh step show ?thesis by (simp add: cv_leave_def)
next
  case (Cv_Cas lp b cur st)
  obtain r at where cas: "aps_compare_exchange_weak spurious cur (cv_updated (lp_wake lp) cur st)
    (cv_atomic (cs_shared s)) = (r, at)" by fastforce
  then show ?thesis
  proof (cases rule: cv_cas_cases)
    case (success v)
    note head = cv_head_eqI[OF success(2)]
    show ?thesis
    proof (cases "lp_wake lp")
      case Wake_None
      then have "cv_head sh = cv_head (cs_shared s)" "cv_nodes sh = cv_nodes (cs_shared s)" "cv_plain pc"
        using step Cv_Cas cas success head by (auto simp: cv_head_def cv_updated_def)
      then show ?thesis using cv_inv_quiet[OF inv i] Cv_Cas by simp
    next
      case Wake_One
      then show ?thesis using cv_inv_take[OF inv i _ head] step Cv_Cas cas success
        by (auto simp: cv_head_def cv_updated_def null_mut_def)
    next
      case Wake_All
      then show ?thesis using cv_inv_take[OF inv i _ head] step Cv_Cas cas success
        by (auto simp: cv_head_def cv_updated_def null_mut_def)
    qed
  next
    case (failure v)
    with cv_inv_decide[OF inv i] fresh step Cv_Cas cas show ?thesis by (simp add: cv_leave_def)
  qed
next
  case (Cv_Enqueue lp b cur a)
  let ?p = "\<lparr>ptr_prov = Some i, ptr_addr = a\<rparr>"
  have node: "a AND 255 = 0" "\<not> cv_waiting (cv_nodes (cs_shared s)) (cs_pcs s) a"
    using inv i Cv_Enqueue by (force simp: cv_inv_def cv_owners_def cv_waiting_def)+
  obtain r at where cas: "aps_compare_exchange_weak spurious cur (ps_new ?p (ps_state cv_align cur))
    (cv_atomic (cs_shared s)) = (r, at)" by fastforce
  then show ?thesis
  proof (cases rule: cv_cas_cases)
    case (success v)
    with cv_inv_enqueue[OF inv i Cv_Enqueue cv_head_eqI] step Cv_Enqueue cas cv_head_new[of ?p cur] node(1)
    show ?thesis by (auto simp: cv_head_def)
  next
    case (failure v)
    let ?s = "s\<lparr>cs_shared := cv_free a (cs_shared s), cs_pcs := (cs_pcs s)[i := Cv_Load lp b]\<rparr>"
    have "cv_inv ?s" using cv_inv_free[OF inv i _ node(2)] Cv_Enqueue by (simp add: fun_eq_iff)
    then have "cv_inv (?s\<lparr>cs_shared := sh, cs_pcs := (cs_pcs ?s)[i := pc]\<rparr>)"
      using i step fresh Cv_Enqueue cas failure
      by (rule_tac cv_inv_decide[where blw = blw and addr = addr and lp = lp and b = b and cur = v])
        (auto simp: cv_leave_def)
    then show ?thesis by simp
  qed
next
  case (Cv_Parked lp b a)
  with step obtain n where n: "cv_nodes (cs_shared s) a = Some n" by (auto split: option.splits)
  show ?thesis
  proof (cases "cn_ready n")
    case True
    then have "\<not> cv_waiting (cv_nodes (cs_shared s)) (cs_pcs s) a" using n by (simp add: cv_waiting_def)
    with cv_inv_free[OF inv i] True Cv_Parked n step show ?thesis by (auto simp: fun_eq_iff)
  next
    case False
    then have "sh = cs_shared s" "pc = Cv_Parked lp b a" using Cv_Parked n step by auto
    moreover have "(cs_pcs s)[i := Cv_Parked lp b a] = cs_pcs s" using list_update_id[of "cs_pcs s" i] Cv_Parked by simp
    ultimately show ?thesis using inv by simp
  qed
next
  case (Cv_Swap st)
  with cv_inv_take[OF inv i] step show ?thesis by (auto simp: aps_swap_def cv_head_def aps_load_def null_mut_def)
next
  case (Cv_Walk p r)
  have empty: "cv_chain m 0 w \<longleftrightarrow> w = []" for m w by (cases w) auto
  show ?thesis
  proof (cases "ptr_addr p = 0")
    case True
    with Cv_Walk step empty show ?thesis by (intro cv_inv_walk[OF inv i]) auto
  next
    case False
    with Cv_Walk step obtain n where n: "cv_nodes (cs_shared s) (ptr_addr p) = Some n" by (auto split: option.splits)
    have "cv_todo (cv_nodes (cs_shared s)) (Cv_Ready p (cn_unpark n) (cn_next n) r) w"
      if "cv_chain (cv_nodes (cs_shared s)) (ptr_addr p) w" for w
      using that False n by (cases w) auto
    with Cv_Walk step False n show ?thesis by (intro cv_inv_walk[OF inv i]) auto
  qed
next
  case (Cv_Ready p token nx r)
  with step cv_inv_ready[OF inv i Cv_Ready] show ?thesis by (auto simp: cv_head_def split: option.splits)
next
  case (Cv_Unpark token nx r)
  with step show ?thesis by (intro cv_inv_walk[OF inv i]) (auto simp: cv_head_def)
qed (use step inv list_update_id[of "cs_pcs s" i] in \<open>auto simp del: list_update_id\<close>)


text \<open>An access to a node finds it alive: a thread fails only when its closure panics.\<close>

fun cv_loop_of :: "cv_pc \<Rightarrow> cv_loop option" where
  "cv_loop_of (Cv_Load lp _) = Some lp"
| "cv_loop_of (Cv_Cas lp _ _ _) = Some lp"
| "cv_loop_of (Cv_Enqueue lp _ _ _) = Some lp"
| "cv_loop_of _ = None"

lemma cv_decide_fails: "cv_decide blw addr i lp b cur sh = Inl e \<Longrightarrow> lp_f lp (cv_state cur) = Inl e"
  by (auto simp: cv_decide_def split: sum.splits cv_decision.splits if_splits)

lemma cv_cas_fails: "aps_compare_exchange_weak spurious cur new a = (Inl v, a') \<Longrightarrow> v = aps_load a"
  by (auto simp: aps_compare_exchange_weak_def aps_load_def split: if_splits)

lemma cv_inv_safe:
  assumes inv: "cv_inv s" and i: "i < length (cs_pcs s)"
    and fails: "cv_next lfw blw addr i spurious (cs_pcs s ! i) (cs_shared s) = Inl e"
  shows "\<exists>lp. cv_loop_of (cs_pcs s ! i) = Some lp \<and> lp_f lp (cv_load (cs_shared s)) = Inl e"
proof -
  let ?m = "cv_nodes (cs_shared s)"
  obtain xs ws where own: "cv_owners ?m (cs_pcs s)" and li: "cv_lists ?m (cs_pcs s) xs ws"
    using inv by (rule cv_invE)
  have todo: "cv_todo ?m (cs_pcs s ! i) (ws i)" using li i by (simp add: cv_lists_def)
  have alive: "\<exists>n. ?m a = Some n" if "cv_node_of (cs_pcs s ! i) = Some a" for a
    using own i that unfolding cv_owners_def by blast
  show ?thesis
  proof (cases "cs_pcs s ! i")
    case (Cv_Load lp b)
    with fails cv_decide_fails show ?thesis by (fastforce simp: cv_load_def)
  next
    case (Cv_Cas lp b cur st)
    with fails cv_decide_fails show ?thesis by (fastforce simp: cv_load_def dest: cv_cas_fails split: prod.splits sum.splits)
  next
    case (Cv_Enqueue lp b cur a)
    with fails cv_decide_fails show ?thesis by (fastforce simp: cv_load_def dest: cv_cas_fails split: prod.splits sum.splits)
  next
    case (Cv_Parked lp b a)
    with fails alive show ?thesis by (fastforce split: option.splits if_splits)
  next
    case (Cv_Walk p r)
    with fails todo show ?thesis by (cases "ws i") (auto split: option.splits if_splits)
  next
    case (Cv_Ready p token nx r)
    with fails todo show ?thesis by (auto split: option.splits)
  qed (use fails in \<open>auto split: prod.splits\<close>)
qed

lemma cv_step_keeps:
  assumes "cv_step lfw blw s t" and inv: "cv_inv s"
  shows "cv_inv t"
  using assms(1)
proof cases
  case (cv_starts i pc lp st)
  then show ?thesis using cv_inv_quiet[OF inv cv_starts(2), of pc "cs_shared s"] by auto
next
  case (cv_optimistic i old new ok sh)
  have "cv_nodes sh = cv_nodes (cs_shared s) \<and> cv_head sh = cv_head (cs_shared s)"
    using cv_optimistic(4) cv_ptr_eq[of "aps_load (cv_atomic (cs_shared s))" "ps_null_state (cv_trunc old)"]
    by (auto simp: cv_optimistic_update_def aps_compare_exchange_def cv_head_def aps_load_def split: if_splits)
  then have "cv_inv (s\<lparr>cs_shared := sh, cs_pcs := (cs_pcs s)[i := Cv_Idle]\<rparr>)"
    using cv_inv_quiet[OF inv cv_optimistic(2), of Cv_Idle sh] cv_optimistic(3) by simp
  moreover have "(cs_pcs s)[i := Cv_Idle] = cs_pcs s" using list_update_id[of "cs_pcs s" i] cv_optimistic(3) by simp
  ultimately show ?thesis using cv_optimistic(1) by simp
next
  case (cv_runs i addr spurious pc sh)
  with cv_inv_next[OF inv] show ?thesis by blast
next
  case (cv_panics i addr spurious e)
  from cv_inv_safe[OF inv cv_panics(2,3)] obtain lp where lp: "cv_loop_of (cs_pcs s ! i) = Some lp" by blast
  show ?thesis
  proof (cases "cv_node_of (cs_pcs s ! i)")
    case None
    with lp have "cv_plain (cs_pcs s ! i)" by (cases "cs_pcs s ! i") simp_all
    with cv_inv_quiet[OF inv cv_panics(2), of Cv_Idle "cs_shared s"] None cv_panics(1) show ?thesis
      by (simp add: cv_leave_def)
  next
    case (Some a)
    with lp obtain b cur where pc: "cs_pcs s ! i = Cv_Enqueue lp b cur a" by (cases "cs_pcs s ! i") auto
    have "\<not> cv_waiting (cv_nodes (cs_shared s)) (cs_pcs s) a"
      using inv cv_panics(2) pc by (force simp: cv_inv_def cv_owners_def cv_waiting_def)
    with cv_inv_free[OF inv cv_panics(2) Some] pc Some cv_panics(1) show ?thesis
      by (simp add: cv_leave_def fun_eq_iff)
  qed
next
  case (cv_returns i r)
  with cv_inv_quiet[OF inv, of i Cv_Idle "cs_shared s"] show ?thesis by simp
qed

lemma cv_init_inv: "cv_init s \<Longrightarrow> cv_inv s"
proof -
  assume "cv_init s"
  then obtain st where sh: "cs_shared s = cv_new st" and pcs: "set (cs_pcs s) \<subseteq> {Cv_Idle}"
    by (auto simp: cv_init_def)
  have idle: "cs_pcs s ! i = Cv_Idle" if "i < length (cs_pcs s)" for i using pcs that nth_mem by blast
  have "aps_load (cv_atomic (cv_new st)) = ps_null_state (cv_trunc st)"
    by (simp add: cv_new_def aps_load_def aps_null_state_def aps_new_def ps_null_state_def ps_new_def)
  then have "cv_head (cs_shared s) = 0" by (simp add: cv_head_def sh null_mut_def)
  with idle show ?thesis
    by (intro cv_invI[of _ "[]" "\<lambda>_. []"]) (auto simp: cv_owners_def cv_lists_def cv_waiting_def sh cv_new_def)
qed

interpretation cv_sys: transition_system cv_init "cv_step lfw blw" cv_inv
  by unfold_locales (auto intro: cv_init_inv cv_step_keeps)


end
