(* ===== verification/Cond_Var_State.thy ===== *)
theory Cond_Var_State
  imports Cond_Var_Nodes
begin

text \<open>
  The state that a condition variable holds and what its operations do to it: where an operation takes
  effect, and what a thread does while no other thread runs.
\<close>

section \<open>A thread alone\<close>

text \<open>A thread that makes \<open>n\<close> accesses while no other thread runs.\<close>

fun cv_alone :: "(back_off \<Rightarrow> back_off) \<Rightarrow> (back_off \<Rightarrow> back_off) \<Rightarrow> usize \<Rightarrow> nat \<Rightarrow> nat \<Rightarrow> cv_pc \<Rightarrow> cv_shared
    \<Rightarrow> (cv_pc \<times> cv_shared) res" where
  "cv_alone lfw blw addr thread 0 pc sh = Inr (pc, sh)"
| "cv_alone lfw blw addr thread (Suc n) pc sh =
     bind_res (cv_next lfw blw addr thread False pc sh) (\<lambda>(pc', sh'). cv_alone lfw blw addr thread n pc' sh')"

definition cv_ready_all :: "usize list \<Rightarrow> (usize \<Rightarrow> cv_node option) \<Rightarrow> usize \<Rightarrow> cv_node option" where
  "cv_ready_all xs m = (\<lambda>a. if a \<in> set xs then map_option (\<lambda>n. n\<lparr>cn_ready := True\<rparr>) (m a) else m a)"

definition cv_tokens :: "usize list \<Rightarrow> (usize \<Rightarrow> cv_node option) \<Rightarrow> nat list" where
  "cv_tokens xs m = map (\<lambda>a. case m a of Some n \<Rightarrow> cn_unpark n | None \<Rightarrow> 0) xs"

lemma cv_alone_walk:
  assumes "cv_chain (cv_nodes sh) (ptr_addr p) xs" and "distinct xs"
  shows "cv_alone lfw blw addr thread (3 * length xs + 1) (Cv_Walk p r) sh =
    Inr (Cv_Done (Inr r), sh\<lparr>cv_nodes := cv_ready_all xs (cv_nodes sh),
      cv_unparks := cv_unparks sh @ cv_tokens xs (cv_nodes sh)\<rparr>)"
  using assms
proof (induction xs arbitrary: p sh)
  case Nil
  then show ?case by (simp add: cv_ready_all_def cv_tokens_def)
next
  case (Cons x xs)
  then obtain n where n: "ptr_addr p = x" "x \<noteq> 0" "cv_nodes sh x = Some n"
    "cv_chain (cv_nodes sh) (ptr_addr (cn_next n)) xs" by auto
  let ?sh = "sh\<lparr>cv_nodes := (cv_nodes sh)(x \<mapsto> n\<lparr>cn_ready := True\<rparr>), cv_unparks := cv_unparks sh @ [cn_unpark n]\<rparr>"
  have "cv_chain (cv_nodes ?sh) (ptr_addr (cn_next n)) xs"
    using n(4) Cons.prems(2) by (subst cv_chain_cong[of xs _ "cv_nodes sh"]) auto
  note IH = Cons.IH[OF this]
  have steps: "cv_alone lfw blw addr thread (3 * length (x # xs) + 1) (Cv_Walk p r) sh =
      cv_alone lfw blw addr thread (3 * length xs + 1) (Cv_Walk (cn_next n) r) ?sh"
    using n(1-3) by (simp add: numeral_3_eq_3)
  have tokens: "cv_unparks ?sh @ cv_tokens xs (cv_nodes ?sh) = cv_unparks sh @ cv_tokens (x # xs) (cv_nodes sh)"
    using n(3) Cons.prems(2) by (auto simp: cv_tokens_def)
  have ready: "cv_ready_all xs (cv_nodes ?sh) = cv_ready_all (x # xs) (cv_nodes sh)"
    using n(3) Cons.prems(2) by (auto simp: cv_ready_all_def)
  have frame: "?sh\<lparr>cv_nodes := f, cv_unparks := g\<rparr> = sh\<lparr>cv_nodes := f, cv_unparks := g\<rparr>" for f g by simp
  have "distinct xs" using Cons.prems(2) by simp
  show ?case unfolding steps IH[OF \<open>distinct xs\<close>] tokens ready frame by (rule refl)
qed


section \<open>Where the state changes\<close>

lemma cv_state_trunc [simp]: "ucast (cv_trunc s) = s"
proof -
  have "state_mask cv_align = mask 8" by (simp add: mask_eq_exp_minus_1)
  then show ?thesis unfolding cv_trunc_def state_new_truncated_def
    by (intro bit_word_eqI) (auto simp: bit_simps simp del: cv_align_mask)
qed

lemma cv_state_null [simp]: "cv_state (ps_null_state (cv_trunc s)) = s"
proof -
  have "ps_state cv_align (ps_null_state (cv_trunc s)) = cv_trunc s"
    unfolding ps_null_state_def by (rule ps_new_parts(2)) (simp_all add: null_mut_def)
  then show ?thesis by (simp add: cv_state_def state_value_def)
qed

lemma cv_state_with [simp]: "cv_state (ps_with_state cv_align cur (cv_trunc s)) = s"
proof -
  have "ps_state cv_align (ps_with_state cv_align cur (cv_trunc s)) = cv_trunc s"
    unfolding ps_with_state_def using ps_ptr_aligned[of cv_align cur] by (intro ps_new_parts(2)) simp_all
  then show ?thesis by (simp add: cv_state_def state_value_def)
qed

lemma cv_state_new: "ptr_addr p AND 255 = 0 \<Longrightarrow> cv_state (ps_new p (ps_state cv_align cur)) = cv_state cur"
  using ps_state_masked[of cv_align cur] ps_new_parts(2)[of p cv_align "ps_state cv_align cur"]
  by (simp add: cv_state_def)

lemma cv_state_updated [simp]: "cv_state (cv_updated wake cur s) = s"
  by (cases wake) (simp_all add: cv_updated_def)

lemma cv_load_eqI: "ptr_eq (aps_cell (cv_atomic sh)) (ps_raw cur) \<Longrightarrow> cv_state cur = cv_load sh"
  by (simp add: cv_load_def cv_state_def ps_state_def aps_load_def ptr_eq_def)


text \<open>What a call has done: it is still asking its closure, it has yet to set the state, or it is answered.\<close>

datatype cv_phase = Cv_Nothing | Cv_Asking cv_loop | Cv_Setting u8 | Cv_Answered "u8 + u8"

fun cv_phase_of :: "cv_pc \<Rightarrow> cv_phase" where
  "cv_phase_of Cv_Idle = Cv_Nothing"
| "cv_phase_of (Cv_Load lp _) = Cv_Asking lp"
| "cv_phase_of (Cv_Cas lp _ _ _) = Cv_Asking lp"
| "cv_phase_of (Cv_Enqueue lp _ _ _) = Cv_Asking lp"
| "cv_phase_of (Cv_Parked lp _ _) = Cv_Asking lp"
| "cv_phase_of (Cv_Swap st) = Cv_Setting st"
| "cv_phase_of (Cv_Walk _ r) = Cv_Answered (Inr r)"
| "cv_phase_of (Cv_Ready _ _ _ r) = Cv_Answered (Inr r)"
| "cv_phase_of (Cv_Unpark _ _ r) = Cv_Answered (Inr r)"
| "cv_phase_of (Cv_Done r) = Cv_Answered r"

text \<open>
  The abstract operation: a state and a phase. An update takes the closure's answer for the present
  state, and returns the state it replaced; a break returns the present state.
\<close>

inductive cv_spec :: "u8 \<Rightarrow> cv_phase \<Rightarrow> u8 \<Rightarrow> cv_phase \<Rightarrow> bool" where
  spec_stays: "cv_spec st ph st ph"
| spec_updates: "lp_f lp st = Inr (Cv_Update st') \<Longrightarrow> cv_spec st (Cv_Asking lp) st' (Cv_Answered (Inr st))"
| spec_breaks: "lp_f lp st = Inr Cv_Break \<Longrightarrow> cv_spec st (Cv_Asking lp) st (Cv_Answered (Inl st))"
| spec_sets: "cv_spec st (Cv_Setting st') st' (Cv_Answered (Inr st))"

inductive_cases cv_spec_cases: "cv_spec st ph st' ph'"

text \<open>A thread acts on the answer of its closure.\<close>

fun cv_asked :: "cv_pc \<Rightarrow> bool" where
  "cv_asked (Cv_Cas lp b cur st) \<longleftrightarrow> lp_f lp (cv_state cur) = Inr (Cv_Update st)"
| "cv_asked (Cv_Enqueue lp b cur a) \<longleftrightarrow> lp_f lp (cv_state cur) = Inr Cv_Wait \<and> a AND 255 = 0"
| "cv_asked pc = True"

lemma cv_decide_phase:
  assumes "cv_decide blw addr i lp b cur sh = Inr (pc, sh')" and "addr AND 255 = 0"
  shows "cv_asked pc" and "cv_load sh' = cv_load sh" and "cv_head sh' = cv_head sh"
    and "cv_spec (cv_state cur) (Cv_Asking lp) (cv_state cur) (cv_phase_of pc)"
  using assms by (auto simp: cv_decide_def cv_load_def cv_head_def split: sum.splits cv_decision.splits if_splits
      intro: cv_spec.intros)

lemma cv_load_atomic: "cv_atomic sh' = cv_atomic sh \<Longrightarrow> cv_load sh' = cv_load sh"
  by (simp add: cv_load_def)

lemma cv_next_spec:
  assumes step: "cv_next lfw blw addr i spurious pc sh = Inr (pc', sh')" and asked: "cv_asked pc"
    and addr: "addr AND 255 = 0"
  shows "cv_asked pc' \<and> cv_spec (cv_load sh) (cv_phase_of pc) (cv_load sh') (cv_phase_of pc')"
proof (cases pc)
  case (Cv_Load lp b)
  with step have dec: "cv_decide blw addr i lp b (aps_load (cv_atomic sh)) sh = Inr (pc', sh')" by simp
  show ?thesis using cv_decide_phase[OF dec addr] Cv_Load by (simp add: cv_load_def)
next
  case (Cv_Cas lp b cur st)
  obtain r at where cas: "aps_compare_exchange_weak spurious cur (cv_updated (lp_wake lp) cur st) (cv_atomic sh) = (r, at)"
    by fastforce
  then show ?thesis
  proof (cases rule: cv_cas_cases)
    case (success v)
    with step Cv_Cas cas have "cv_load sh' = st" "cv_phase_of pc' = Cv_Answered (Inr (cv_state cur))" "cv_asked pc'"
      by (auto simp: cv_load_def split: if_splits)
    with Cv_Cas asked cv_load_eqI[OF success(2)] show ?thesis by (auto intro: spec_updates)
  next
    case (failure v)
    then have "v = aps_load (cv_atomic sh)" using cas cv_cas_fails by blast
    with failure step Cv_Cas cas have dec: "cv_decide blw addr i lp (if lp_backoff lp then lfw b else b)
      (aps_load (cv_atomic sh)) sh = Inr (pc', sh')" by simp
    show ?thesis using cv_decide_phase[OF dec addr] Cv_Cas by (simp add: cv_load_def)
  qed
next
  case (Cv_Enqueue lp b cur a)
  let ?new = "ps_new \<lparr>ptr_prov = Some i, ptr_addr = a\<rparr> (ps_state cv_align cur)"
  obtain r at where cas: "aps_compare_exchange_weak spurious cur ?new (cv_atomic sh) = (r, at)" by fastforce
  then show ?thesis
  proof (cases rule: cv_cas_cases)
    case (success v)
    have "cv_state ?new = cv_state cur" using asked Cv_Enqueue by (intro cv_state_new) simp
    with success step Cv_Enqueue cas cv_load_eqI[OF success(2)] show ?thesis
      by (auto simp: cv_load_def intro: spec_stays)
  next
    case (failure v)
    then have "v = aps_load (cv_atomic sh)" using cas cv_cas_fails by blast
    with failure step Cv_Enqueue cas have dec: "cv_decide blw addr i lp b
      (aps_load (cv_atomic sh)) (cv_free a sh) = Inr (pc', sh')" by simp
    show ?thesis using cv_decide_phase[OF dec addr] Cv_Enqueue by (simp add: cv_load_def cv_free_def)
  qed
next
  case (Cv_Swap st)
  with step show ?thesis by (auto simp: aps_swap_def cv_load_def aps_load_def intro: spec_sets)
qed (use step in \<open>auto simp: cv_load_def cv_free_def split: option.splits if_splits intro: spec_stays\<close>)


text \<open>A node joins the list only where the closure of its thread wants to wait.\<close>

lemma cv_decide_head: "cv_decide blw addr i lp b cur sh = Inr (pc, sh') \<Longrightarrow> cv_head sh' = cv_head sh"
  by (auto simp: cv_decide_def cv_head_def split: sum.splits cv_decision.splits if_splits)

lemma cv_next_head:
  assumes step: "cv_next lfw blw addr i spurious pc sh = Inr (pc', sh')" and asked: "cv_asked pc"
  shows "cv_head sh' = 0 \<or> (cv_head sh' = cv_head sh \<and> (\<forall>st. cv_phase_of pc \<noteq> Cv_Setting st)) \<or>
    (\<exists>lp. cv_phase_of pc = Cv_Asking lp \<and> lp_f lp (cv_load sh) = Inr Cv_Wait \<and> cv_load sh' = cv_load sh)"
proof (cases pc)
  case (Cv_Load lp b)
  with step cv_decide_head show ?thesis by simp
next
  case (Cv_Cas lp b cur st)
  obtain r at where cas: "aps_compare_exchange_weak spurious cur (cv_updated (lp_wake lp) cur st) (cv_atomic sh) = (r, at)"
    by fastforce
  then show ?thesis
  proof (cases rule: cv_cas_cases)
    case (success v)
    with step Cv_Cas cas cv_head_eqI[OF success(2)] show ?thesis
      by (cases "lp_wake lp") (auto simp: cv_head_def cv_updated_def null_mut_def)
  next
    case (failure v)
    with step Cv_Cas cas cv_decide_head[of blw addr i lp "if lp_backoff lp then lfw b else b" v sh pc' sh']
    show ?thesis by simp
  qed
next
  case (Cv_Enqueue lp b cur a)
  let ?new = "ps_new \<lparr>ptr_prov = Some i, ptr_addr = a\<rparr> (ps_state cv_align cur)"
  obtain r at where cas: "aps_compare_exchange_weak spurious cur ?new (cv_atomic sh) = (r, at)" by fastforce
  then show ?thesis
  proof (cases rule: cv_cas_cases)
    case (success v)
    have "cv_state ?new = cv_state cur" using asked Cv_Enqueue by (intro cv_state_new) simp
    with success step Cv_Enqueue cas asked cv_load_eqI[OF success(2)] show ?thesis by (auto simp: cv_load_def)
  next
    case (failure v)
    with step Cv_Enqueue cas cv_decide_head[of blw addr i lp b v "cv_free a sh" pc' sh'] show ?thesis
      by (simp add: cv_free_def cv_head_def)
  qed
next
  case (Cv_Swap st)
  with step show ?thesis by (auto simp: aps_swap_def cv_head_def aps_load_def null_mut_def)
qed (use step in \<open>auto simp: cv_head_def cv_free_def split: option.splits if_splits\<close>)

text \<open>A loop that wakes nobody ends at its update.\<close>

lemma cv_next_no_wake:
  assumes "cv_next lfw blw addr i spurious pc sh = Inr (pc', sh')" and "cv_phase_of pc = Cv_Asking lp"
    and "lp_wake lp = Wake_None"
  shows "cv_phase_of pc' = Cv_Asking lp \<or> (\<exists>r. pc' = Cv_Done r)"
proof -
  have "cv_phase_of c = Cv_Asking lp \<or> (\<exists>r. c = Cv_Done r)"
    if "cv_decide blw addr i lp b cur sh = Inr (c, sh')" for b cur sh c
    using that by (auto simp: cv_decide_def split: sum.splits cv_decision.splits if_splits)
  with assms show ?thesis
    by (cases pc) (fastforce split: prod.splits sum.splits option.splits if_splits)+
qed

lemma cv_optimistic_spec:
  assumes "cv_optimistic_update old new sh = (ok, sh')"
  shows "cv_nodes sh' = cv_nodes sh"
    and "ok \<Longrightarrow> cv_load sh = old \<and> cv_load sh' = new \<and> cv_head sh = 0 \<and> cv_head sh' = 0" and "\<not> ok \<Longrightarrow> sh' = sh"
proof -
  show "cv_nodes sh' = cv_nodes sh" using assms
    by (auto simp: cv_optimistic_update_def split: prod.splits sum.splits)
  show "\<not> ok \<Longrightarrow> sh' = sh" using assms
    by (auto simp: cv_optimistic_update_def aps_compare_exchange_def split: if_splits)
  assume ok
  with assms have eq: "ptr_eq (aps_cell (cv_atomic sh)) (ps_raw (ps_null_state (cv_trunc old)))"
    and sh': "cv_atomic sh' = (cv_atomic sh)\<lparr>aps_cell := ps_raw (ps_null_state (cv_trunc new))\<rparr>"
    by (auto simp: cv_optimistic_update_def aps_compare_exchange_def split: if_splits)
  show "cv_load sh = old \<and> cv_load sh' = new \<and> cv_head sh = 0 \<and> cv_head sh' = 0"
    using cv_load_eqI[OF eq] cv_head_eqI[OF eq] sh' by (simp add: cv_load_def cv_head_def aps_load_def null_mut_def)
qed

section \<open>The system\<close>

definition cv_inv_asked :: "cv_system \<Rightarrow> bool" where
  "cv_inv_asked s \<longleftrightarrow> cv_inv s \<and> (\<forall>i < length (cs_pcs s). cv_asked (cs_pcs s ! i))"

lemma cv_fresh_aligned: "cv_fresh addr sh \<Longrightarrow> addr AND 255 = 0"
  by (simp add: cv_fresh_def)

lemma cv_asked_step: "cv_step lfw blw s t \<Longrightarrow> cv_inv_asked s \<Longrightarrow> cv_inv_asked t"
proof -
  assume step: "cv_step lfw blw s t" and inv: "cv_inv_asked s"
  from step have "\<forall>j < length (cs_pcs t). cv_asked (cs_pcs t ! j)"
  proof cases
    case (cv_runs i addr spurious pc sh)
    with inv cv_next_spec[OF cv_runs(4)] cv_fresh_aligned[OF cv_runs(3)] show ?thesis
      by (auto simp: cv_inv_asked_def nth_list_update)
  qed (use inv in \<open>auto simp: cv_inv_asked_def nth_list_update\<close>)
  with inv cv_step_keeps[OF step] show ?thesis by (simp add: cv_inv_asked_def)
qed

lemma cv_init_asked: "cv_init s \<Longrightarrow> cv_inv_asked s"
  using cv_init_inv[of s] nth_mem by (fastforce simp: cv_inv_asked_def cv_init_def)

interpretation cv_ask: transition_system cv_init "cv_step lfw blw" cv_inv_asked
  by unfold_locales (auto intro: cv_init_asked cv_asked_step)


section \<open>A run\<close>

text \<open>Thread 0 waits until the state is not zero and parks; thread 1 sets the state to one.\<close>

definition cv_demo_loop :: cv_loop where
  "cv_demo_loop = \<lparr>lp_f = (\<lambda>st. Inr (if st = 0 then Cv_Wait else Cv_Break)), lp_wake = Wake_None, lp_backoff = True\<rparr>"

definition cv_hurry :: "back_off \<Rightarrow> back_off" where
  "cv_hurry b = \<lparr>spin_count = 15\<rparr>"

definition cv_demo :: "rust_ptr \<Rightarrow> (usize \<Rightarrow> cv_node option) \<Rightarrow> cv_pc \<Rightarrow> cv_pc \<Rightarrow> cv_system" where
  "cv_demo word nodes pc0 pc1 =
     \<lparr>cs_shared = \<lparr>cv_atomic = \<lparr>aps_cell = word\<rparr>, cv_nodes = nodes, cv_unparks = []\<rparr>, cs_pcs = [pc0, pc1]\<rparr>"

definition cv_demo_nodes :: "usize \<Rightarrow> cv_node option" where
  "cv_demo_nodes = [256 \<mapsto> \<lparr>cn_unpark = 0, cn_next = null_mut, cn_ready = False\<rparr>]"

definition cv_demo_ptr :: rust_ptr where
  "cv_demo_ptr = \<lparr>ptr_prov = Some 0, ptr_addr = 256\<rparr>"

abbreviation cv_demo_reachable :: "rust_ptr \<Rightarrow> (usize \<Rightarrow> cv_node option) \<Rightarrow> cv_pc \<Rightarrow> cv_pc \<Rightarrow> bool" where
  "cv_demo_reachable word nodes pc0 pc1 \<equiv> reachable cv_init (cv_step cv_hurry cv_hurry) (cv_demo word nodes pc0 pc1)"

text \<open>To evaluate the words of a concrete state.\<close>

lemmas cv_word_eval = cv_state_def state_value_def ps_state_def ps_ptr_def aps_load_def null_mut_def wrapping_sub_def
  wrapping_add_def Let_def cv_trunc_def state_new_truncated_def ps_new_def ps_null_state_def ptr_eq_def

lemma cv_demo_start: "cv_demo_reachable null_mut (\<lambda>_. None) Cv_Idle Cv_Idle"
proof (rule reach_init)
  have "cv_trunc 0 = 0" by (simp add: cv_trunc_def state_new_truncated_def)
  then show "cv_init (cv_demo null_mut (\<lambda>_. None) Cv_Idle Cv_Idle)"
    by (auto simp: cv_init_def cv_demo_def cv_new_def aps_null_state_def aps_new_def wrapping_add_def null_mut_def
        intro!: exI[of _ 0])
qed

lemma cv_demo_runs:
  assumes "cv_demo_reachable word nodes pc0 pc1" and "i < 2"
    and "cv_next cv_hurry cv_hurry 256 i False ([pc0, pc1] ! i) \<lparr>cv_atomic = \<lparr>aps_cell = word\<rparr>, cv_nodes = nodes, cv_unparks = []\<rparr>
      = Inr (pc, \<lparr>cv_atomic = \<lparr>aps_cell = word'\<rparr>, cv_nodes = nodes', cv_unparks = []\<rparr>)"
    and "cv_fresh 256 (cv_leave ([pc0, pc1] ! i) \<lparr>cv_atomic = \<lparr>aps_cell = word\<rparr>, cv_nodes = nodes, cv_unparks = []\<rparr>)"
  shows "cv_demo_reachable word' nodes' ([pc0, pc1][i := pc] ! 0) ([pc0, pc1][i := pc] ! 1)"
proof -
  have "cv_step cv_hurry cv_hurry (cv_demo word nodes pc0 pc1) (cv_demo word' nodes' ([pc0, pc1][i := pc] ! 0) ([pc0, pc1][i := pc] ! 1))"
    using cv_runs[of i "cv_demo word nodes pc0 pc1" 256 cv_hurry cv_hurry False pc] assms(2-4)
    by (auto simp: cv_demo_def less_2_cases_iff)
  with assms(1) show ?thesis by (rule reach_step)
qed

lemma cv_demo_parked:
  "cv_demo_reachable cv_demo_ptr cv_demo_nodes (Cv_Parked cv_demo_loop \<lparr>spin_count = 15\<rparr> 256) Cv_Idle"
proof -
  let ?lp = cv_demo_loop and ?b = "\<lparr>spin_count = 15\<rparr>"
  have eval: "cv_state \<lparr>ps_raw = null_mut\<rparr> = 0" "ps_ptr cv_align \<lparr>ps_raw = null_mut\<rparr> = null_mut"
    "ps_state cv_align \<lparr>ps_raw = null_mut\<rparr> = 0"
    by (simp_all add: cv_state_def state_value_def ps_state_def ps_ptr_def null_mut_def wrapping_sub_def Let_def)
  have fresh: "cv_fresh 256 \<lparr>cv_atomic = w, cv_nodes = \<lambda>_. None, cv_unparks = []\<rparr>" for w
    by (simp add: cv_fresh_def)
  have "cv_demo_reachable null_mut (\<lambda>_. None) (Cv_Load ?lp backoff_new) Cv_Idle"
    using reach_step[OF cv_demo_start cv_starts[of 0 _ "Cv_Load ?lp backoff_new" ?lp]] by (simp add: cv_demo_def)
  from cv_demo_runs[OF this, of 0 "Cv_Load ?lp ?b"]
  have "cv_demo_reachable null_mut (\<lambda>_. None) (Cv_Load ?lp ?b) Cv_Idle"
    using fresh by (simp add: cv_decide_def eval aps_load_def cv_demo_loop_def backoff_should_block_def backoff_new_def
        yield_threshold_def cv_hurry_def cv_leave_def)
  from cv_demo_runs[OF this, of 0 "Cv_Enqueue ?lp ?b \<lparr>ps_raw = null_mut\<rparr> 256" null_mut cv_demo_nodes]
  have "cv_demo_reachable null_mut cv_demo_nodes (Cv_Enqueue ?lp ?b \<lparr>ps_raw = null_mut\<rparr> 256) Cv_Idle"
    using fresh by (simp add: cv_decide_def eval aps_load_def cv_demo_loop_def backoff_should_block_def
        yield_threshold_def cv_leave_def cv_demo_nodes_def)
  from cv_demo_runs[OF this, of 0 "Cv_Parked ?lp ?b 256" cv_demo_ptr cv_demo_nodes]
  show ?thesis
    by (simp add: eval aps_compare_exchange_weak_def ps_new_def ptr_eq_def wrapping_add_def cv_leave_def cv_free_def
        cv_fresh_def cv_demo_nodes_def cv_demo_ptr_def)
qed

lemma cv_demo_swapping:
  "cv_demo_reachable cv_demo_ptr cv_demo_nodes (Cv_Parked cv_demo_loop \<lparr>spin_count = 15\<rparr> 256) (Cv_Swap 1)"
  using reach_step[OF cv_demo_parked cv_starts[of 1 _ "Cv_Swap 1" undefined 1]] by (simp add: cv_demo_def)

lemma cv_demo_waking:
  "cv_demo_reachable \<lparr>ptr_prov = None, ptr_addr = 1\<rparr> cv_demo_nodes (Cv_Parked cv_demo_loop \<lparr>spin_count = 15\<rparr> 256)
    (Cv_Walk cv_demo_ptr 0)"
proof -
  from reach_step[OF cv_demo_swapping cv_runs[of 1 _ 512]] show ?thesis
    by (simp add: cv_demo_def cv_fresh_def cv_leave_def cv_demo_nodes_def aps_swap_def cv_demo_ptr_def ps_ptr_def
        cv_state_def ps_state_def state_value_def wrapping_sub_def Let_def ps_null_state_def ps_new_def cv_trunc_def
        state_new_truncated_def null_mut_def wrapping_add_def)
qed

text \<open>Thread 0 is in an update that adds one.\<close>

definition cv_demo_add :: cv_loop where
  "cv_demo_add = \<lparr>lp_f = (\<lambda>st. Inr (Cv_Update (st + 1))), lp_wake = Wake_None, lp_backoff = False\<rparr>"

lemma cv_demo_adding:
  "cv_demo_reachable null_mut (\<lambda>_. None) (Cv_Cas cv_demo_add backoff_new \<lparr>ps_raw = null_mut\<rparr> 1) Cv_Idle"
proof -
  have "cv_demo_reachable null_mut (\<lambda>_. None) (Cv_Load cv_demo_add backoff_new) Cv_Idle"
    using reach_step[OF cv_demo_start cv_starts[of 0 _ "Cv_Load cv_demo_add backoff_new" cv_demo_add]]
    by (simp add: cv_demo_def)
  from cv_demo_runs[OF this, of 0 "Cv_Cas cv_demo_add backoff_new \<lparr>ps_raw = null_mut\<rparr> 1" null_mut "\<lambda>_. None"]
  show ?thesis by (simp add: cv_decide_def cv_demo_add_def cv_word_eval cv_leave_def cv_fresh_def)
qed


section \<open>Properties\<close>

text \<open>
  Claim C4. A thread never follows a pointer to a node that is gone: in every reachable state the next
  access of every thread is defined, unless its closure panics on the present state. This covers the list of a
  waker while the threads it has woken return and reuse their stacks.
\<close>

theorem condvar_never_dangles:
  assumes "reachable cv_init (cv_step lfw blw) s" and "i < length (cs_pcs s)"
    and "\<And>lp. cv_loop_of (cs_pcs s ! i) = Some lp \<Longrightarrow> \<exists>d. lp_f lp (cv_load (cs_shared s)) = Inr d"
  shows "\<exists>pc sh. cv_next lfw blw addr i spurious (cs_pcs s ! i) (cs_shared s) = Inr (pc, sh)"
proof (cases "cv_next lfw blw addr i spurious (cs_pcs s ! i) (cs_shared s)")
  case (Inl e)
  with cv_inv_safe[OF cv_sys.reachable_inv[OF assms(1)] assms(2)] obtain lp
    where "cv_loop_of (cs_pcs s ! i) = Some lp" "lp_f lp (cv_load (cs_shared s)) = Inl e" by blast
  with assms(3)[of lp] show ?thesis by simp
qed auto

theorem condvar_never_dangles_witness:
  "\<exists>pc sh. cv_next cv_hurry cv_hurry 512 1 False (Cv_Walk cv_demo_ptr 0)
     (cs_shared (cv_demo \<lparr>ptr_prov = None, ptr_addr = 1\<rparr> cv_demo_nodes
       (Cv_Parked cv_demo_loop \<lparr>spin_count = 15\<rparr> 256) (Cv_Walk cv_demo_ptr 0))) = Inr (pc, sh)"
  using condvar_never_dangles[OF cv_demo_waking, of 1] by (simp add: cv_demo_def)

text \<open>The thread has still to wake this node.\<close>

definition cv_taken :: "(usize \<Rightarrow> cv_node option) \<Rightarrow> cv_pc \<Rightarrow> usize \<Rightarrow> bool" where
  "cv_taken m pc a \<longleftrightarrow> (\<exists>w. cv_todo m pc w \<and> a \<in> set w)"

lemma cv_chain_unique: "cv_chain m p xs \<Longrightarrow> cv_chain m p ys \<Longrightarrow> xs = ys"
proof (induction xs arbitrary: p ys)
  case Nil
  then show ?case by (cases ys) auto
next
  case (Cons x xs)
  then show ?case by (cases ys) auto
qed

lemma cv_todo_unique: "cv_todo m pc w \<Longrightarrow> cv_todo m pc w' \<Longrightarrow> w = w'"
  by (cases pc) (auto dest: cv_chain_unique)

lemma cv_listed:
  assumes "cv_lists m pcs xs ws"
  shows "cv_waiting m pcs a \<longleftrightarrow> (a \<in> set xs \<or> (\<exists>j < length pcs. cv_taken m (pcs ! j) a))"
    and "a \<in> set xs \<Longrightarrow> j < length pcs \<Longrightarrow> \<not> cv_taken m (pcs ! j) a"
    and "j < length pcs \<Longrightarrow> k < length pcs \<Longrightarrow> cv_taken m (pcs ! j) a \<Longrightarrow> cv_taken m (pcs ! k) a \<Longrightarrow> j = k"
proof -
  have taken: "cv_taken m (pcs ! j) a \<longleftrightarrow> a \<in> set (ws j)" if "j < length pcs" for j
  proof -
    have "cv_todo m (pcs ! j) (ws j)" using assms that by (simp add: cv_lists_def)
    then show ?thesis by (auto simp: cv_taken_def dest: cv_todo_unique)
  qed
  show "cv_waiting m pcs a \<longleftrightarrow> (a \<in> set xs \<or> (\<exists>j < length pcs. cv_taken m (pcs ! j) a))"
    using assms taken unfolding cv_lists_def by metis
  show "a \<in> set xs \<Longrightarrow> j < length pcs \<Longrightarrow> \<not> cv_taken m (pcs ! j) a"
    using assms taken[of j] unfolding cv_lists_def by blast
  show "j < length pcs \<Longrightarrow> k < length pcs \<Longrightarrow> cv_taken m (pcs ! j) a \<Longrightarrow> cv_taken m (pcs ! k) a \<Longrightarrow> j = k"
    using assms taken[of j] taken[of k] unfolding cv_lists_def by blast
qed

lemma cv_parked_listed:
  assumes inv: "cv_inv s" and i: "i < length (cs_pcs s)" and pc: "cs_pcs s ! i = Cv_Parked lp b a"
  obtains n xs where "cv_nodes (cs_shared s) a = Some n" "cn_unpark n = i"
    "cv_chain (cv_nodes (cs_shared s)) (cv_head (cs_shared s)) xs"
    "cn_ready n \<or>
      (a \<in> set xs \<and> (\<forall>j < length (cs_pcs s). \<not> cv_taken (cv_nodes (cs_shared s)) (cs_pcs s ! j) a)) \<or>
      (a \<notin> set xs \<and> (\<exists>!j. j < length (cs_pcs s) \<and> cv_taken (cv_nodes (cs_shared s)) (cs_pcs s ! j) a))"
proof -
  obtain xs ws where own: "cv_owners (cv_nodes (cs_shared s)) (cs_pcs s)"
    and ch: "cv_chain (cv_nodes (cs_shared s)) (cv_head (cs_shared s)) xs"
    and li: "cv_lists (cv_nodes (cs_shared s)) (cs_pcs s) xs ws" using inv by (rule cv_invE)
  obtain n where n: "cv_nodes (cs_shared s) a = Some n" "cn_unpark n = i"
    using own i pc by (force simp: cv_owners_def)
  have "cn_ready n \<or> cv_waiting (cv_nodes (cs_shared s)) (cs_pcs s) a" using n pc by (auto simp: cv_waiting_def)
  with cv_listed[OF li, where a = a] that[OF n ch] show thesis by blast
qed

text \<open>
  Claim C5. No waiting thread is forgotten: while a thread is parked its node is alive and names it, and
  the node is ready (the thread will return), or it is in the list on the word, or exactly one waker
  still has it in its list.
\<close>

theorem condvar_no_lost_waiter:
  assumes "reachable cv_init (cv_step lfw blw) s" and "i < length (cs_pcs s)" and "cs_pcs s ! i = Cv_Parked lp b a"
  shows "\<exists>n xs. cv_nodes (cs_shared s) a = Some n \<and> cn_unpark n = i \<and>
    cv_chain (cv_nodes (cs_shared s)) (cv_head (cs_shared s)) xs \<and>
    (cn_ready n \<or>
      (a \<in> set xs \<and> (\<forall>j < length (cs_pcs s). \<not> cv_taken (cv_nodes (cs_shared s)) (cs_pcs s ! j) a)) \<or>
      (a \<notin> set xs \<and> (\<exists>!j. j < length (cs_pcs s) \<and> cv_taken (cv_nodes (cs_shared s)) (cs_pcs s ! j) a)))"
  by (rule cv_parked_listed[OF cv_sys.reachable_inv[OF assms(1)] assms(2,3)]) (intro exI conjI)

theorem condvar_no_lost_waiter_witness:
  "\<exists>!j. j < length [Cv_Parked cv_demo_loop \<lparr>spin_count = 15\<rparr> 256, Cv_Walk cv_demo_ptr 0] \<and>
    cv_taken cv_demo_nodes ([Cv_Parked cv_demo_loop \<lparr>spin_count = 15\<rparr> 256, Cv_Walk cv_demo_ptr 0] ! j) 256"
proof -
  let ?s = "cv_demo \<lparr>ptr_prov = None, ptr_addr = 1\<rparr> cv_demo_nodes
    (Cv_Parked cv_demo_loop \<lparr>spin_count = 15\<rparr> 256) (Cv_Walk cv_demo_ptr 0)"
  have s: "cv_nodes (cs_shared ?s) = cv_demo_nodes" "0 < length (cs_pcs ?s)"
    "cs_pcs ?s = [Cv_Parked cv_demo_loop \<lparr>spin_count = 15\<rparr> 256, Cv_Walk cv_demo_ptr 0]"
    by (simp_all add: cv_demo_def)
  have "cv_head (cs_shared ?s) = 0"
    by (simp add: cv_demo_def cv_head_def aps_load_def ps_ptr_def wrapping_sub_def Let_def)
  then have xs: "256 \<notin> set xs" if "cv_chain cv_demo_nodes (cv_head (cs_shared ?s)) xs" for xs
    using that by (cases xs) auto
  have n: "\<not> cn_ready n" if "cv_demo_nodes 256 = Some n" for n using that by (auto simp: cv_demo_nodes_def)
  have "cs_pcs ?s ! 0 = Cv_Parked cv_demo_loop \<lparr>spin_count = 15\<rparr> 256" using s(3) by simp
  from condvar_no_lost_waiter[OF cv_demo_waking s(2) this, unfolded s(1,3)] show ?thesis
    using n by (elim exE conjE disjE) (auto dest: xs)
qed

text \<open>
  Claim C17. Each operation takes effect at one access: a step of a thread either leaves the state and
  its call as they are, or it is the update (the closure's answer for the state that is replaced, which
  is returned), the break, or the store of \<open>set\<close>.
\<close>

theorem condvar_refines_spec:
  assumes "reachable cv_init (cv_step lfw blw) s" and "i < length (cs_pcs s)"
    and "cv_fresh addr (cv_leave (cs_pcs s ! i) (cs_shared s))"
    and "cv_next lfw blw addr i spurious (cs_pcs s ! i) (cs_shared s) = Inr (pc, sh)"
  shows "cv_spec (cv_load (cs_shared s)) (cv_phase_of (cs_pcs s ! i)) (cv_load sh) (cv_phase_of pc)"
  using cv_next_spec[OF assms(4) _ cv_fresh_aligned[OF assms(3)]] cv_ask.reachable_inv[OF assms(1)] assms(2)
  by (simp add: cv_inv_asked_def)

text \<open>Thread 1 at the swap of \<open>set\<close>, and a thread at the exchange of an update that adds one.\<close>

theorem condvar_refines_spec_witness:
  "\<exists>pc sh pc' sh'.
    cv_next cv_hurry cv_hurry 512 1 False (Cv_Swap 1) (cs_shared (cv_demo cv_demo_ptr cv_demo_nodes
      (Cv_Parked cv_demo_loop \<lparr>spin_count = 15\<rparr> 256) (Cv_Swap 1))) = Inr (pc, sh) \<and> cv_load sh = 1 \<and>
    cv_spec 0 (Cv_Setting 1) 1 (Cv_Answered (Inr 0)) \<and>
    cv_next cv_hurry cv_hurry 256 0 False (Cv_Cas cv_demo_add backoff_new \<lparr>ps_raw = null_mut\<rparr> 1)
      (cs_shared (cv_demo null_mut (\<lambda>_. None) (Cv_Cas cv_demo_add backoff_new \<lparr>ps_raw = null_mut\<rparr> 1) Cv_Idle)) = Inr (pc', sh') \<and>
    cv_load sh' = 1 \<and> cv_spec 0 (Cv_Asking cv_demo_add) 1 (Cv_Answered (Inr 0))"
proof -
  let ?s = "cv_demo cv_demo_ptr cv_demo_nodes (Cv_Parked cv_demo_loop \<lparr>spin_count = 15\<rparr> 256) (Cv_Swap 1)"
  let ?t = "cv_demo null_mut (\<lambda>_. None) (Cv_Cas cv_demo_add backoff_new \<lparr>ps_raw = null_mut\<rparr> 1) Cv_Idle"
  obtain sh where sh: "cv_next cv_hurry cv_hurry 512 1 False (cs_pcs ?s ! 1) (cs_shared ?s) = Inr (Cv_Walk cv_demo_ptr 0, sh)"
      "cv_load sh = 1" and load: "cv_load (cs_shared ?s) = 0"
    by (simp add: cv_demo_def aps_swap_def cv_load_def cv_demo_ptr_def cv_word_eval)
  have "1 < length (cs_pcs ?s)" "cv_fresh 512 (cv_leave (cs_pcs ?s ! 1) (cs_shared ?s))"
    by (simp_all add: cv_demo_def cv_fresh_def cv_leave_def cv_demo_nodes_def)
  from condvar_refines_spec[OF cv_demo_swapping this sh(1)] load sh(2)
  have set_ok: "cv_spec 0 (Cv_Setting 1) 1 (Cv_Answered (Inr 0))" by (simp add: cv_demo_def)
  obtain sh' where sh': "cv_next cv_hurry cv_hurry 256 0 False (cs_pcs ?t ! 0) (cs_shared ?t) = Inr (Cv_Done (Inr 0), sh')"
      "cv_load sh' = 1" and load': "cv_load (cs_shared ?t) = 0"
    by (simp add: cv_demo_def aps_compare_exchange_weak_def cv_load_def cv_updated_def ps_with_state_def cv_demo_add_def
        cv_word_eval)
  have "0 < length (cs_pcs ?t)" "cv_fresh 256 (cv_leave (cs_pcs ?t ! 0) (cs_shared ?t))"
    by (simp_all add: cv_demo_def cv_fresh_def cv_leave_def)
  from condvar_refines_spec[OF cv_demo_adding this sh'(1)] load' sh'(2)
  have "cv_spec 0 (Cv_Asking cv_demo_add) 1 (Cv_Answered (Inr 0))" by (simp add: cv_demo_def)
  with sh sh' set_ok show ?thesis by (simp add: cv_demo_def)
qed

text \<open>
  \<open>set\<close> with a wake, when no other thread runs: it takes two accesses and three for every waiting thread, makes every
  node of the list ready and unparks their tokens, the thread that came last first.
\<close>

lemma cv_set_wakes:
  assumes "cv_inv s" and "wake \<noteq> Wake_None"
  shows "\<exists>xs sh. cv_chain (cv_nodes (cs_shared s)) (cv_head (cs_shared s)) xs \<and>
    cv_alone lfw blw addr i (3 * length xs + 2) (cv_set wake st) (cs_shared s) =
      Inr (Cv_Done (Inr (cv_load (cs_shared s))), sh) \<and>
    cv_load sh = st \<and> cv_head sh = 0 \<and> cv_nodes sh = cv_ready_all xs (cv_nodes (cs_shared s)) \<and>
    cv_unparks sh = cv_unparks (cs_shared s) @ cv_tokens xs (cv_nodes (cs_shared s))"
proof -
  let ?sh = "cs_shared s"
  obtain xs ws where ch: "cv_chain (cv_nodes ?sh) (cv_head ?sh) xs" and li: "cv_lists (cv_nodes ?sh) (cs_pcs s) xs ws"
    using assms(1) by (rule cv_invE)
  define at where "at = (cv_atomic ?sh)\<lparr>aps_cell := ps_raw (ps_null_state (cv_trunc st))\<rparr>"
  define cur where "cur = aps_load (cv_atomic ?sh)"
  have cur: "ptr_addr (ps_ptr cv_align cur) = cv_head ?sh" "cv_state cur = cv_load ?sh"
    by (simp_all add: cur_def cv_head_def cv_load_def)
  have "cv_next lfw blw addr i False (cv_set wake st) ?sh =
      Inr (Cv_Walk (ps_ptr cv_align cur) (cv_load ?sh), ?sh\<lparr>cv_atomic := at\<rparr>)"
    using assms(2) cur(2) by (simp add: cv_set_def aps_swap_def at_def cur_def aps_load_def)
  moreover have "cv_alone lfw blw addr i (3 * length xs + 1) (Cv_Walk (ps_ptr cv_align cur) (cv_load ?sh))
      (?sh\<lparr>cv_atomic := at\<rparr>) = Inr (Cv_Done (Inr (cv_load ?sh)), ?sh\<lparr>cv_atomic := at,
        cv_nodes := cv_ready_all xs (cv_nodes ?sh), cv_unparks := cv_unparks ?sh @ cv_tokens xs (cv_nodes ?sh)\<rparr>)"
    using cv_alone_walk[of "?sh\<lparr>cv_atomic := at\<rparr>" "ps_ptr cv_align cur" xs] ch cur li by (simp add: cv_lists_def)
  ultimately show ?thesis using ch
    by (intro exI[of _ xs] exI) (auto simp: at_def cv_load_def cv_head_def aps_load_def null_mut_def)
qed

end
