(* ===== verification/Cond_Var_Client.thy ===== *)
theory Cond_Var_Client
  imports Cond_Var_State
begin

text \<open>
  What the locks built on a condition variable (\<open>src/src/mutex.rs\<close>, \<open>src/src/rwlock.rs\<close>) share: threads
  at places of their own, some of which are inside a call of the condition variable. Forgetting the
  places outside the calls gives a system of the condition variable.
\<close>

record 'p cl_system =
  cl_shared :: cv_shared
  cl_pcs :: "'p list"

definition cl_abs :: "('p \<Rightarrow> cv_pc) \<Rightarrow> 'p cl_system \<Rightarrow> cv_system" where
  "cl_abs view s = \<lparr>cs_shared = cl_shared s, cs_pcs = map view (cl_pcs s)\<rparr>"

lemma cl_abs_simps [simp]:
  "cs_shared (cl_abs view s) = cl_shared s"
  "cs_pcs (cl_abs view s) = map view (cl_pcs s)"
  by (simp_all add: cl_abs_def)

lemma cv_zero_new: "cv_zero = cv_new 0"
  by (simp add: cv_zero_def cv_new_def aps_null_zero_def aps_null_state_def aps_new_def cv_trunc_def
      state_new_truncated_def wrapping_add_def null_mut_def)

text \<open>A step of a thread inside a call, a single access, the start of a call, its return, and a step outside.\<close>

lemma cl_abs_cv:
  assumes "i < length (cl_pcs s)" and "cv_fresh addr (cv_leave (view (cl_pcs s ! i)) (cl_shared s))"
    and "cv_next lfw blw addr i spurious (view (cl_pcs s ! i)) (cl_shared s) = Inr (view pc, sh)"
  shows "cv_step lfw blw (cl_abs view s) (cl_abs view (s\<lparr>cl_shared := sh, cl_pcs := (cl_pcs s)[i := pc]\<rparr>))"
  using cv_runs[of i "cl_abs view s" addr lfw blw spurious "view pc" sh] assms by (simp add: cl_abs_def map_update)

lemma cl_map_same:
  assumes "i < length xs" and "view pc = view (xs ! i)"
  shows "map view (xs[i := pc]) = map view xs"
  using assms by (auto simp: list_eq_iff_nth_eq nth_list_update)

lemma cl_abs_try:
  assumes "i < length (cl_pcs s)" and "view (cl_pcs s ! i) = Cv_Idle" and "view pc = Cv_Idle"
    and "cv_optimistic_update old new (cl_shared s) = (ok, sh)"
  shows "cv_step lfw blw (cl_abs view s) (cl_abs view (s\<lparr>cl_shared := sh, cl_pcs := (cl_pcs s)[i := pc]\<rparr>))"
  using cv_optimistic[of i "cl_abs view s" old new ok sh lfw blw] assms cl_map_same[of i "cl_pcs s" view pc]
  by (simp add: cl_abs_def)

lemma cl_abs_starts:
  assumes "i < length (cl_pcs s)" and "view (cl_pcs s ! i) = Cv_Idle"
    and "view pc = Cv_Load lp backoff_new \<or> view pc = Cv_Swap st"
  shows "cv_step lfw blw (cl_abs view s) (cl_abs view (s\<lparr>cl_pcs := (cl_pcs s)[i := pc]\<rparr>))"
  using cv_starts[of i "cl_abs view s" "view pc" lp st lfw blw] assms by (simp add: cl_abs_def map_update)

lemma cl_abs_returns:
  assumes "i < length (cl_pcs s)" and "view (cl_pcs s ! i) = Cv_Done r" and "view pc = Cv_Idle"
  shows "cv_step lfw blw (cl_abs view s) (cl_abs view (s\<lparr>cl_pcs := (cl_pcs s)[i := pc]\<rparr>))"
  using cv_returns[of i "cl_abs view s" r lfw blw] assms by (simp add: cl_abs_def map_update)

lemma cl_abs_stays:
  assumes "i < length (cl_pcs s)" and "view pc = view (cl_pcs s ! i)"
  shows "cl_abs view (s\<lparr>cl_pcs := (cl_pcs s)[i := pc]\<rparr>) = cl_abs view s"
  using cl_map_same[OF assms] by (simp add: cl_abs_def)

end
