(* ===== verification/Raw_Rw_Lock.thy ===== *)
theory Raw_Rw_Lock
  imports Cond_Var_Client Lock_Api
begin

text \<open>
  The raw reader-writer lock of \<open>src/src/rwlock.rs\<close>: a condition variable whose state is the number of
  readers, at most 254, or 255 for a writer. The methods with and without a \<open>park\<close> argument differ in
  the parking primitive only.
\<close>

section \<open>Operations\<close>

definition rl_unlocked :: u8 where
  "rl_unlocked = 0"

definition rl_max_shared :: u8 where
  "rl_max_shared = 254"

definition rl_exclusive :: u8 where
  "rl_exclusive = 255"

definition rl_new :: cv_shared where
  "rl_new = cv_zero"

definition rl_is_locked :: "cv_shared \<Rightarrow> bool" where
  "rl_is_locked sh \<longleftrightarrow> cv_load sh \<noteq> rl_unlocked"

definition rl_try_lock_exclusive :: "cv_shared \<Rightarrow> bool \<times> cv_shared" where
  "rl_try_lock_exclusive sh = cv_optimistic_update rl_unlocked rl_exclusive sh"

text \<open>The closures of the shared and the exclusive lock, and of \<open>unlock_shared\<close>.\<close>

definition rl_shared_choice :: "u8 \<Rightarrow> u8 option res" where
  "rl_shared_choice st = Inr (if st = rl_exclusive \<or> st = rl_max_shared then None else Some (st + 1))"

definition rl_exclusive_choice :: "u8 \<Rightarrow> u8 option res" where
  "rl_exclusive_choice st = Inr (if st = rl_unlocked then Some rl_exclusive else None)"

definition rl_release_choice :: "u8 \<Rightarrow> u8 res" where
  "rl_release_choice st = (if st = rl_unlocked then Inl Explicit_panic else Inr (st - 1))"

text \<open>Where the loops start.\<close>

definition rl_try_lock_shared :: cv_pc where
  "rl_try_lock_shared = cv_update_break_no_wake rl_shared_choice"

datatype rl_mode = Rl_S | Rl_X

definition rl_fast_state :: "rl_mode \<Rightarrow> u8" where
  "rl_fast_state m = (case m of Rl_S \<Rightarrow> 1 | Rl_X \<Rightarrow> rl_exclusive)"

definition rl_lock_loop :: "rl_mode \<Rightarrow> cv_pc" where
  "rl_lock_loop m = cv_update_wait_park Wake_None (case m of Rl_S \<Rightarrow> rl_shared_choice | Rl_X \<Rightarrow> rl_exclusive_choice)"

definition rl_unlock_shared :: cv_pc where
  "rl_unlock_shared = cv_update Wake_None rl_release_choice"

definition rl_unlock_exclusive :: cv_pc where
  "rl_unlock_exclusive = cv_set Wake_One 0"

section \<open>Any number of threads\<close>

datatype rl_pc =
    Rl_Idle
  | Rl_Fast rl_mode             \<comment> \<open>\<open>lock_shared\<close>, \<open>lock_exclusive\<close>, before their \<open>optimistic_update\<close>\<close>
  | Rl_Lock rl_mode cv_pc       \<comment> \<open>in their \<open>update_wait_park\<close>\<close>
  | Rl_Try cv_pc                \<comment> \<open>\<open>try_lock_shared\<close>\<close>
  | Rl_Shared
  | Rl_Exclusive
  | Rl_Unlock_Shared cv_pc
  | Rl_Unlock_Exclusive cv_pc

type_synonym rl_system = "rl_pc cl_system"

definition rl_held :: "rl_mode \<Rightarrow> rl_pc" where
  "rl_held m = (case m of Rl_S \<Rightarrow> Rl_Shared | Rl_X \<Rightarrow> Rl_Exclusive)"

text \<open>The call of the condition variable that a thread is in, the call replaced, and what follows its result.\<close>

fun rl_cv :: "rl_pc \<Rightarrow> cv_pc" where
  "rl_cv (Rl_Lock m c) = c"
| "rl_cv (Rl_Try c) = c"
| "rl_cv (Rl_Unlock_Shared c) = c"
| "rl_cv (Rl_Unlock_Exclusive c) = c"
| "rl_cv _ = Cv_Idle"

fun rl_with :: "rl_pc \<Rightarrow> cv_pc \<Rightarrow> rl_pc" where
  "rl_with (Rl_Lock m _) c = Rl_Lock m c"
| "rl_with (Rl_Try _) c = Rl_Try c"
| "rl_with (Rl_Unlock_Shared _) c = Rl_Unlock_Shared c"
| "rl_with (Rl_Unlock_Exclusive _) c = Rl_Unlock_Exclusive c"
| "rl_with pc c = pc"

fun rl_return :: "rl_pc \<Rightarrow> u8 + u8 \<Rightarrow> rl_pc res" where
  "rl_return (Rl_Lock m _) r = bind_res (cv_result_ok r) (\<lambda>_. Inr (rl_held m))"
| "rl_return (Rl_Try _) r = Inr (case r of Inr _ \<Rightarrow> Rl_Shared | Inl _ \<Rightarrow> Rl_Idle)"
| "rl_return (Rl_Unlock_Shared _) r = bind_res (cv_result_ok r) (\<lambda>_. Inr Rl_Idle)"
| "rl_return (Rl_Unlock_Exclusive _) r = Inr Rl_Idle"
| "rl_return pc r = Inr pc"

definition rl_next :: "(back_off \<Rightarrow> back_off) \<Rightarrow> (back_off \<Rightarrow> back_off) \<Rightarrow> usize \<Rightarrow> nat \<Rightarrow> bool \<Rightarrow> rl_pc \<Rightarrow> cv_shared
    \<Rightarrow> (rl_pc \<times> cv_shared) res" where
  "rl_next lfw blw addr thread spurious pc sh =
     (case pc of
        Rl_Fast m \<Rightarrow>
          (case cv_optimistic_update rl_unlocked (rl_fast_state m) sh of
             (ok, sh') \<Rightarrow> Inr (if ok then rl_held m else Rl_Lock m (rl_lock_loop m), sh'))
      | _ \<Rightarrow>
          (case rl_cv pc of
             Cv_Done r \<Rightarrow> bind_res (rl_return pc r) (\<lambda>pc'. Inr (pc', sh))
           | c \<Rightarrow> bind_res (cv_next lfw blw addr thread spurious c sh) (\<lambda>(c', sh'). Inr (rl_with pc c', sh'))))"

definition rl_init :: "rl_system \<Rightarrow> bool" where
  "rl_init s \<longleftrightarrow> cl_shared s = rl_new \<and> set (cl_pcs s) \<subseteq> {Rl_Idle}"

text \<open>A thread without the lock calls one of the four lock methods; a holder calls the unlock method of its mode.\<close>

inductive rl_step :: "(back_off \<Rightarrow> back_off) \<Rightarrow> (back_off \<Rightarrow> back_off) \<Rightarrow> rl_system \<Rightarrow> rl_system \<Rightarrow> bool"
  for lfw blw where
  rl_tries_exclusive: "i < length (cl_pcs s) \<Longrightarrow> cl_pcs s ! i = Rl_Idle \<Longrightarrow>
    rl_try_lock_exclusive (cl_shared s) = (ok, sh) \<Longrightarrow>
    rl_step lfw blw s (s\<lparr>cl_shared := sh, cl_pcs := (cl_pcs s)[i := if ok then Rl_Exclusive else Rl_Idle]\<rparr>)"
| rl_tries_shared: "i < length (cl_pcs s) \<Longrightarrow> cl_pcs s ! i = Rl_Idle \<Longrightarrow>
    rl_step lfw blw s (s\<lparr>cl_pcs := (cl_pcs s)[i := Rl_Try rl_try_lock_shared]\<rparr>)"
| rl_locks: "i < length (cl_pcs s) \<Longrightarrow> cl_pcs s ! i = Rl_Idle \<Longrightarrow>
    rl_step lfw blw s (s\<lparr>cl_pcs := (cl_pcs s)[i := Rl_Fast m]\<rparr>)"
| rl_unlocks_shared: "i < length (cl_pcs s) \<Longrightarrow> cl_pcs s ! i = Rl_Shared \<Longrightarrow>
    rl_step lfw blw s (s\<lparr>cl_pcs := (cl_pcs s)[i := Rl_Unlock_Shared rl_unlock_shared]\<rparr>)"
| rl_unlocks_exclusive: "i < length (cl_pcs s) \<Longrightarrow> cl_pcs s ! i = Rl_Exclusive \<Longrightarrow>
    rl_step lfw blw s (s\<lparr>cl_pcs := (cl_pcs s)[i := Rl_Unlock_Exclusive rl_unlock_exclusive]\<rparr>)"
| rl_runs: "i < length (cl_pcs s) \<Longrightarrow> cv_fresh addr (cv_leave (rl_cv (cl_pcs s ! i)) (cl_shared s)) \<Longrightarrow>
    rl_next lfw blw addr i spurious (cl_pcs s ! i) (cl_shared s) = Inr (pc, sh) \<Longrightarrow>
    rl_step lfw blw s (s\<lparr>cl_shared := sh, cl_pcs := (cl_pcs s)[i := pc]\<rparr>)"

section \<open>The lock as a client of the condition variable\<close>

abbreviation rl_abs :: "rl_system \<Rightarrow> cv_system" where
  "rl_abs \<equiv> cl_abs rl_cv"

text \<open>The loops with their closures.\<close>

definition rl_lock_lp :: "rl_mode \<Rightarrow> cv_loop" where
  "rl_lock_lp m = \<lparr>lp_f = (\<lambda>st. bind_res ((case m of Rl_S \<Rightarrow> rl_shared_choice | Rl_X \<Rightarrow> rl_exclusive_choice) st)
     (\<lambda>r. Inr (case r of Some s' \<Rightarrow> Cv_Update s' | None \<Rightarrow> Cv_Wait))), lp_wake = Wake_None, lp_backoff = True\<rparr>"

definition rl_try_lp :: cv_loop where
  "rl_try_lp = \<lparr>lp_f = cv_break_decision rl_shared_choice, lp_wake = Wake_None, lp_backoff = False\<rparr>"

definition rl_release_lp :: cv_loop where
  "rl_release_lp = \<lparr>lp_f = cv_break_decision (\<lambda>st. bind_res (rl_release_choice st) (\<lambda>s'. Inr (Some s'))),
     lp_wake = Wake_None, lp_backoff = False\<rparr>"

lemma rl_starts [simp]:
  "rl_lock_loop m = Cv_Load (rl_lock_lp m) backoff_new"
  "rl_try_lock_shared = Cv_Load rl_try_lp backoff_new"
  "rl_unlock_shared = Cv_Load rl_release_lp backoff_new"
  "rl_unlock_exclusive = Cv_Swap rl_unlocked"
  by (simp_all add: rl_lock_loop_def cv_update_wait_park_def cv_update_wait_break_park_def rl_lock_lp_def
      rl_try_lock_shared_def cv_update_break_no_wake_def rl_try_lp_def rl_unlock_shared_def cv_update_def
      cv_update_break_def rl_release_lp_def rl_unlock_exclusive_def cv_set_def rl_unlocked_def)

lemma rl_no_wake [simp]: "lp_wake (rl_lock_lp m) = Wake_None" "lp_wake rl_try_lp = Wake_None" "lp_wake rl_release_lp = Wake_None"
  by (simp_all add: rl_lock_lp_def rl_try_lp_def rl_release_lp_def)

text \<open>What a step of a thread can be.\<close>

lemma rl_next_done:
  "rl_cv pc = Cv_Done r \<Longrightarrow> rl_next lfw blw addr i spurious pc sh = bind_res (rl_return pc r) (\<lambda>pc'. Inr (pc', sh))"
  by (cases pc) (simp_all add: rl_next_def)

lemma rl_next_call:
  assumes "\<forall>m. pc \<noteq> Rl_Fast m" and "\<forall>r. rl_cv pc \<noteq> Cv_Done r"
  shows "rl_next lfw blw addr i spurious pc sh =
    bind_res (cv_next lfw blw addr i spurious (rl_cv pc) sh) (\<lambda>(c', sh'). Inr (rl_with pc c', sh'))"
proof -
  have "rl_next lfw blw addr i spurious pc sh = (case rl_cv pc of
      Cv_Done r \<Rightarrow> bind_res (rl_return pc r) (\<lambda>pc'. Inr (pc', sh))
    | c \<Rightarrow> bind_res (cv_next lfw blw addr i spurious c sh) (\<lambda>(c', sh'). Inr (rl_with pc c', sh')))"
    using assms(1) by (auto simp: rl_next_def split: rl_pc.splits)
  with assms(2) show ?thesis by (cases "rl_cv pc") simp_all
qed

lemma rl_next_cases:
  assumes "rl_next lfw blw addr i spurious pc sh = Inr (pc', sh')"
  obtains (fast) m ok where "pc = Rl_Fast m" "cv_optimistic_update rl_unlocked (rl_fast_state m) sh = (ok, sh')"
      "pc' = (if ok then rl_held m else Rl_Lock m (rl_lock_loop m))"
    | (returns) r where "rl_cv pc = Cv_Done r" "rl_return pc r = Inr pc'" "sh' = sh"
    | (calls) c' where "\<forall>r. rl_cv pc \<noteq> Cv_Done r" "pc' = rl_with pc c'"
      "cv_next lfw blw addr i spurious (rl_cv pc) sh = Inr (c', sh')" "\<forall>m. pc \<noteq> Rl_Fast m"
proof (cases "\<exists>m. pc = Rl_Fast m")
  case True
  with assms fast show thesis by (auto simp: rl_next_def split: prod.splits)
next
  case False
  show thesis
  proof (cases "\<exists>r. rl_cv pc = Cv_Done r")
    case True
    with assms returns show thesis by (auto simp: rl_next_done bind_res_Inr_conv)
  next
    case no_return: False
    with assms False calls show thesis by (auto simp: rl_next_call bind_res_Inr_conv)
  qed
qed

lemma rl_with_cv: "rl_cv pc = Cv_Idle \<and> c = Cv_Idle \<or> rl_cv pc \<noteq> Cv_Idle \<Longrightarrow> rl_cv (rl_with pc c) = c"
  by (cases pc) auto

lemma rl_return_cv: "rl_return pc r = Inr pc' \<Longrightarrow> rl_cv pc = Cv_Done r \<Longrightarrow> rl_cv pc' = Cv_Idle"
  by (cases pc) (auto simp: bind_res_Inr_conv rl_held_def split: rl_mode.splits sum.splits)

lemma rl_simulates: "rl_step lfw blw s t \<Longrightarrow> (cv_step lfw blw)\<^sup>*\<^sup>* (rl_abs s) (rl_abs t)"
proof (induction rule: rl_step.induct)
  case (rl_tries_exclusive i s ok sh)
  then show ?case by (intro r_into_rtranclp cl_abs_try) (auto simp: rl_try_lock_exclusive_def)
next
  case (rl_tries_shared i s)
  then show ?case by (intro r_into_rtranclp cl_abs_starts) auto
next
  case (rl_locks i s m)
  then show ?case by (simp add: cl_abs_stays)
next
  case (rl_unlocks_shared i s)
  then show ?case by (intro r_into_rtranclp cl_abs_starts) auto
next
  case (rl_unlocks_exclusive i s)
  then show ?case by (intro r_into_rtranclp cl_abs_starts) auto
next
  case (rl_runs i s addr spurious pc sh)
  let ?t = "s\<lparr>cl_shared := sh, cl_pcs := (cl_pcs s)[i := pc]\<rparr>"
  from rl_runs(3) show ?case
  proof (cases rule: rl_next_cases)
    case (fast m ok)
    let ?m = "s\<lparr>cl_shared := sh, cl_pcs := (cl_pcs s)[i := Rl_Idle]\<rparr>"
    have "cv_step lfw blw (rl_abs s) (rl_abs ?m)"
      using rl_runs(1) fast by (intro cl_abs_try) auto
    moreover have "(cv_step lfw blw)\<^sup>*\<^sup>* (rl_abs ?m) (rl_abs ?t)"
    proof (cases ok)
      case True
      with fast rl_runs(1) cl_abs_stays[of i ?m rl_cv pc] show ?thesis by (cases m) (auto simp: rl_held_def)
    next
      case False
      with fast cl_abs_starts[of i ?m rl_cv pc "rl_lock_lp m" undefined lfw blw] rl_runs(1) show ?thesis by auto
    qed
    ultimately show ?thesis by (rule converse_rtranclp_into_rtranclp)
  next
    case (returns r)
    with rl_runs(1) cl_abs_returns[of i s rl_cv r pc] rl_return_cv show ?thesis by auto
  next
    case (calls c')
    have "c' = Cv_Idle" if "rl_cv (cl_pcs s ! i) = Cv_Idle" using calls that by auto
    then have "rl_cv pc = c'" using rl_with_cv[of "cl_pcs s ! i" c'] calls(2) by auto
    with calls rl_runs(1,2) cl_abs_cv[of i s addr rl_cv lfw blw spurious pc sh] show ?thesis by auto
  qed
qed

lemma rl_init_abs: "rl_init s \<Longrightarrow> cv_init (rl_abs s)"
  using cv_zero_new by (auto simp: rl_init_def cv_init_def cl_abs_def rl_new_def)

interpretation rl_sim: simulation rl_init "rl_step lfw blw" cv_init "cv_step lfw blw" rl_abs for lfw blw
  by unfold_locales (auto intro: rl_init_abs rl_simulates)


section \<open>The invariant\<close>

lemma rl_words [simp]: "unat rl_unlocked = 0" "unat rl_exclusive = 255" "unat rl_max_shared = 254"
  by (simp_all add: rl_unlocked_def rl_exclusive_def rl_max_shared_def)

lemma u8_less: "unat (w :: u8) < 256"
  using unsigned_less[of w] by simp

lemma rl_shared_update [simp]:
  "lp_f (rl_lock_lp Rl_S) st = Inr (Cv_Update st') \<longleftrightarrow> unat st < 254 \<and> st' = st + 1"
  "lp_f rl_try_lp st = Inr (Cv_Update st') \<longleftrightarrow> unat st < 254 \<and> st' = st + 1"
proof -
  have "st \<noteq> rl_exclusive \<and> st \<noteq> rl_max_shared \<longleftrightarrow> unat st < 254"
    using u8_less[of st] by (auto simp: word_unat_eq_iff)
  then show "lp_f (rl_lock_lp Rl_S) st = Inr (Cv_Update st') \<longleftrightarrow> unat st < 254 \<and> st' = st + 1"
    "lp_f rl_try_lp st = Inr (Cv_Update st') \<longleftrightarrow> unat st < 254 \<and> st' = st + 1"
    by (auto simp: rl_lock_lp_def rl_try_lp_def cv_break_decision_def rl_shared_choice_def)
qed

lemma rl_other_updates [simp]:
  "lp_f (rl_lock_lp Rl_X) st = Inr (Cv_Update st') \<longleftrightarrow> st = rl_unlocked \<and> st' = rl_exclusive"
  "lp_f rl_release_lp st = Inr (Cv_Update st') \<longleftrightarrow> st \<noteq> rl_unlocked \<and> st' = st - 1"
  "lp_f (rl_lock_lp m) st \<noteq> Inr Cv_Break"
  "lp_f rl_release_lp st \<noteq> Inr Cv_Break"
  by (cases m; auto simp: rl_lock_lp_def rl_exclusive_choice_def rl_release_lp_def cv_break_decision_def
      rl_release_choice_def rl_shared_choice_def)+

text \<open>Holding runs from the access that takes the lock to the access that gives it up.\<close>

fun rl_reads :: "rl_pc \<Rightarrow> bool" where
  "rl_reads Rl_Shared = True"
| "rl_reads (Rl_Lock m c) = (m = Rl_S \<and> (\<exists>st. cv_phase_of c = Cv_Answered (Inr st)))"
| "rl_reads (Rl_Try c) = (\<exists>st. cv_phase_of c = Cv_Answered (Inr st))"
| "rl_reads (Rl_Unlock_Shared c) = (\<exists>lp. cv_phase_of c = Cv_Asking lp)"
| "rl_reads _ = False"

fun rl_writes :: "rl_pc \<Rightarrow> bool" where
  "rl_writes Rl_Exclusive = True"
| "rl_writes (Rl_Lock m c) = (m = Rl_X \<and> (\<exists>st. cv_phase_of c = Cv_Answered (Inr st)))"
| "rl_writes (Rl_Unlock_Exclusive c) = (\<exists>st. cv_phase_of c = Cv_Setting st)"
| "rl_writes _ = False"

fun rl_ok :: "rl_pc \<Rightarrow> bool" where
  "rl_ok (Rl_Lock m c) \<longleftrightarrow> cv_phase_of c = Cv_Asking (rl_lock_lp m) \<or> (\<exists>st. c = Cv_Done (Inr st))"
| "rl_ok (Rl_Try c) \<longleftrightarrow> cv_phase_of c = Cv_Asking rl_try_lp \<or> (\<exists>r. c = Cv_Done r)"
| "rl_ok (Rl_Unlock_Shared c) \<longleftrightarrow> cv_phase_of c = Cv_Asking rl_release_lp \<or> (\<exists>st. c = Cv_Done (Inr st))"
| "rl_ok (Rl_Unlock_Exclusive c) \<longleftrightarrow> cv_phase_of c = Cv_Setting rl_unlocked \<or> (\<exists>st. cv_phase_of c = Cv_Answered (Inr st))"
| "rl_ok _ = True"

definition rl_readers :: "rl_system \<Rightarrow> nat" where
  "rl_readers s = sum_list (map (\<lambda>pc. of_bool (rl_reads pc)) (cl_pcs s))"

definition rl_writers :: "rl_system \<Rightarrow> nat" where
  "rl_writers s = sum_list (map (\<lambda>pc. of_bool (rl_writes pc)) (cl_pcs s))"

text \<open>
  The state counts the readers, and a writer as 255 of them. It is a byte, so there is one writer and no
  reader, or at most 254 readers.
\<close>

definition rl_counts :: "rl_system \<Rightarrow> bool" where
  "rl_counts s \<longleftrightarrow> (\<forall>i < length (cl_pcs s). rl_ok (cl_pcs s ! i) \<and> cv_asked (rl_cv (cl_pcs s ! i))) \<and>
     unat (cv_load (cl_shared s)) = rl_readers s + 255 * rl_writers s \<and> rl_readers s \<le> 254"

definition rl_inv :: "rl_system \<Rightarrow> bool" where
  "rl_inv s \<longleftrightarrow> cv_inv_asked (rl_abs s) \<and> rl_counts s"

lemma rl_counts_update:
  assumes inv: "rl_counts s" and i: "i < length (cl_pcs s)"
    and asked: "cv_asked (rl_cv pc)" and pc: "rl_ok pc"
    and count: "unat (cv_load sh) + of_bool (rl_reads (cl_pcs s ! i)) + 255 * of_bool (rl_writes (cl_pcs s ! i)) =
      unat (cv_load (cl_shared s)) + of_bool (rl_reads pc) + 255 * of_bool (rl_writes pc)"
    and le: "rl_reads pc \<Longrightarrow> \<not> rl_reads (cl_pcs s ! i) \<Longrightarrow> unat (cv_load (cl_shared s)) < 254"
  shows "rl_counts (s\<lparr>cl_shared := sh, cl_pcs := (cl_pcs s)[i := pc]\<rparr>)"
proof -
  let ?t = "s\<lparr>cl_shared := sh, cl_pcs := (cl_pcs s)[i := pc]\<rparr>"
  obtain n where n: "rl_readers s = n + of_bool (rl_reads (cl_pcs s ! i))" "rl_readers ?t = n + of_bool (rl_reads pc)"
    using sum_list_map_frame[OF i, of "\<lambda>pc. of_bool (rl_reads pc)"] unfolding rl_readers_def by auto
  obtain k where k: "rl_writers s = k + of_bool (rl_writes (cl_pcs s ! i))" "rl_writers ?t = k + of_bool (rl_writes pc)"
    using sum_list_map_frame[OF i, of "\<lambda>pc. of_bool (rl_writes pc)"] unfolding rl_writers_def by auto
  have "unat (cv_load (cl_shared s)) = n + of_bool (rl_reads (cl_pcs s ! i)) + 255 * (k + of_bool (rl_writes (cl_pcs s ! i)))"
    "n + of_bool (rl_reads (cl_pcs s ! i)) \<le> 254" using inv n k by (simp_all add: rl_counts_def)
  with count have "unat (cv_load sh) = rl_readers ?t + 255 * rl_writers ?t" using n k by simp
  moreover have "rl_readers ?t \<le> 254"
    using le \<open>unat (cv_load (cl_shared s)) = _\<close> \<open>n + of_bool (rl_reads (cl_pcs s ! i)) \<le> 254\<close> n
    by (cases "rl_reads pc"; cases "rl_reads (cl_pcs s ! i)") auto
  ultimately show ?thesis using asked inv i pc by (auto simp: rl_counts_def nth_list_update)
qed

lemma rl_holder_state:
  assumes "rl_counts s" and "i < length (cl_pcs s)"
  shows "rl_reads (cl_pcs s ! i) \<Longrightarrow> cv_load (cl_shared s) \<noteq> rl_unlocked"
    and "rl_writes (cl_pcs s ! i) \<Longrightarrow> cv_load (cl_shared s) = rl_exclusive"
proof -
  have "of_bool (rl_reads (cl_pcs s ! i)) \<le> rl_readers s" "of_bool (rl_writes (cl_pcs s ! i)) \<le> rl_writers s"
    using sum_list_map_ge[OF assms(2), of "\<lambda>pc. of_bool (rl_reads pc)"]
      sum_list_map_ge[OF assms(2), of "\<lambda>pc. of_bool (rl_writes pc)"] by (simp_all add: rl_readers_def rl_writers_def)
  then show "rl_reads (cl_pcs s ! i) \<Longrightarrow> cv_load (cl_shared s) \<noteq> rl_unlocked"
    "rl_writes (cl_pcs s ! i) \<Longrightarrow> cv_load (cl_shared s) = rl_exclusive"
    using assms(1) u8_less[of "cv_load (cl_shared s)"] by (auto simp: rl_counts_def word_unat_eq_iff)
qed

lemma rl_Suc: "unat (st :: u8) < 254 \<Longrightarrow> unat (st + 1) = unat st + 1"
  by (simp add: unat_word_ariths)

lemma rl_pred: "st \<noteq> rl_unlocked \<Longrightarrow> Suc (unat (st - 1 :: u8)) = unat st"
  using unat_gt_0[of st] by (simp add: rl_unlocked_def unat_minus_one)

text \<open>A step inside a call.\<close>

lemma rl_calls_ok:
  assumes asked: "cv_asked c" and addr: "addr AND 255 = 0"
    and step: "cv_next lfw blw addr i spurious c sh = Inr (c', sh')"
    and c: "cv_phase_of c = Cv_Asking lp" and lp: "lp_wake lp = Wake_None"
  shows "cv_phase_of c' = Cv_Asking lp \<and> cv_load sh' = cv_load sh \<or>
    (c' = Cv_Done (Inr (cv_load sh)) \<and> lp_f lp (cv_load sh) = Inr (Cv_Update (cv_load sh'))) \<or>
    (c' = Cv_Done (Inl (cv_load sh)) \<and> lp_f lp (cv_load sh) = Inr Cv_Break \<and> cv_load sh' = cv_load sh)"
proof -
  from cv_next_spec[OF step asked addr] c
  have "cv_spec (cv_load sh) (Cv_Asking lp) (cv_load sh') (cv_phase_of c')" by simp
  then show ?thesis
    by cases (use cv_next_no_wake[OF step c lp] in auto)
qed


lemma rl_optimistic:
  assumes "cv_optimistic_update rl_unlocked (rl_fast_state m) sh = (ok, sh')"
  shows "ok \<Longrightarrow> cv_load sh = rl_unlocked \<and> unat (cv_load sh') =
      of_bool (rl_reads (rl_held m)) + 255 * of_bool (rl_writes (rl_held m))"
    and "\<not> ok \<Longrightarrow> sh' = sh"
  using cv_optimistic_spec(2,3)[OF assms] by (cases m; auto simp: rl_fast_state_def rl_held_def)+

lemma rl_held_simps [simp]: "rl_ok (rl_held m)" "rl_reads (rl_held m) \<longleftrightarrow> m = Rl_S" "rl_writes (rl_held m) \<longleftrightarrow> m = Rl_X"
  by (cases m; simp add: rl_held_def)+

lemma rl_calls_keep:
  assumes inv: "rl_counts s" and i: "i < length (cl_pcs s)" and addr: "addr AND 255 = 0"
    and run: "\<forall>r. rl_cv (cl_pcs s ! i) \<noteq> Cv_Done r"
    and step: "cv_next lfw blw addr thread spurious (rl_cv (cl_pcs s ! i)) (cl_shared s) = Inr (c', sh)"
  shows "rl_ok (rl_with (cl_pcs s ! i) c') \<and> cv_asked c' \<and>
    unat (cv_load sh) + of_bool (rl_reads (cl_pcs s ! i)) + 255 * of_bool (rl_writes (cl_pcs s ! i)) =
      unat (cv_load (cl_shared s)) + of_bool (rl_reads (rl_with (cl_pcs s ! i) c')) +
      255 * of_bool (rl_writes (rl_with (cl_pcs s ! i) c')) \<and>
    (rl_reads (rl_with (cl_pcs s ! i) c') \<longrightarrow> \<not> rl_reads (cl_pcs s ! i) \<longrightarrow> unat (cv_load (cl_shared s)) < 254)"
proof -
  have asked: "cv_asked (rl_cv (cl_pcs s ! i))" and ok: "rl_ok (cl_pcs s ! i)"
    using inv i by (auto simp: rl_counts_def)
  note call = rl_calls_ok[OF asked addr step]
  have asked': "cv_asked c'" using cv_next_spec[OF step asked addr] by simp
  show ?thesis
  proof (cases "cl_pcs s ! i")
    case (Rl_Lock m c)
    with ok asked' run call[of "rl_lock_lp m"] show ?thesis by (cases m) (auto simp: rl_Suc)
  next
    case (Rl_Try c)
    with ok asked' run call[of rl_try_lp] show ?thesis by (auto simp: rl_Suc)
  next
    case (Rl_Unlock_Shared c)
    with ok asked' run call[of rl_release_lp] show ?thesis by (auto simp: rl_pred)
  next
    case (Rl_Unlock_Exclusive c)
    from cv_next_spec[OF step asked addr] Rl_Unlock_Exclusive
    have "cv_spec (cv_load (cl_shared s)) (cv_phase_of c) (cv_load sh) (cv_phase_of c')" by simp
    then show ?thesis
      by cases (use ok asked' Rl_Unlock_Exclusive rl_holder_state(2)[OF inv i] in auto)
  qed (use asked' step in auto)
qed

text \<open>A step of a thread, whatever the nodes are.\<close>

lemma rl_counts_next:
  assumes inv: "rl_counts s" and i: "i < length (cl_pcs s)" and addr: "addr AND 255 = 0"
    and step: "rl_next lfw blw addr thread spurious (cl_pcs s ! i) (cl_shared s) = Inr (pc, sh)"
  shows "rl_counts (s\<lparr>cl_shared := sh, cl_pcs := (cl_pcs s)[i := pc]\<rparr>)"
proof -
  note update = rl_counts_update[OF inv i]
  have ok: "rl_ok (cl_pcs s ! i)" using inv i by (simp add: rl_counts_def)
  from step show ?thesis
  proof (cases rule: rl_next_cases)
    case (fast m ok)
    note spec = rl_optimistic[OF fast(2)]
    show ?thesis by (intro update) (use fast spec in \<open>cases ok; cases m; auto simp: rl_held_def\<close>)+
  next
    case (returns r)
    with ok show ?thesis
      by (intro update; cases "cl_pcs s ! i") (auto simp: cv_result_ok_def rl_held_def split: sum.splits rl_mode.splits)
  next
    case (calls c')
    from rl_calls_keep[OF inv i addr calls(1,3)] calls(2) rl_with_cv[of "cl_pcs s ! i" c'] show ?thesis
      by (intro update) (cases "cl_pcs s ! i"; auto)+
  qed
qed

text \<open>The start of a call, and \<open>try_lock_exclusive\<close>.\<close>

lemma rl_counts_start:
  assumes "rl_counts s" and "i < length (cl_pcs s)" and "cl_pcs s ! i = pc" and
    "pc = Rl_Idle \<and> pc' \<in> {Rl_Try rl_try_lock_shared, Rl_Fast m} \<or>
     pc = Rl_Shared \<and> pc' = Rl_Unlock_Shared rl_unlock_shared \<or>
     pc = Rl_Exclusive \<and> pc' = Rl_Unlock_Exclusive rl_unlock_exclusive"
  shows "rl_counts (s\<lparr>cl_pcs := (cl_pcs s)[i := pc']\<rparr>)"
proof -
  have "rl_counts (s\<lparr>cl_shared := cl_shared s, cl_pcs := (cl_pcs s)[i := pc']\<rparr>)"
    by (rule rl_counts_update[OF assms(1,2)]) (use assms(3,4) in auto)
  then show ?thesis by simp
qed

lemma rl_counts_try:
  assumes "rl_counts s" and "i < length (cl_pcs s)" and "cl_pcs s ! i = Rl_Idle"
    and "rl_try_lock_exclusive (cl_shared s) = (ok, sh)"
  shows "rl_counts (s\<lparr>cl_shared := sh, cl_pcs := (cl_pcs s)[i := if ok then Rl_Exclusive else Rl_Idle]\<rparr>)"
proof -
  have "cv_optimistic_update rl_unlocked (rl_fast_state Rl_X) (cl_shared s) = (ok, sh)"
    using assms(4) by (simp add: rl_try_lock_exclusive_def rl_fast_state_def)
  note spec = rl_optimistic[OF this]
  show ?thesis by (rule rl_counts_update[OF assms(1,2)]) (use assms(3) spec in \<open>cases ok; auto simp: rl_held_def\<close>)+
qed

lemma rl_step_counts: "rl_step lfw blw s t \<Longrightarrow> rl_counts s \<Longrightarrow> rl_counts t"
proof (induction rule: rl_step.induct)
  case (rl_tries_exclusive i s ok sh)
  then show ?case by (intro rl_counts_try)
next
  case (rl_runs i s addr spurious pc sh)
  then show ?case using cv_fresh_aligned by (intro rl_counts_next)
qed (auto intro: rl_counts_start)

lemma rl_step_keeps: "rl_step lfw blw s t \<Longrightarrow> rl_inv s \<Longrightarrow> rl_inv t"
  using rl_sim.step_keeps[of lfw blw s t cv_inv_asked] cv_asked_step rl_step_counts unfolding rl_inv_def by blast

lemma rl_init_inv: "rl_init s \<Longrightarrow> rl_inv s"
proof -
  assume init: "rl_init s"
  then have idle: "cl_pcs s ! i = Rl_Idle" if "i < length (cl_pcs s)" for i
    using nth_mem[OF that] init unfolding rl_init_def by blast
  have "rl_readers s = 0" "rl_writers s = 0"
    using init by (auto simp: rl_init_def rl_readers_def rl_writers_def sum_list_eq_0_iff)
  moreover have "cv_load (cl_shared s) = 0"
    using init by (simp add: rl_init_def rl_new_def cv_zero_def cv_load_def aps_load_def aps_null_zero_def
        cv_state_def ps_state_def state_value_def null_mut_def)
  ultimately show ?thesis using idle cv_init_asked[OF rl_init_abs[OF init]] by (simp add: rl_inv_def rl_counts_def)
qed

definition rl_writing :: "rl_system \<Rightarrow> nat \<Rightarrow> bool" where
  "rl_writing s i \<longleftrightarrow> i < length (cl_pcs s) \<and> rl_writes (cl_pcs s ! i)"

definition rl_holding :: "rl_system \<Rightarrow> nat \<Rightarrow> bool" where
  "rl_holding s i \<longleftrightarrow> i < length (cl_pcs s) \<and> (rl_reads (cl_pcs s ! i) \<or> rl_writes (cl_pcs s ! i))"

lemma rl_counts_exclusive:
  assumes inv: "rl_counts s" and "rl_writing s i" and "rl_holding s j"
  shows "i = j"
proof -
  from assms(2,3) have i: "i < length (cl_pcs s)" "rl_writes (cl_pcs s ! i)" and j: "j < length (cl_pcs s)"
    "rl_reads (cl_pcs s ! j) \<or> rl_writes (cl_pcs s ! j)" by (auto simp: rl_writing_def rl_holding_def)
  have total: "rl_readers s + 255 * rl_writers s < 256"
    using inv u8_less[of "cv_load (cl_shared s)"] by (simp add: rl_counts_def)
  have one: "1 \<le> rl_writers s"
    using sum_list_map_ge[OF i(1), of "\<lambda>pc. of_bool (rl_writes pc)"] i(2) by (simp add: rl_writers_def)
  have "\<not> rl_reads (cl_pcs s ! j)"
  proof
    assume "rl_reads (cl_pcs s ! j)"
    then have "1 \<le> rl_readers s"
      using sum_list_map_ge[OF j(1), of "\<lambda>pc. of_bool (rl_reads pc)"] by (simp add: rl_readers_def)
    with total one show False by simp
  qed
  with j have "rl_writes (cl_pcs s ! j)" by simp
  with total one i j show "i = j"
    using sum_list_map_two_le[of i "cl_pcs s" j "\<lambda>pc. of_bool (rl_writes pc)"] by (fastforce simp: rl_writers_def)
qed

lemma rl_inv_counts: "rl_inv s \<Longrightarrow> rl_counts s"
  by (simp add: rl_inv_def)

interpretation rl: exclusion_system rl_init "rl_step lfw blw" rl_inv rl_writing rl_holding for lfw blw
  by unfold_locales
    (auto simp: rl_writing_def rl_holding_def intro: rl_init_inv rl_step_keeps rl_counts_exclusive[OF rl_inv_counts])

text \<open>
  The lock as the lock parameter of a queue, with sequentially consistent accesses: which interleavings the lock lets
  through. What the orderings of the code hand over is in \<open>Cond_Var_Order\<close> and \<open>Flip_Rwlock\<close>, where \<open>unlock_shared\<close>
  turns out to be too weak.
\<close>

definition rl_mode_of :: "lock_mode \<Rightarrow> rl_mode" where
  "rl_mode_of m = (case m of Lk_Read \<Rightarrow> Rl_S | Lk_Write \<Rightarrow> Rl_X)"

definition rl_at :: "nat \<Rightarrow> rl_pc \<Rightarrow> rl_system \<Rightarrow> bool" where
  "rl_at i pc s \<longleftrightarrow> i < length (cl_pcs s) \<and> cl_pcs s ! i = pc"

definition rl_raw :: "(back_off \<Rightarrow> back_off) \<Rightarrow> (back_off \<Rightarrow> back_off) \<Rightarrow> rl_system raw_lock" where
  "rl_raw lfw blw = \<lparr>lk_init = rl_init,
     lk_call = (\<lambda>m i s t. rl_at i Rl_Idle s \<and> t = s\<lparr>cl_pcs := (cl_pcs s)[i := Rl_Fast (rl_mode_of m)]\<rparr>),
     lk_run = (\<lambda>i s t. i < length (cl_pcs s) \<and> (\<exists>addr spurious pc sh.
       cv_fresh addr (cv_leave (rl_cv (cl_pcs s ! i)) (cl_shared s)) \<and>
       rl_next lfw blw addr i spurious (cl_pcs s ! i) (cl_shared s) = Inr (pc, sh) \<and>
       t = s\<lparr>cl_shared := sh, cl_pcs := (cl_pcs s)[i := pc]\<rparr>)),
     lk_unlock = (\<lambda>m i s t. rl_at i (rl_held (rl_mode_of m)) s \<and> t = s\<lparr>cl_pcs := (cl_pcs s)[i :=
       case m of Lk_Read \<Rightarrow> Rl_Unlock_Shared rl_unlock_shared | Lk_Write \<Rightarrow> Rl_Unlock_Exclusive rl_unlock_exclusive]\<rparr>),
     lk_guard = (\<lambda>m i. rl_at i (rl_held (rl_mode_of m))),
     lk_idle = (\<lambda>i. rl_at i Rl_Idle)\<rparr>"

lemma rl_raw_step: "lk_step (rl_raw lfw blw) s t \<Longrightarrow> rl_step lfw blw s t"
  by (auto simp: lk_step_def lk_thread_def rl_raw_def rl_at_def rl_held_def rl_mode_of_def simp del: rl_starts
      intro: rl_locks rl_unlocks_shared rl_unlocks_exclusive rl_runs split: lock_mode.splits)

interpretation rl_lock: rw_lock_contract "rl_raw lfw blw" rl_inv for lfw blw
proof
  fix s t i m j
  show "lk_init (rl_raw lfw blw) s \<Longrightarrow> rl_inv s" by (simp add: rl_raw_def rl_init_inv)
  show "lk_step (rl_raw lfw blw) s t \<Longrightarrow> rl_inv s \<Longrightarrow> rl_inv t" using rl_raw_step rl_step_keeps by blast
  show "rl_inv s \<Longrightarrow> lk_guard (rl_raw lfw blw) Lk_Write i s \<Longrightarrow> lk_guard (rl_raw lfw blw) m j s \<Longrightarrow> i = j"
    using rl.inv_exclusive[of s i j]
    by (cases m) (auto simp: rl_raw_def rl_at_def rl_held_def rl_mode_of_def rl_writing_def rl_holding_def)
qed (auto simp: lk_thread_def rl_raw_def rl_at_def)


section \<open>A run\<close>

text \<open>Thread 0 locks shared, thread 1 parks in \<open>lock_exclusive\<close>, thread 0 unlocks.\<close>

definition rl_demo :: "rust_ptr \<Rightarrow> (usize \<Rightarrow> cv_node option) \<Rightarrow> rl_pc \<Rightarrow> rl_pc \<Rightarrow> rl_system" where
  "rl_demo word nodes pc0 pc1 =
     \<lparr>cl_shared = \<lparr>cv_atomic = \<lparr>aps_cell = word\<rparr>, cv_nodes = nodes, cv_unparks = []\<rparr>, cl_pcs = [pc0, pc1]\<rparr>"

definition rl_demo_nodes :: "usize \<Rightarrow> cv_node option" where
  "rl_demo_nodes = [256 \<mapsto> \<lparr>cn_unpark = 1, cn_next = null_mut, cn_ready = False\<rparr>]"

definition rl_demo_ptr :: "nat option \<Rightarrow> usize \<Rightarrow> rust_ptr" where
  "rl_demo_ptr prov addr = \<lparr>ptr_prov = prov, ptr_addr = addr\<rparr>"

abbreviation rl_demo_reachable :: "rust_ptr \<Rightarrow> (usize \<Rightarrow> cv_node option) \<Rightarrow> rl_pc \<Rightarrow> rl_pc \<Rightarrow> bool" where
  "rl_demo_reachable word nodes pc0 pc1 \<equiv> reachable rl_init (rl_step cv_hurry cv_hurry) (rl_demo word nodes pc0 pc1)"

abbreviation rl_demo_shared :: "rust_ptr \<Rightarrow> (usize \<Rightarrow> cv_node option) \<Rightarrow> cv_shared" where
  "rl_demo_shared word nodes \<equiv> \<lparr>cv_atomic = \<lparr>aps_cell = word\<rparr>, cv_nodes = nodes, cv_unparks = []\<rparr>"

lemma rl_demo_runs:
  assumes "rl_demo_reachable word nodes pc0 pc1" and "cv_fresh addr (cv_leave (rl_cv ([pc0, pc1] ! i)) (rl_demo_shared word nodes))"
    and "rl_next cv_hurry cv_hurry addr i False ([pc0, pc1] ! i) (rl_demo_shared word nodes) = Inr (pc, rl_demo_shared word' nodes')"
    and "i < 2"
  shows "rl_demo_reachable word' nodes' ([pc0, pc1][i := pc] ! 0) ([pc0, pc1][i := pc] ! 1)"
proof -
  have "rl_step cv_hurry cv_hurry (rl_demo word nodes pc0 pc1) (rl_demo word' nodes' ([pc0, pc1][i := pc] ! 0) ([pc0, pc1][i := pc] ! 1))"
    using rl_runs[of i "rl_demo word nodes pc0 pc1" addr cv_hurry cv_hurry False pc] assms(2-4)
    by (auto simp: rl_demo_def less_2_cases_iff)
  with assms(1) show ?thesis by (rule reach_step)
qed

lemmas rl_demo_eval = rl_next_def cv_fresh_def cv_leave_def rl_demo_ptr_def cv_word_eval cv_decide_def rl_unlocked_def
  rl_exclusive_def rl_fast_state_def rl_held_def cv_optimistic_update_def aps_compare_exchange_def
  aps_compare_exchange_weak_def backoff_should_block_def backoff_new_def yield_threshold_def cv_hurry_def

lemma rl_demo_reads: "rl_demo_reachable (rl_demo_ptr None 1) (\<lambda>_. None) Rl_Shared Rl_Idle"
proof -
  have "rl_demo_reachable null_mut (\<lambda>_. None) Rl_Idle Rl_Idle"
    by (rule reach_init) (simp add: rl_init_def rl_demo_def rl_new_def cv_zero_def aps_null_zero_def)
  from reach_step[OF this rl_locks[of 0, where m = Rl_S]]
  have "rl_demo_reachable null_mut (\<lambda>_. None) (Rl_Fast Rl_S) Rl_Idle" by (simp add: rl_demo_def)
  from rl_demo_runs[OF this, of 256 0 Rl_Shared "rl_demo_ptr None 1" "\<lambda>_. None"] show ?thesis
    by (simp add: rl_demo_eval)
qed

lemma rl_demo_parked:
  "rl_demo_reachable (rl_demo_ptr (Some 1) 257) rl_demo_nodes Rl_Shared
    (Rl_Lock Rl_X (Cv_Parked (rl_lock_lp Rl_X) \<lparr>spin_count = 15\<rparr> 256))"
proof -
  let ?b = "\<lparr>spin_count = 15\<rparr>" and ?lp = "rl_lock_lp Rl_X"
  have wait: "lp_f ?lp 1 = Inr Cv_Wait" by (simp add: rl_lock_lp_def rl_exclusive_choice_def rl_unlocked_def)
  have "rl_demo_reachable (rl_demo_ptr None 1) (\<lambda>_. None) Rl_Shared (Rl_Fast Rl_X)"
    using reach_step[OF rl_demo_reads rl_locks[of 1, where m = Rl_X]] by (simp add: rl_demo_def)
  from rl_demo_runs[OF this, of 256 1 "Rl_Lock Rl_X (rl_lock_loop Rl_X)" "rl_demo_ptr None 1" "\<lambda>_. None"]
  have "rl_demo_reachable (rl_demo_ptr None 1) (\<lambda>_. None) Rl_Shared (Rl_Lock Rl_X (Cv_Load ?lp backoff_new))"
    by (simp add: rl_demo_eval)
  from rl_demo_runs[OF this, of 256 1 "Rl_Lock Rl_X (Cv_Load ?lp ?b)" "rl_demo_ptr None 1" "\<lambda>_. None"]
  have "rl_demo_reachable (rl_demo_ptr None 1) (\<lambda>_. None) Rl_Shared (Rl_Lock Rl_X (Cv_Load ?lp ?b))"
    by (simp add: rl_demo_eval wait)
  from rl_demo_runs[OF this, of 256 1 "Rl_Lock Rl_X (Cv_Enqueue ?lp ?b \<lparr>ps_raw = rl_demo_ptr None 1\<rparr> 256)"
      "rl_demo_ptr None 1" rl_demo_nodes]
  have "rl_demo_reachable (rl_demo_ptr None 1) rl_demo_nodes Rl_Shared
      (Rl_Lock Rl_X (Cv_Enqueue ?lp ?b \<lparr>ps_raw = rl_demo_ptr None 1\<rparr> 256))"
    by (simp add: rl_demo_eval wait rl_demo_nodes_def)
  from rl_demo_runs[OF this, of 256 1 "Rl_Lock Rl_X (Cv_Parked ?lp ?b 256)" "rl_demo_ptr (Some 1) 257" rl_demo_nodes]
  show ?thesis by (simp add: rl_demo_eval cv_free_def rl_demo_nodes_def)
qed

lemma rl_demo_stranded:
  "rl_demo_reachable (rl_demo_ptr (Some 1) 256) rl_demo_nodes Rl_Idle
    (Rl_Lock Rl_X (Cv_Parked (rl_lock_lp Rl_X) \<lparr>spin_count = 15\<rparr> 256))"
proof -
  let ?b = "\<lparr>spin_count = 0\<rparr>" and ?lp = rl_release_lp and ?w = "rl_demo_ptr (Some 1) 257"
  let ?pc1 = "Rl_Lock Rl_X (Cv_Parked (rl_lock_lp Rl_X) \<lparr>spin_count = 15\<rparr> 256)"
  have update: "lp_f ?lp 1 = Inr (Cv_Update 0)"
    by (simp add: rl_release_lp_def cv_break_decision_def rl_release_choice_def rl_unlocked_def)
  have fresh: "cv_fresh 512 (rl_demo_shared w rl_demo_nodes)" for w by (simp add: cv_fresh_def rl_demo_nodes_def)
  have "rl_demo_reachable ?w rl_demo_nodes (Rl_Unlock_Shared (Cv_Load ?lp ?b)) ?pc1"
    using reach_step[OF rl_demo_parked rl_unlocks_shared[of 0]] by (simp add: rl_demo_def backoff_new_def)
  from rl_demo_runs[OF this, of 512 0 "Rl_Unlock_Shared (Cv_Cas ?lp ?b \<lparr>ps_raw = ?w\<rparr> 0)" ?w rl_demo_nodes]
  have "rl_demo_reachable ?w rl_demo_nodes (Rl_Unlock_Shared (Cv_Cas ?lp ?b \<lparr>ps_raw = ?w\<rparr> 0)) ?pc1"
    using fresh by (simp add: rl_demo_eval update)
  from rl_demo_runs[OF this, of 512 0 "Rl_Unlock_Shared (Cv_Done (Inr 1))" "rl_demo_ptr (Some 1) 256" rl_demo_nodes]
  have "rl_demo_reachable (rl_demo_ptr (Some 1) 256) rl_demo_nodes (Rl_Unlock_Shared (Cv_Done (Inr 1))) ?pc1"
    using fresh by (simp add: rl_demo_eval cv_updated_def ps_with_state_def rl_demo_nodes_def)
  from rl_demo_runs[OF this, of 512 0 Rl_Idle "rl_demo_ptr (Some 1) 256" rl_demo_nodes] show ?thesis
    using fresh by (simp add: rl_demo_eval cv_result_ok_def rl_demo_nodes_def)
qed


section \<open>Properties\<close>

text \<open>
  Claim C15. A writer holds the lock alone, whatever the interleaving: if a thread writes and a thread
  reads or writes, they are the same thread, and the state is 255.
\<close>

theorem raw_rwlock_exclusion:
  assumes "reachable rl_init (rl_step lfw blw) s" and "i < length (cl_pcs s)" and "j < length (cl_pcs s)"
    and "rl_writes (cl_pcs s ! i)" and "rl_reads (cl_pcs s ! j) \<or> rl_writes (cl_pcs s ! j)"
  shows "i = j \<and> cv_load (cl_shared s) = rl_exclusive"
  using rl.reachable_exclusive[OF assms(1), of i j] rl_holder_state(2)[OF rl_inv_counts[OF rl.reachable_inv[OF assms(1)]] assms(2,4)] assms
  by (auto simp: rl_writing_def rl_holding_def)

lemma rl_demo_writes: "rl_demo_reachable (rl_demo_ptr None 255) (\<lambda>_. None) Rl_Exclusive Rl_Idle"
proof -
  have "rl_demo_reachable null_mut (\<lambda>_. None) Rl_Idle Rl_Idle"
    by (rule reach_init) (simp add: rl_init_def rl_demo_def rl_new_def cv_zero_def aps_null_zero_def)
  from reach_step[OF this rl_locks[of 0, where m = Rl_X]]
  have "rl_demo_reachable null_mut (\<lambda>_. None) (Rl_Fast Rl_X) Rl_Idle" by (simp add: rl_demo_def)
  from rl_demo_runs[OF this, of 256 0 Rl_Exclusive "rl_demo_ptr None 255" "\<lambda>_. None"] show ?thesis
    by (simp add: rl_demo_eval)
qed

theorem raw_rwlock_exclusion_witness:
  "cv_load (cl_shared (rl_demo (rl_demo_ptr None 255) (\<lambda>_. None) Rl_Exclusive Rl_Idle)) = rl_exclusive"
  using raw_rwlock_exclusion[OF rl_demo_writes, of 0 0] by (simp add: rl_demo_def)

text \<open>
  Claim C32. The state is the number of threads that hold the lock shared, at most 254, or 255 for the
  writer, in every reachable state; so \<open>is_locked\<close> holds exactly when a thread holds the lock.
\<close>

theorem raw_rwlock_state_counts:
  assumes "reachable rl_init (rl_step lfw blw) s"
  shows "unat (cv_load (cl_shared s)) = rl_readers s + 255 * rl_writers s \<and> rl_readers s \<le> 254 \<and>
    (rl_is_locked (cl_shared s) \<longleftrightarrow> (\<exists>pc \<in> set (cl_pcs s). rl_reads pc \<or> rl_writes pc))"
proof -
  have inv: "unat (cv_load (cl_shared s)) = rl_readers s + 255 * rl_writers s" "rl_readers s \<le> 254"
    using rl.reachable_inv[OF assms] by (simp_all add: rl_inv_def rl_counts_def)
  have "rl_readers s + 255 * rl_writers s = 0 \<longleftrightarrow> \<not> (\<exists>pc \<in> set (cl_pcs s). rl_reads pc \<or> rl_writes pc)"
    by (auto simp: rl_readers_def rl_writers_def sum_list_eq_0_iff)
  with inv show ?thesis by (simp add: rl_is_locked_def word_unat_eq_iff)
qed

theorem raw_rwlock_state_counts_witness:
  "unat (cv_load (cl_shared (rl_demo (rl_demo_ptr None 1) (\<lambda>_. None) Rl_Shared Rl_Idle))) = 1"
  using raw_rwlock_state_counts[OF rl_demo_reads] by (simp add: rl_demo_def rl_readers_def rl_writers_def)

text \<open>
  Claim C30. No call panics or leaves the defined behaviour: \<open>unlock_shared\<close> never finds the lock unlocked,
  and no \<open>unreachable!\<close> of the condition variable is reached.
\<close>

theorem raw_rwlock_never_panics:
  assumes "reachable rl_init (rl_step lfw blw) s" and "i < length (cl_pcs s)"
  shows "\<exists>pc sh. rl_next lfw blw addr i spurious (cl_pcs s ! i) (cl_shared s) = Inr (pc, sh)"
proof -
  note inv = rl.reachable_inv[OF assms(1)]
  let ?pc = "cl_pcs s ! i" and ?st = "cv_load (cl_shared s)"
  have ok: "rl_ok ?pc" and cv: "cv_inv (rl_abs s)"
    using inv assms(2) by (auto simp: rl_inv_def rl_counts_def cv_inv_asked_def)
  have answers: "\<exists>d. lp_f lp ?st = Inr d" if "cv_loop_of (rl_cv ?pc) = Some lp" for lp
  proof -
    have phase: "cv_phase_of (rl_cv ?pc) = Cv_Asking lp" using that by (cases "rl_cv ?pc") auto
    show ?thesis
    proof (cases ?pc)
      case (Rl_Lock m c)
      with ok phase show ?thesis
        by (cases m) (auto simp: rl_lock_lp_def rl_shared_choice_def rl_exclusive_choice_def)
    next
      case (Rl_Try c)
      with ok phase show ?thesis by (auto simp: rl_try_lp_def cv_break_decision_def rl_shared_choice_def)
    next
      case (Rl_Unlock_Shared c)
      with ok phase rl_holder_state(1)[OF rl_inv_counts[OF inv] assms(2)] show ?thesis
        by (auto simp: rl_release_lp_def cv_break_decision_def rl_release_choice_def)
    qed (use ok phase in auto)
  qed
  have next_ok: "\<exists>c sh. cv_next lfw blw addr i spurious (rl_cv ?pc) (cl_shared s) = Inr (c, sh)"
  proof (cases "cv_next lfw blw addr i spurious (rl_cv ?pc) (cl_shared s)")
    case (Inl e)
    with cv_inv_safe[OF cv, of i] assms(2) answers show ?thesis by fastforce
  qed auto
  have "\<exists>pc'. rl_return ?pc r = Inr pc'" if "rl_cv ?pc = Cv_Done r" for r
    using ok that by (cases ?pc) (auto simp: cv_result_ok_def)
  then have "\<exists>pc sh. rl_next lfw blw addr i spurious ?pc (cl_shared s) = Inr (pc, sh)" if "rl_cv ?pc = Cv_Done r" for r
    using that rl_next_done[OF that] by fastforce
  moreover have "\<exists>pc sh. rl_next lfw blw addr i spurious ?pc (cl_shared s) = Inr (pc, sh)" if "?pc = Rl_Fast m" for m
    using that by (cases "cv_optimistic_update rl_unlocked (rl_fast_state m) (cl_shared s)") (simp add: rl_next_def)
  moreover have "\<exists>pc sh. rl_next lfw blw addr i spurious ?pc (cl_shared s) = Inr (pc, sh)"
    if "\<forall>m. ?pc \<noteq> Rl_Fast m" "\<forall>r. rl_cv ?pc \<noteq> Cv_Done r"
    using next_ok rl_next_call[OF that] by fastforce
  ultimately show ?thesis by blast
qed

theorem raw_rwlock_never_panics_witness:
  "\<exists>pc sh. rl_next cv_hurry cv_hurry 512 1 False
     (Rl_Lock Rl_X (Cv_Parked (rl_lock_lp Rl_X) \<lparr>spin_count = 15\<rparr> 256))
     (cl_shared (rl_demo (rl_demo_ptr (Some 1) 256) rl_demo_nodes Rl_Idle
       (Rl_Lock Rl_X (Cv_Parked (rl_lock_lp Rl_X) \<lparr>spin_count = 15\<rparr> 256)))) = Inr (pc, sh)"
  using raw_rwlock_never_panics[OF rl_demo_stranded, of 1] by (simp add: rl_demo_def)

text \<open>
  Claim C27. \<open>unlock_shared\<close> strands a waiting writer: a state is reachable in which the lock is free and no
  other thread is in a call, but the thread that called \<open>lock_exclusive\<close> is parked with a node that nobody
  will make ready, so however long it runs it stays there, and \<open>try_lock_exclusive\<close> fails as well.
\<close>

theorem raw_rwlock_strands_writer:
  "\<exists>s b a. reachable rl_init (rl_step cv_hurry cv_hurry) s \<and>
    cl_pcs s = [Rl_Idle, Rl_Lock Rl_X (Cv_Parked (rl_lock_lp Rl_X) b a)] \<and>
    \<not> rl_is_locked (cl_shared s) \<and> \<not> fst (rl_try_lock_exclusive (cl_shared s)) \<and>
    (\<forall>n addr. cv_alone cv_hurry cv_hurry addr 1 n (Cv_Parked (rl_lock_lp Rl_X) b a) (cl_shared s) =
      Inr (Cv_Parked (rl_lock_lp Rl_X) b a, cl_shared s))"
proof -
  let ?s = "rl_demo (rl_demo_ptr (Some 1) 256) rl_demo_nodes Rl_Idle
    (Rl_Lock Rl_X (Cv_Parked (rl_lock_lp Rl_X) \<lparr>spin_count = 15\<rparr> 256))"
  have "cv_alone cv_hurry cv_hurry addr 1 n (Cv_Parked (rl_lock_lp Rl_X) \<lparr>spin_count = 15\<rparr> 256) (cl_shared ?s) =
      Inr (Cv_Parked (rl_lock_lp Rl_X) \<lparr>spin_count = 15\<rparr> 256, cl_shared ?s)" for n addr
    by (induction n) (simp_all add: rl_demo_def rl_demo_nodes_def)
  moreover have "\<not> rl_is_locked (cl_shared ?s)" "\<not> fst (rl_try_lock_exclusive (cl_shared ?s))"
    by (simp_all add: rl_is_locked_def rl_try_lock_exclusive_def rl_demo_def cv_load_def rl_demo_eval)
  ultimately show ?thesis using rl_demo_stranded by (intro exI[of _ ?s]) (auto simp: rl_demo_def)
qed

end
