(* ===== verification/Broad_Lock.thy ===== *)
theory Broad_Lock
  imports Broad_Race Rw_Spin Raw_Rw_Lock
begin

text \<open>
  A \<open>Broadcast<T, L>\<close> of \<open>src/src/broad.rs\<close> together with its lock. \<open>Broad_Race\<close> lets a receiver take the lock
  when the others leave it free; here a receiver calls the lock, runs through its accesses, goes on when it
  has the guard and calls the unlock method when the guard is dropped. Under the contract of the lock this
  system is simulated by that of \<open>Broad_Race\<close>.
\<close>

section \<open>The system\<close>

text \<open>A receiver at a place of \<open>read\<close>, in the lock method, or in the unlock method.\<close>

datatype bl_pc = Bl_At br_pc | Bl_Lock lock_mode | Bl_Dropping

record ('l, 'a) bl_system =
  bl_lock :: 'l
  bl_shared :: "'a broadcast"
  bl_producer :: idx
  bl_pcs :: "bl_pc list"

fun bl_wants :: "br_pc \<Rightarrow> lock_mode option" where
  "bl_wants Br_Want_Write = Some Lk_Write"
| "bl_wants Br_Want_Read = Some Lk_Read"
| "bl_wants _ = None"

fun bl_visits :: "br_pc \<Rightarrow> lock_mode option" where
  "bl_visits Br_Visit_Write = Some Lk_Write"
| "bl_visits Br_Visit_Read = Some Lk_Read"
| "bl_visits _ = None"

fun bl_locked :: "lock_mode \<Rightarrow> br_pc" where
  "bl_locked Lk_Write = Br_Check"
| "bl_locked Lk_Read = Br_Visit_Read"

text \<open>The guard a receiver has.\<close>

fun bl_guard :: "bl_pc \<Rightarrow> lock_mode option" where
  "bl_guard (Bl_At Br_Check) = Some Lk_Write"
| "bl_guard (Bl_At Br_Consume) = Some Lk_Write"
| "bl_guard (Bl_At Br_Visit_Write) = Some Lk_Write"
| "bl_guard (Bl_At Br_Visit_Read) = Some Lk_Read"
| "bl_guard _ = None"

definition bl_init :: "'l raw_lock \<Rightarrow> ('l, 'a) bl_system \<Rightarrow> bool" where
  "bl_init L s \<longleftrightarrow> lk_init L (bl_lock s) \<and> (\<exists>i. tb_flags (bc_buffer (bl_shared s)) = flag_byte i False \<and>
     distinct [i, bl_producer s, bc_consumer (bl_shared s)]) \<and> set (bl_pcs s) \<subseteq> {Bl_At Br_Idle}"

text \<open>A closure that panics unwinds and drops the guard, as one that returns.\<close>

inductive bl_step :: "'l raw_lock \<Rightarrow> ('l, 'a) bl_system \<Rightarrow> ('l, 'a) bl_system \<Rightarrow> bool" for L where
  bl_writes:
    "bl_step L s (s\<lparr>bl_shared := (bl_shared s)\<lparr>bc_buffer := tb_update (bl_producer s) f (bc_buffer (bl_shared s))\<rparr>\<rparr>)"
| bl_publishes: "tb_publish (bl_producer s) (bc_buffer (bl_shared s)) = Inr ((p, consumed), tb) \<Longrightarrow>
    bl_step L s (s\<lparr>bl_shared := (bl_shared s)\<lparr>bc_buffer := tb\<rparr>, bl_producer := p\<rparr>)"
| bl_accesses: "i < length (bl_pcs s) \<Longrightarrow> bl_pcs s ! i = Bl_At pc \<Longrightarrow> bl_wants pc = None \<Longrightarrow> bl_visits pc = None \<Longrightarrow>
    br_reader pc (bl_shared s) = Inr (pc', b) \<Longrightarrow>
    bl_step L s (s\<lparr>bl_shared := b, bl_pcs := (bl_pcs s)[i := Bl_At pc']\<rparr>)"
| bl_calls: "i < length (bl_pcs s) \<Longrightarrow> bl_pcs s ! i = Bl_At pc \<Longrightarrow> bl_wants pc = Some m \<Longrightarrow>
    lk_call L m i (bl_lock s) l \<Longrightarrow> bl_step L s (s\<lparr>bl_lock := l, bl_pcs := (bl_pcs s)[i := Bl_Lock m]\<rparr>)"
| bl_lock_runs: "i < length (bl_pcs s) \<Longrightarrow> bl_pcs s ! i = Bl_Dropping \<or> bl_pcs s ! i = Bl_Lock m \<Longrightarrow>
    lk_run L i (bl_lock s) l \<Longrightarrow> bl_step L s (s\<lparr>bl_lock := l\<rparr>)"
| bl_locks: "i < length (bl_pcs s) \<Longrightarrow> bl_pcs s ! i = Bl_Lock m \<Longrightarrow> lk_guard L m i (bl_lock s) \<Longrightarrow>
    bl_step L s (s\<lparr>bl_pcs := (bl_pcs s)[i := Bl_At (bl_locked m)]\<rparr>)"
| bl_unlocks: "i < length (bl_pcs s) \<Longrightarrow> bl_pcs s ! i = Bl_At pc \<Longrightarrow> bl_visits pc = Some m \<Longrightarrow>
    lk_unlock L m i (bl_lock s) l \<Longrightarrow> bl_step L s (s\<lparr>bl_lock := l, bl_pcs := (bl_pcs s)[i := Bl_Dropping]\<rparr>)"
| bl_returns: "i < length (bl_pcs s) \<Longrightarrow> bl_pcs s ! i = Bl_Dropping \<Longrightarrow> lk_idle L i (bl_lock s) \<Longrightarrow>
    bl_step L s (s\<lparr>bl_pcs := (bl_pcs s)[i := Bl_At Br_Idle]\<rparr>)"

section \<open>The channel is the system of Broad_Race\<close>

fun bl_place :: "bl_pc \<Rightarrow> br_pc" where
  "bl_place (Bl_At pc) = pc"
| "bl_place (Bl_Lock Lk_Write) = Br_Want_Write"
| "bl_place (Bl_Lock Lk_Read) = Br_Want_Read"
| "bl_place Bl_Dropping = Br_Idle"

definition bl_abs :: "('l, 'a) bl_system \<Rightarrow> 'a br_system" where
  "bl_abs s = \<lparr>br_shared = bl_shared s, br_producer = bl_producer s, br_pcs = map bl_place (bl_pcs s)\<rparr>"

definition bl_inv :: "('l \<Rightarrow> bool) \<Rightarrow> 'l raw_lock \<Rightarrow> ('l, 'a) bl_system \<Rightarrow> bool" where
  "bl_inv lock_inv L s \<longleftrightarrow> lock_inv (bl_lock s) \<and> lk_held L (bl_lock s) (map bl_guard (bl_pcs s))"

lemma bl_place_locked:
  "br_write_locked (bl_place pc) \<longleftrightarrow> bl_guard pc = Some Lk_Write"
  "br_read_locked (bl_place pc) \<longleftrightarrow> bl_guard pc = Some Lk_Read"
  by (cases pc rule: bl_guard.cases; simp add: br_write_locked_def br_read_locked_def;
      cases pc rule: bl_place.cases; simp)+

lemma br_reader_guard:
  "br_reader pc b = Inr (pc', b') \<Longrightarrow> bl_wants pc = None \<Longrightarrow> bl_visits pc = None \<Longrightarrow>
    bl_guard (Bl_At pc') = bl_guard (Bl_At pc)"
  by (cases pc) (auto simp: bind_res_Inr_conv split: if_splits)

lemma bl_abs_same:
  assumes "i < length (bl_pcs s)" and "bl_place pc = bl_place (bl_pcs s ! i)"
  shows "bl_abs (s\<lparr>bl_pcs := (bl_pcs s)[i := pc]\<rparr>) = bl_abs s"
    and "bl_abs (s\<lparr>bl_lock := l, bl_pcs := (bl_pcs s)[i := pc]\<rparr>) = bl_abs s"
  using assms by (simp_all add: bl_abs_def map_update_same)

text \<open>A receiver steps as in \<open>Broad_Race\<close> when the lock is free for it there.\<close>

lemma bl_abs_steps:
  assumes "i < length (bl_pcs s)" and "br_lock_free (bl_place (bl_pcs s ! i)) (br_pcs (bl_abs s))"
    and "br_reader (bl_place (bl_pcs s ! i)) (bl_shared s) = Inr (bl_place pc, b)"
  shows "br_step (bl_abs s) (bl_abs (s\<lparr>bl_shared := b, bl_pcs := (bl_pcs s)[i := pc]\<rparr>))"
  using receiver_steps[of i "bl_abs s" "bl_place pc" b] assms by (simp add: bl_abs_def map_update)


text \<open>What \<open>br_lock_free\<close> asks for follows from having the guard.\<close>

context rw_lock_contract begin

lemma bl_lock_free:
  assumes inv: "bl_inv lock_inv L s" and i: "i < length (bl_pcs s)" and at: "bl_pcs s ! i = Bl_Lock m"
    and guard: "lk_guard L m i (bl_lock s)"
  shows "br_lock_free (bl_place (bl_pcs s ! i)) (br_pcs (bl_abs s))"
proof -
  have held: "lk_held L (bl_lock s) (map bl_guard (bl_pcs s))" and li: "lock_inv (bl_lock s)"
    using inv by (auto simp: bl_inv_def)
  have other: "j \<noteq> i \<and> lk_guard L n j (bl_lock s)" if "j < length (bl_pcs s)" "bl_guard (bl_pcs s ! j) = Some n" for j n
    using held that at by (auto simp: lk_held_def)
  have no_write: "bl_guard (bl_pcs s ! j) \<noteq> Some Lk_Write" if j: "j < length (bl_pcs s)" for j
  proof
    assume "bl_guard (bl_pcs s ! j) = Some Lk_Write"
    from other[OF j this] write_guard_alone[OF li _ guard] show False by blast
  qed
  have no_guard: "bl_guard (bl_pcs s ! j) = None" if j: "j < length (bl_pcs s)" and m: "m = Lk_Write" for j
  proof (rule ccontr)
    assume "bl_guard (bl_pcs s ! j) \<noteq> None"
    then obtain n where "bl_guard (bl_pcs s ! j) = Some n" by blast
    from other[OF j this] write_guard_alone[OF li, of i n j] guard m show False by blast
  qed
  have free: "\<forall>q \<in> set (br_pcs (bl_abs s)). \<not> br_write_locked q"
    "m = Lk_Write \<Longrightarrow> \<forall>q \<in> set (br_pcs (bl_abs s)). \<not> br_read_locked q"
    using no_write no_guard by (auto simp: bl_abs_def bl_place_locked in_set_conv_nth)
  then show ?thesis by (cases m) (auto simp: br_lock_free_def at)
qed

lemma bl_init_inv: "bl_init L s \<Longrightarrow> bl_inv lock_inv L s"
  by (force simp: bl_init_def bl_inv_def init_inv lk_held_def dest: nth_mem)

lemma bl_inv_lock:
  assumes "bl_inv lock_inv L s" and "i < length (bl_pcs s)" and "lk_thread L i (bl_lock s) l" and "bl_guard pc = None"
  shows "bl_inv lock_inv L (s\<lparr>bl_lock := l, bl_pcs := (bl_pcs s)[i := pc]\<rparr>)"
  using assms lk_held_step[OF _ assms(3)] step_inv[OF lk_stepI[OF assms(3)]] by (auto simp: bl_inv_def map_update)

lemma bl_inv_pc:
  assumes "bl_inv lock_inv L s" and "\<And>m. bl_guard pc = Some m \<Longrightarrow> lk_guard L m i (bl_lock s)"
  shows "bl_inv lock_inv L (s\<lparr>bl_shared := b, bl_pcs := (bl_pcs s)[i := pc]\<rparr>)"
  using assms by (auto simp: bl_inv_def map_update intro: lk_held_update)

lemma bl_step_inv: "bl_step L s t \<Longrightarrow> bl_inv lock_inv L s \<Longrightarrow> bl_inv lock_inv L t"
proof (induction rule: bl_step.induct)
  case (bl_accesses i s pc pc' b)
  then have "lk_guard L m i (bl_lock s)" if "bl_guard (Bl_At pc') = Some m" for m
    using br_reader_guard[OF bl_accesses(5,3,4)] that by (auto simp: bl_inv_def lk_held_def)
  with bl_accesses show ?case by (intro bl_inv_pc)
next
  case (bl_locks i s m)
  then show ?case using bl_inv_pc[of s "Bl_At (bl_locked m)" i "bl_shared s"] by (cases m) simp_all
next
  case (bl_lock_runs i s m l)
  have "lk_thread L i (bl_lock s) l" using bl_lock_runs(3) by (rule lk_threadI)
  moreover have "bl_guard (bl_pcs s ! i) = None" using bl_lock_runs(2) by auto
  ultimately show ?case using bl_inv_lock[OF bl_lock_runs(4,1), of l "bl_pcs s ! i"] by simp
next
  case (bl_returns i s)
  then show ?case using bl_inv_pc[of s "Bl_At Br_Idle" i "bl_shared s"] by simp
next
  case (bl_calls i s pc m l)
  then show ?case by (intro bl_inv_lock) (auto intro: lk_threadI)
next
  case (bl_unlocks i s pc m l)
  then show ?case by (intro bl_inv_lock) (auto intro: lk_threadI)
qed (simp_all add: bl_inv_def)

lemma bl_step_abs: "bl_step L s t \<Longrightarrow> bl_inv lock_inv L s \<Longrightarrow> br_step\<^sup>*\<^sup>* (bl_abs s) (bl_abs t)"
proof (induction rule: bl_step.induct)
  case (bl_writes s f)
  from sender_writes[of "bl_abs s" f] show ?case by (simp add: bl_abs_def r_into_rtranclp)
next
  case (bl_publishes s p consumed tb)
  from sender_publishes[of "bl_abs s" p consumed tb] bl_publishes show ?case
    by (simp add: bl_abs_def r_into_rtranclp)
next
  case (bl_accesses i s pc pc' b)
  have "br_lock_free pc qs" for qs using bl_accesses(3) by (cases pc) (auto simp: br_lock_free_def)
  with bl_accesses bl_abs_steps[of i s "Bl_At pc'" b] show ?case by (simp add: r_into_rtranclp)
next
  case (bl_calls i s pc m l)
  then have "bl_place (Bl_Lock m) = bl_place (bl_pcs s ! i)" by (cases pc; cases m) auto
  with bl_calls show ?case by (simp add: bl_abs_same(2))
next
  case (bl_locks i s m)
  from bl_abs_steps[of i s "Bl_At (bl_locked m)" "bl_shared s"] bl_lock_free[OF bl_locks(4,1,2,3)] bl_locks show ?case
    by (cases m) (simp_all add: r_into_rtranclp)
next
  case (bl_unlocks i s pc m l)
  have "bl_abs (s\<lparr>bl_lock := l, bl_pcs := (bl_pcs s)[i := Bl_Dropping]\<rparr>) =
    bl_abs (s\<lparr>bl_shared := bl_shared s, bl_pcs := (bl_pcs s)[i := Bl_Dropping]\<rparr>)" by (simp add: bl_abs_def)
  moreover have "br_lock_free pc qs \<and> br_reader pc (bl_shared s) = Inr (Br_Idle, bl_shared s)" for qs
    using bl_unlocks(3) by (cases pc) (auto simp: br_lock_free_def)
  ultimately show ?case using bl_unlocks bl_abs_steps[of i s Bl_Dropping "bl_shared s"] by (simp add: r_into_rtranclp)
next
  case (bl_returns i s)
  then show ?case by (simp add: bl_abs_same(1))
qed (simp_all add: bl_abs_def)

lemma bl_init_abs: "bl_init L s \<Longrightarrow> br_init_distinct (bl_abs s)"
  by (auto simp: bl_init_def br_init_distinct_def bl_abs_def)

end

sublocale rw_lock_contract \<subseteq> bl: inv_simulation "bl_init L" "bl_step L" "bl_inv lock_inv L"
  br_init_distinct br_step bl_abs
  by unfold_locales (auto intro: bl_init_inv bl_step_inv bl_init_abs bl_step_abs)


context rw_lock_contract begin

lemma bl_race_free:
  assumes "reachable (bl_init L) (bl_step L) s"
  shows "reachable br_init_distinct br_step (bl_abs s) \<and> bl_producer s \<noteq> bc_consumer (bl_shared s) \<and>
    (\<forall>i < length (bl_pcs s). \<forall>pc. bl_pcs s ! i = Bl_At pc \<longrightarrow> (\<exists>r. br_reader pc (bl_shared s) = Inr r)) \<and>
    (\<exists>r. tb_publish (bl_producer s) (bc_buffer (bl_shared s)) = Inr r)"
proof -
  note abs = bl.reachable_abs[OF assms]
  have "\<exists>r. br_reader pc (bl_shared s) = Inr r" if "i < length (bl_pcs s)" "bl_pcs s ! i = Bl_At pc" for i pc
  proof -
    have "\<exists>r. br_reader (br_pcs (bl_abs s) ! i) (br_shared (bl_abs s)) = Inr r"
      using broadcast_race_free[OF abs] that(1) by (simp add: bl_abs_def)
    with that show ?thesis by (simp add: bl_abs_def)
  qed
  with abs broadcast_race_free[OF abs] show ?thesis by (simp add: bl_abs_def)
qed

end

section \<open>A run\<close>

text \<open>A channel over \<open>RawRwSpin\<close> with one receiver.\<close>

definition bl_demo :: "usize \<Rightarrow> rw_pc \<Rightarrow> bl_pc \<Rightarrow> (rw_system, nat) bl_system" where
  "bl_demo w lpc pc = \<lparr>bl_lock = \<lparr>rw_word = w, rw_pcs = [lpc]\<rparr>,
     bl_shared = br_shared br_distinct_start, bl_producer = One, bl_pcs = [pc]\<rparr>"

lemma bl_demo_visits:
  "reachable (bl_init (rw_raw True True)) (bl_step (rw_raw True True)) (bl_demo 1 Rw_Shared (Bl_At Br_Visit_Read))"
proof -
  let ?L = "rw_raw True True"
  have fl: "tb_flags (bc_buffer (br_shared br_distinct_start)) = flag_byte Zero False"
    by (simp add: br_distinct_start_def tb_new_def flags_init_byte)
  have "bl_init ?L (bl_demo 0 Rw_Idle (Bl_At Br_Idle))"
    using fl by (auto simp: bl_init_def bl_demo_def rw_raw_def rw_init_def rw_new_def br_distinct_start_def
        intro!: exI[of _ Zero])
  moreover have "bl_step ?L (bl_demo 0 Rw_Idle (Bl_At Br_Idle)) (bl_demo 0 Rw_Idle (Bl_At Br_Want_Read))"
    using bl_accesses[of 0 "bl_demo 0 Rw_Idle (Bl_At Br_Idle)" Br_Idle Br_Want_Read "br_shared br_distinct_start" ?L]
      tb_consumed_flags[OF fl] by (simp add: bl_demo_def)
  moreover have "bl_step ?L (bl_demo 0 Rw_Idle (Bl_At Br_Want_Read)) (bl_demo 1 Rw_Shared (Bl_Lock Lk_Read))"
    using bl_calls[of 0 "bl_demo 0 Rw_Idle (Bl_At Br_Want_Read)" Br_Want_Read Lk_Read ?L "\<lparr>rw_word = 1, rw_pcs = [Rw_Shared]\<rparr>"]
    by (simp add: bl_demo_def rw_raw_def rw_thread_def rw_lock_shared_start_def fetch_add_def rw_checked_def
        locks_count_check_def exclusive_pending_def shared_lock_threshold_def)
  moreover have "bl_step ?L (bl_demo 1 Rw_Shared (Bl_Lock Lk_Read)) (bl_demo 1 Rw_Shared (Bl_At Br_Visit_Read))"
    using bl_locks[of 0 "bl_demo 1 Rw_Shared (Bl_Lock Lk_Read)" Lk_Read ?L]
    by (simp add: bl_demo_def rw_raw_def rw_holds_shared_def)
  ultimately show ?thesis by (blast intro: reach_init reach_step)
qed

section \<open>Property\<close>

text \<open>
  Claim C22. The channel over any lock with the contract of a reader-writer lock, however the sender, the
  receivers and the accesses inside the lock interleave: when the three indices start out different, the
  sender's slot is never the slot the receivers read, no receiver fails the assertion of \<open>read\<close>, and neither
  side reads a flag byte that is no index.
\<close>

theorem broadcast_locked_race_free:
  assumes "rw_lock_contract L lock_inv" and "reachable (bl_init L) (bl_step L) s"
  shows "reachable br_init_distinct br_step (bl_abs s) \<and> bl_producer s \<noteq> bc_consumer (bl_shared s) \<and>
    (\<forall>i < length (bl_pcs s). \<forall>pc. bl_pcs s ! i = Bl_At pc \<longrightarrow> (\<exists>r. br_reader pc (bl_shared s) = Inr r)) \<and>
    (\<exists>r. tb_publish (bl_producer s) (bc_buffer (bl_shared s)) = Inr r)"
  using rw_lock_contract.bl_race_free[OF assms] .

theorem broadcast_locked_race_free_witness:
  "bl_producer (bl_demo 1 Rw_Shared (Bl_At Br_Visit_Read)) \<noteq>
     bc_consumer (bl_shared (bl_demo 1 Rw_Shared (Bl_At Br_Visit_Read)))"
  using broadcast_locked_race_free[OF rw_lock.rw_lock_contract_axioms bl_demo_visits] by blast

end
