(* ===== verification/Mem_Order.thy ===== *)
theory Mem_Order
  imports Amity_Prelude
begin

text \<open>
  The orderings of atomic operations. The other theories interleave the accesses to an atomic word as if
  every thread saw its newest value; here a program around one atomic word runs on a memory in which an
  access does what its \<open>Ordering\<close> says and no more, and accesses to the data that the word protects are
  recorded, so that a data race is a property of a state.

  The word is the list of the values it has had, its modification order. A value is a message: it
  carries a view, the accesses to data that are known to have happened by who reads it with an acquiring
  operation. A thread has a view of its own and a position in the list.
    \<^item> A load reads any message that is not older than the thread's position. If it acquires, the thread
      learns the view of the message.
    \<^item> A read-modify-write reads the newest message and adds one, which keeps the view of the message it
      read (the release sequence goes on) and gets that of the thread as well if the operation releases.
    \<^item> A store adds a message with the view of the thread if it releases, and an empty one if not. It is
      placed at the end, which is no restriction as long as the other threads change the word with
      read-modify-writes only: nothing can come between such an operation and the message it read.
    \<^item> An access to data is a new event in the view of its thread.
  Loads read messages that exist, so values out of thin air are excluded, and \<open>SeqCst\<close> is taken as
  \<open>AcqRel\<close>, for one word.
\<close>

section \<open>Orderings\<close>

datatype mem_order = Relaxed | Acquire | Release | AcqRel | SeqCst

definition acquires :: "mem_order \<Rightarrow> bool" where
  "acquires ord \<longleftrightarrow> ord \<in> {Acquire, AcqRel, SeqCst}"

definition releases :: "mem_order \<Rightarrow> bool" where
  "releases ord \<longleftrightarrow> ord \<in> {Release, AcqRel, SeqCst}"

lemma order_simps [simp]:
  "\<not> acquires Relaxed" "acquires Acquire" "\<not> acquires Release" "acquires AcqRel"
  "\<not> releases Relaxed" "\<not> releases Acquire" "releases Release" "releases AcqRel"
  by (simp_all add: acquires_def releases_def)

text \<open>
  \<open>condvar.rs\<close> merges the orderings of its callers with \<open>merge_ordering\<close>, which is in \<open>lib.rs\<close> inside
  a comment.
\<close>

fun merge_ordering :: "mem_order \<Rightarrow> mem_order \<Rightarrow> mem_order" where
  "merge_ordering SeqCst _ = SeqCst"
| "merge_ordering _ SeqCst = SeqCst"
| "merge_ordering AcqRel _ = AcqRel"
| "merge_ordering _ AcqRel = AcqRel"
| "merge_ordering Acquire Release = AcqRel"
| "merge_ordering Release Acquire = AcqRel"
| "merge_ordering Acquire _ = Acquire"
| "merge_ordering _ Acquire = Acquire"
| "merge_ordering Release _ = Release"
| "merge_ordering _ Release = Release"
| "merge_ordering Relaxed Relaxed = Relaxed"

lemma merge_ordering_joins:
  "acquires (merge_ordering a b) \<longleftrightarrow> acquires a \<or> acquires b"
  "releases (merge_ordering a b) \<longleftrightarrow> releases a \<or> releases b"
  by (cases a; cases b; simp add: acquires_def releases_def)+

section \<open>Programs around one word\<close>

text \<open>
  \<open>mp_next\<close> is what a thread does next, given the value its access reads: its next place and the value
  of the word. \<open>mp_access\<close> is the kind of the access with its ordering (a compare-exchange that fails is
  a load), \<open>mp_may\<close> whether a thread may then read or write (\<open>True\<close>) a location of the data.
\<close>

datatype mem_access = Mem_None | Mem_Load mem_order | Mem_Rmw mem_order | Mem_Store mem_order

record ('e, 'p, 'w) mem_program =
  mp_next :: "'e \<Rightarrow> 'p \<Rightarrow> 'w \<Rightarrow> ('p \<times> 'w) option"
  mp_access :: "'e \<Rightarrow> 'p \<Rightarrow> 'w \<Rightarrow> mem_access"
  mp_may :: "'p \<Rightarrow> bool \<Rightarrow> nat \<Rightarrow> bool"

record 'w mem_message =
  msg_value :: 'w
  msg_view :: "nat set"

record data_access =
  da_thread :: nat
  da_write :: bool
  da_loc :: nat

record ('p, 'w) mem_system =
  ms_order :: "'w mem_message list"
  ms_pcs :: "'p list"
  ms_pos :: "nat list"
  ms_seen :: "nat set list"
  ms_log :: "data_access list"

definition mem_init :: "'w \<Rightarrow> 'p list \<Rightarrow> ('p, 'w) mem_system" where
  "mem_init w pcs = \<lparr>ms_order = [\<lparr>msg_value = w, msg_view = {}\<rparr>], ms_pcs = pcs, ms_pos = map (\<lambda>_. 0) pcs,
     ms_seen = map (\<lambda>_. {}) pcs, ms_log = []\<rparr>"

definition mem_starts :: "'w \<Rightarrow> ('p list \<Rightarrow> bool) \<Rightarrow> ('p, 'w) mem_system \<Rightarrow> bool" where
  "mem_starts w start s \<longleftrightarrow> start (ms_pcs s) \<and> s = mem_init w (ms_pcs s)"

definition mem_last :: "('p, 'w) mem_system \<Rightarrow> 'w mem_message" where
  "mem_last s = last (ms_order s)"

definition mem_learns :: "mem_order \<Rightarrow> 'w mem_message \<Rightarrow> nat set \<Rightarrow> nat set" where
  "mem_learns ord m seen = (if acquires ord then seen \<union> msg_view m else seen)"

definition mem_publishes :: "mem_order \<Rightarrow> nat set \<Rightarrow> nat set" where
  "mem_publishes ord seen = (if releases ord then seen else {})"

text \<open>A thread goes on to another place, having read the message at \<open>k\<close>.\<close>

definition mem_goes :: "nat \<Rightarrow> 'p \<Rightarrow> nat \<Rightarrow> nat set \<Rightarrow> ('p, 'w) mem_system \<Rightarrow> ('p, 'w) mem_system" where
  "mem_goes i pc k seen s =
     s\<lparr>ms_pcs := (ms_pcs s)[i := pc], ms_pos := (ms_pos s)[i := k], ms_seen := (ms_seen s)[i := seen]\<rparr>"

definition mem_adds :: "'w \<Rightarrow> nat set \<Rightarrow> ('p, 'w) mem_system \<Rightarrow> ('p, 'w) mem_system" where
  "mem_adds w view s = s\<lparr>ms_order := ms_order s @ [\<lparr>msg_value = w, msg_view = view\<rparr>]\<rparr>"

definition mem_logs :: "nat \<Rightarrow> bool \<Rightarrow> nat \<Rightarrow> ('p, 'w) mem_system \<Rightarrow> ('p, 'w) mem_system" where
  "mem_logs i wr loc s =
     s\<lparr>ms_log := ms_log s @ [\<lparr>da_thread = i, da_write = wr, da_loc = loc\<rparr>],
       ms_seen := (ms_seen s)[i := insert (length (ms_log s)) (ms_seen s ! i)]\<rparr>"

inductive mem_step :: "('e, 'p, 'w) mem_program \<Rightarrow> ('p, 'w) mem_system \<Rightarrow> ('p, 'w) mem_system \<Rightarrow> bool" for P where
  mem_moves: "i < length (ms_pcs s) \<Longrightarrow> mp_access P ev (ms_pcs s ! i) (msg_value (mem_last s)) = Mem_None \<Longrightarrow>
    mp_next P ev (ms_pcs s ! i) (msg_value (mem_last s)) = Some (pc, w) \<Longrightarrow>
    mem_step P s (mem_goes i pc (ms_pos s ! i) (ms_seen s ! i) s)"
| mem_loads: "i < length (ms_pcs s) \<Longrightarrow> ms_pos s ! i \<le> k \<Longrightarrow> k < length (ms_order s) \<Longrightarrow>
    mp_access P ev (ms_pcs s ! i) (msg_value (ms_order s ! k)) = Mem_Load ord \<Longrightarrow>
    mp_next P ev (ms_pcs s ! i) (msg_value (ms_order s ! k)) = Some (pc, w) \<Longrightarrow>
    mem_step P s (mem_goes i pc k (mem_learns ord (ms_order s ! k) (ms_seen s ! i)) s)"
| mem_rmws: "i < length (ms_pcs s) \<Longrightarrow> mp_access P ev (ms_pcs s ! i) (msg_value (mem_last s)) = Mem_Rmw ord \<Longrightarrow>
    mp_next P ev (ms_pcs s ! i) (msg_value (mem_last s)) = Some (pc, w) \<Longrightarrow>
    seen = mem_learns ord (mem_last s) (ms_seen s ! i) \<Longrightarrow>
    mem_step P s (mem_adds w (msg_view (mem_last s) \<union> mem_publishes ord seen)
      (mem_goes i pc (length (ms_order s)) seen s))"
| mem_stores: "i < length (ms_pcs s) \<Longrightarrow> mp_access P ev (ms_pcs s ! i) (msg_value (mem_last s)) = Mem_Store ord \<Longrightarrow>
    mp_next P ev (ms_pcs s ! i) (msg_value (mem_last s)) = Some (pc, w) \<Longrightarrow>
    mem_step P s (mem_adds w (mem_publishes ord (ms_seen s ! i))
      (mem_goes i pc (length (ms_order s)) (ms_seen s ! i) s))"
| mem_touches: "i < length (ms_pcs s) \<Longrightarrow> mp_may P (ms_pcs s ! i) wr loc \<Longrightarrow> mem_step P s (mem_logs i wr loc s)"

inductive_cases mem_step_cases: "mem_step P s t"

text \<open>
  No data race: an access that a thread may make next happens after every earlier access to the same
  location, if one of the two writes.
\<close>

definition mem_race_free :: "('e, 'p, 'w) mem_program \<Rightarrow> ('p, 'w) mem_system \<Rightarrow> bool" where
  "mem_race_free P s \<longleftrightarrow> (\<forall>i < length (ms_pcs s). \<forall>wr loc. mp_may P (ms_pcs s ! i) wr loc \<longrightarrow>
     (\<forall>e < length (ms_log s). da_loc (ms_log s ! e) = loc \<and> (wr \<or> da_write (ms_log s ! e)) \<longrightarrow> e \<in> ms_seen s ! i))"

lemma mem_race_freeD:
  "mem_race_free P s \<Longrightarrow> i < length (ms_pcs s) \<Longrightarrow> mp_may P (ms_pcs s ! i) wr loc \<Longrightarrow> e < length (ms_log s) \<Longrightarrow>
    da_loc (ms_log s ! e) = loc \<Longrightarrow> wr \<or> da_write (ms_log s ! e) \<Longrightarrow> e \<in> ms_seen s ! i"
  unfolding mem_race_free_def by blast

section \<open>Lemmas\<close>

text \<open>The lists of a system that belong together.\<close>

definition mem_wf :: "('p, 'w) mem_system \<Rightarrow> bool" where
  "mem_wf s \<longleftrightarrow> ms_order s \<noteq> [] \<and> length (ms_pos s) = length (ms_pcs s) \<and> length (ms_seen s) = length (ms_pcs s)"

lemma mem_wf_init: "mem_wf (mem_init w pcs)"
  by (simp add: mem_wf_def mem_init_def)

lemma mem_init_simps [simp]:
  "ms_order (mem_init w pcs) = [\<lparr>msg_value = w, msg_view = {}\<rparr>]" "ms_pcs (mem_init w pcs) = pcs"
  "ms_log (mem_init w pcs) = []" "mem_last (mem_init w pcs) = \<lparr>msg_value = w, msg_view = {}\<rparr>"
  by (simp_all add: mem_init_def mem_last_def)

lemma mem_startsE:
  assumes "mem_starts w start s"
  obtains pcs where "start pcs" "s = mem_init w pcs"
  using assms by (auto simp: mem_starts_def)

lemma mem_goes_simps [simp]:
  "ms_order (mem_goes i pc k seen s) = ms_order s" "ms_log (mem_goes i pc k seen s) = ms_log s"
  "ms_pcs (mem_goes i pc k seen s) = (ms_pcs s)[i := pc]" "ms_pos (mem_goes i pc k seen s) = (ms_pos s)[i := k]"
  "ms_seen (mem_goes i pc k seen s) = (ms_seen s)[i := seen]" "mem_last (mem_goes i pc k seen s) = mem_last s"
  by (simp_all add: mem_goes_def mem_last_def)

lemma mem_adds_simps [simp]:
  "ms_order (mem_adds w view s) = ms_order s @ [\<lparr>msg_value = w, msg_view = view\<rparr>]"
  "ms_log (mem_adds w view s) = ms_log s" "ms_pcs (mem_adds w view s) = ms_pcs s"
  "ms_pos (mem_adds w view s) = ms_pos s" "ms_seen (mem_adds w view s) = ms_seen s"
  "mem_last (mem_adds w view s) = \<lparr>msg_value = w, msg_view = view\<rparr>"
  by (simp_all add: mem_adds_def mem_last_def)

lemma mem_logs_simps [simp]:
  "ms_order (mem_logs i wr loc s) = ms_order s" "ms_pcs (mem_logs i wr loc s) = ms_pcs s"
  "ms_pos (mem_logs i wr loc s) = ms_pos s" "mem_last (mem_logs i wr loc s) = mem_last s"
  "ms_log (mem_logs i wr loc s) = ms_log s @ [\<lparr>da_thread = i, da_write = wr, da_loc = loc\<rparr>]"
  "ms_seen (mem_logs i wr loc s) = (ms_seen s)[i := insert (length (ms_log s)) (ms_seen s ! i)]"
  by (simp_all add: mem_logs_def mem_last_def)

lemma mem_wf_step: "mem_step P s t \<Longrightarrow> mem_wf s \<Longrightarrow> mem_wf t"
  by (induction rule: mem_step.induct) (simp_all add: mem_wf_def)

lemma mem_learns_simps [simp]:
  "e \<in> mem_learns ord m seen \<longleftrightarrow> e \<in> seen \<or> acquires ord \<and> e \<in> msg_view m"
  by (simp add: mem_learns_def)

lemma mem_publishes_simps [simp]: "e \<in> mem_publishes ord seen \<longleftrightarrow> releases ord \<and> e \<in> seen"
  by (simp add: mem_publishes_def)

text \<open>
  Every view that there is. A step without an access to data unites views and no more, so what holds of the
  empty view and of unions stays true of all.
\<close>

definition mem_views :: "('p, 'w) mem_system \<Rightarrow> nat set set" where
  "mem_views s = set (ms_seen s) \<union> msg_view ` set (ms_order s)"

lemma mem_views_nth: "mem_wf s \<Longrightarrow> i < length (ms_pcs s) \<Longrightarrow> ms_seen s ! i \<in> mem_views s"
  by (simp add: mem_views_def mem_wf_def)

lemma mem_views_last: "mem_wf s \<Longrightarrow> msg_view (mem_last s) \<in> mem_views s"
  by (simp add: mem_views_def mem_wf_def mem_last_def)

lemma mem_views_goes: "V \<in> mem_views (mem_goes i pc k seen s) \<Longrightarrow> V = seen \<or> V \<in> mem_views s"
  using set_update_subset_insert[of "ms_seen s" i seen] by (auto simp: mem_views_def)

lemma mem_views_adds: "mem_views (mem_adds w view s) = insert view (mem_views s)"
  by (auto simp: mem_views_def)

lemma mem_views_step:
  assumes step: "mem_step P s t" and log: "ms_log t = ms_log s" and wf: "mem_wf s"
    and Q: "Q {}" "\<And>A B. Q A \<Longrightarrow> Q B \<Longrightarrow> Q (A \<union> B)" "\<And>V. V \<in> mem_views s \<Longrightarrow> Q V" and V: "V \<in> mem_views t"
  shows "Q V"
proof -
  have learns: "Q (mem_learns ord m seen)" if "Q (msg_view m)" "Q seen" for ord m seen
    using that Q(2) by (simp add: mem_learns_def)
  have publishes: "Q (mem_publishes ord seen)" if "Q seen" for ord seen
    using that Q(1) by (simp add: mem_publishes_def)
  note old = Q(3)[OF mem_views_nth[OF wf]] Q(3)[OF mem_views_last[OF wf]]
  from step show ?thesis
  proof cases
    case (mem_moves i ev pc w)
    with V old show ?thesis by (auto dest!: mem_views_goes intro: Q(3))
  next
    case (mem_loads i k ev ord pc w)
    then have "Q (msg_view (ms_order s ! k))" by (intro Q(3)) (simp add: mem_views_def)
    from learns[OF this old(1)[OF mem_loads(2)]] V[unfolded mem_loads(1), THEN mem_views_goes] Q(3) show ?thesis by blast
  next
    case (mem_rmws i ev ord pc w seen)
    then have "Q seen" using old by (simp add: learns)
    with mem_rmws V old publishes show ?thesis
      by (auto simp: mem_views_adds dest!: mem_views_goes intro: Q(2,3))
  next
    case (mem_stores i ev ord pc w)
    with V old publishes show ?thesis by (auto simp: mem_views_adds dest!: mem_views_goes intro: Q(3))
  next
    case (mem_touches i wr loc)
    with log show ?thesis by simp
  qed
qed

section \<open>Schedules\<close>

text \<open>
  A run of given steps: thread \<open>i\<close> makes the access of an event, reading the message at \<open>k\<close> if it is a load,
  or touches the data.
\<close>

datatype 'e mem_act = Act_Step nat 'e nat | Act_Touch nat bool nat

fun mem_exec :: "('e, 'p, 'w) mem_program \<Rightarrow> 'e mem_act \<Rightarrow> ('p, 'w) mem_system \<Rightarrow> ('p, 'w) mem_system option" where
  "mem_exec P (Act_Step i ev k) s =
     (if \<not> i < length (ms_pcs s) then None
      else case mp_access P ev (ms_pcs s ! i) (msg_value (mem_last s)) of
        Mem_None \<Rightarrow> map_option (\<lambda>(pc, w). mem_goes i pc (ms_pos s ! i) (ms_seen s ! i) s)
          (mp_next P ev (ms_pcs s ! i) (msg_value (mem_last s)))
      | Mem_Load _ \<Rightarrow>
          if ms_pos s ! i \<le> k \<and> k < length (ms_order s)
          then case mp_access P ev (ms_pcs s ! i) (msg_value (ms_order s ! k)) of
              Mem_Load ord \<Rightarrow> map_option (\<lambda>(pc, w). mem_goes i pc k (mem_learns ord (ms_order s ! k) (ms_seen s ! i)) s)
                (mp_next P ev (ms_pcs s ! i) (msg_value (ms_order s ! k)))
            | _ \<Rightarrow> None
          else None
      | Mem_Rmw ord \<Rightarrow> map_option (\<lambda>(pc, w).
          let seen = mem_learns ord (mem_last s) (ms_seen s ! i)
          in mem_adds w (msg_view (mem_last s) \<union> mem_publishes ord seen) (mem_goes i pc (length (ms_order s)) seen s))
          (mp_next P ev (ms_pcs s ! i) (msg_value (mem_last s)))
      | Mem_Store ord \<Rightarrow> map_option (\<lambda>(pc, w). mem_adds w (mem_publishes ord (ms_seen s ! i))
          (mem_goes i pc (length (ms_order s)) (ms_seen s ! i) s))
          (mp_next P ev (ms_pcs s ! i) (msg_value (mem_last s))))"
| "mem_exec P (Act_Touch i wr loc) s =
     (if i < length (ms_pcs s) \<and> mp_may P (ms_pcs s ! i) wr loc then Some (mem_logs i wr loc s) else None)"

fun mem_run :: "('e, 'p, 'w) mem_program \<Rightarrow> 'e mem_act list \<Rightarrow> ('p, 'w) mem_system \<Rightarrow> ('p, 'w) mem_system option" where
  "mem_run P [] s = Some s"
| "mem_run P (a # as) s = (case mem_exec P a s of Some t \<Rightarrow> mem_run P as t | None \<Rightarrow> None)"

lemma mem_exec_step: "mem_exec P a s = Some t \<Longrightarrow> mem_step P s t"
  by (cases a)
    (auto simp: Let_def split: if_splits mem_access.splits intro: mem_moves mem_loads mem_rmws mem_stores mem_touches)

text \<open>A step of a thread leaves the places of the others and the accesses to data.\<close>

lemma mem_exec_frame:
  assumes "mem_exec P (Act_Step i ev k) s = Some t"
  shows "ms_log t = ms_log s" "length (ms_pcs t) = length (ms_pcs s)" "j \<noteq> i \<Longrightarrow> ms_pcs t ! j = ms_pcs s ! j"
  using assms by (auto simp: Let_def split: if_splits mem_access.splits)

lemma mem_run_reachable:
  "mem_run P as s = Some t \<Longrightarrow> reachable init (mem_step P) s \<Longrightarrow> reachable init (mem_step P) t"
  by (induction as arbitrary: s) (auto split: option.splits dest: mem_exec_step intro: reach_step)

end
