(* ===== verification/Lock_Order.thy ===== *)
theory Lock_Order
  imports Mem_Order Lock_Api
begin

text \<open>
  What the orderings of a lock have to provide, and what follows: the accesses that the lock protects do
  not race. A lock is a program around its word. Its holders are exclusive or shared; a thread that waits
  for the lock with its share already in the word has a claim.
\<close>

section \<open>The contract\<close>

text \<open>
  \<open>lock_inv\<close> is the invariant of the newest value and the places of the threads, as it is known from the
  interleaving of the accesses; \<open>value_ok\<close> is what it says of a value alone, and \<open>free\<close> that a value has no
  exclusive holder. A thread becomes a holder with an acquiring read-modify-write (or, with a claim, with an
  acquiring load of a free value) and stops with a releasing one; only an exclusive holder may store. A holder
  may load the word, and a step without an access (\<open>lock_move_ok\<close>) changes nothing of what a thread has.
\<close>

definition lock_write_ok :: "('p \<Rightarrow> bool) \<Rightarrow> ('p \<Rightarrow> bool) \<Rightarrow> ('p \<Rightarrow> bool) \<Rightarrow> mem_access \<Rightarrow> 'p list \<Rightarrow> nat \<Rightarrow> 'p \<Rightarrow> bool" where
  "lock_write_ok excl shared claims a pcs i pc \<longleftrightarrow>
     (excl pc \<longrightarrow> (\<exists>ord. a = Mem_Rmw ord \<and> acquires ord) \<and>
        (\<forall>j < length pcs. j \<noteq> i \<longrightarrow> \<not> excl (pcs ! j) \<and> \<not> shared (pcs ! j) \<and> \<not> claims (pcs ! j))) \<and>
     (shared pc \<longrightarrow> (\<exists>ord. a = Mem_Rmw ord \<and> acquires ord) \<and> (\<forall>j < length pcs. \<not> excl (pcs ! j))) \<and>
     (excl (pcs ! i) \<or> shared (pcs ! i) \<longrightarrow> \<not> excl pc \<and> \<not> shared pc \<and>
        (\<exists>ord. releases ord \<and> (a = Mem_Rmw ord \<or> excl (pcs ! i) \<and> a = Mem_Store ord))) \<and>
     (claims pc \<longrightarrow> claims (pcs ! i) \<or> (\<exists>ord. a = Mem_Rmw ord)) \<and>
     (\<forall>ord. a = Mem_Store ord \<longrightarrow> excl (pcs ! i))"

text \<open>A step without an access to the word changes nothing of what the thread has.\<close>

definition lock_move_ok :: "('p \<Rightarrow> bool) \<Rightarrow> ('p \<Rightarrow> bool) \<Rightarrow> ('p \<Rightarrow> bool) \<Rightarrow> 'p \<Rightarrow> 'p \<Rightarrow> bool" where
  "lock_move_ok excl shared claims pc pc' \<longleftrightarrow>
     (excl pc' \<longleftrightarrow> excl pc) \<and> (shared pc' \<longleftrightarrow> shared pc) \<and> (claims pc' \<longrightarrow> claims pc)"

locale ordered_lock =
  fixes P :: "('e, 'p, 'w) mem_program"
    and lock_inv :: "'w \<Rightarrow> 'p list \<Rightarrow> bool"
    and value_ok free :: "'w \<Rightarrow> bool"
    and excl shared claims :: "'p \<Rightarrow> bool"
    and start_value :: 'w
    and start :: "'p list \<Rightarrow> bool"
  assumes start_inv: "start pcs \<Longrightarrow> lock_inv start_value pcs"
    and inv_value: "lock_inv w pcs \<Longrightarrow> value_ok w"
    and inv_free: "lock_inv w pcs \<Longrightarrow> free w \<Longrightarrow> pc \<in> set pcs \<Longrightarrow> \<not> excl pc"
    and exclusive: "lock_inv w pcs \<Longrightarrow> i < length pcs \<Longrightarrow> j < length pcs \<Longrightarrow> j \<noteq> i \<Longrightarrow> excl (pcs ! j) \<Longrightarrow>
      \<not> excl (pcs ! i) \<and> \<not> shared (pcs ! i)"
    and load_ok: "lock_inv w pcs \<Longrightarrow> i < length pcs \<Longrightarrow> value_ok v \<Longrightarrow>
      mp_access P ev (pcs ! i) v = Mem_Load ord \<Longrightarrow> mp_next P ev (pcs ! i) v = Some (pc, v') \<Longrightarrow>
      (claims (pcs ! i) \<and> free v \<Longrightarrow> \<forall>q \<in> set pcs. \<not> excl q) \<Longrightarrow>
      lock_inv w (pcs[i := pc]) \<and> \<not> excl pc \<and> \<not> excl (pcs ! i) \<and> (shared (pcs ! i) \<longrightarrow> shared pc) \<and>
      (shared pc \<longrightarrow> shared (pcs ! i) \<or> acquires ord \<and> claims (pcs ! i) \<and> free v) \<and> (claims pc \<longrightarrow> claims (pcs ! i))"
    and write_ok: "lock_inv w pcs \<Longrightarrow> i < length pcs \<Longrightarrow> mp_access P ev (pcs ! i) w = a \<Longrightarrow>
      (\<forall>ord. a \<noteq> Mem_Load ord) \<Longrightarrow> mp_next P ev (pcs ! i) w = Some (pc, w') \<Longrightarrow>
      lock_inv w' (pcs[i := pc]) \<and> (a = Mem_None \<longrightarrow> w' = w \<and> lock_move_ok excl shared claims (pcs ! i) pc) \<and>
      (a \<noteq> Mem_None \<longrightarrow> lock_write_ok excl shared claims a pcs i pc)"
    and may_touch: "mp_may P pc wr loc \<Longrightarrow> excl pc \<or> shared pc \<and> \<not> wr"
begin

lemma inv_nth_free: "lock_inv w pcs \<Longrightarrow> free w \<Longrightarrow> i < length pcs \<Longrightarrow> \<not> excl (pcs ! i)"
  using inv_free nth_mem by blast

end

section \<open>The invariant\<close>

definition written :: "('p, 'w) mem_system \<Rightarrow> nat set" where
  "written s = {e. e < length (ms_log s) \<and> da_write (ms_log s ! e)}"

text \<open>Holders know what they may conflict with.\<close>

definition holders_know :: "('p \<Rightarrow> bool) \<Rightarrow> ('p \<Rightarrow> bool) \<Rightarrow> ('p, 'w) mem_system \<Rightarrow> bool" where
  "holders_know excl shared s \<longleftrightarrow> (\<forall>i < length (ms_pcs s).
     (excl (ms_pcs s ! i) \<longrightarrow> {..<length (ms_log s)} \<subseteq> ms_seen s ! i) \<and>
     (shared (ms_pcs s ! i) \<longrightarrow> written s \<subseteq> ms_seen s ! i))"

text \<open>What no holder knows can be learnt from the newest message.\<close>

definition handed_on :: "('p \<Rightarrow> bool) \<Rightarrow> ('p \<Rightarrow> bool) \<Rightarrow> ('p, 'w) mem_system \<Rightarrow> bool" where
  "handed_on excl shared s \<longleftrightarrow>
     (\<forall>e < length (ms_log s). e \<in> msg_view (mem_last s) \<or>
        (\<exists>i < length (ms_pcs s). (excl (ms_pcs s ! i) \<or> shared (ms_pcs s ! i)) \<and> e \<in> ms_seen s ! i)) \<and>
     (written s \<subseteq> msg_view (mem_last s) \<or> (\<exists>i < length (ms_pcs s). excl (ms_pcs s ! i)))"

text \<open>A thread with a claim that can read a free value may go on: the value is not stale.\<close>

definition claims_fresh :: "('w \<Rightarrow> bool) \<Rightarrow> ('p \<Rightarrow> bool) \<Rightarrow> ('p \<Rightarrow> bool) \<Rightarrow> ('p, 'w) mem_system \<Rightarrow> bool" where
  "claims_fresh free excl claims s \<longleftrightarrow> (\<forall>i < length (ms_pcs s). claims (ms_pcs s ! i) \<longrightarrow>
     (\<forall>k < length (ms_order s). ms_pos s ! i \<le> k \<and> free (msg_value (ms_order s ! k)) \<longrightarrow>
        (\<forall>q \<in> set (ms_pcs s). \<not> excl q) \<and> written s \<subseteq> msg_view (ms_order s ! k)))"

definition lock_order_inv :: "('w \<Rightarrow> 'p list \<Rightarrow> bool) \<Rightarrow> ('w \<Rightarrow> bool) \<Rightarrow> ('w \<Rightarrow> bool) \<Rightarrow> ('p \<Rightarrow> bool) \<Rightarrow> ('p \<Rightarrow> bool)
    \<Rightarrow> ('p \<Rightarrow> bool) \<Rightarrow> ('p, 'w) mem_system \<Rightarrow> bool" where
  "lock_order_inv lock_inv value_ok free excl shared claims s \<longleftrightarrow>
     mem_wf s \<and> lock_inv (msg_value (mem_last s)) (ms_pcs s) \<and> (\<forall>m \<in> set (ms_order s). value_ok (msg_value m)) \<and>
     holders_know excl shared s \<and> handed_on excl shared s \<and> claims_fresh free excl claims s"

lemma holders_know_goes:
  assumes "holders_know excl shared s" and "i < length (ms_pcs s)" and "mem_wf s"
    and "excl pc \<Longrightarrow> {..<length (ms_log s)} \<subseteq> seen" and "shared pc \<Longrightarrow> written s \<subseteq> seen"
  shows "holders_know excl shared (mem_goes i pc k seen s)"
  using assms by (auto simp: holders_know_def nth_list_update mem_wf_def written_def)

text \<open>What an access that writes makes of the view of its thread, and puts into its message.\<close>

definition mem_writes :: "mem_access \<Rightarrow> mem_order \<Rightarrow> nat set \<Rightarrow> nat set \<Rightarrow> nat \<Rightarrow> ('p, 'w) mem_system \<Rightarrow> bool" where
  "mem_writes a ord seen view i s \<longleftrightarrow>
     a = Mem_Rmw ord \<and> seen = mem_learns ord (mem_last s) (ms_seen s ! i) \<and>
       view = msg_view (mem_last s) \<union> mem_publishes ord seen \<or>
     a = Mem_Store ord \<and> seen = ms_seen s ! i \<and> view = mem_publishes ord seen"

lemma written_goes [simp]: "written (mem_goes i pc k seen s) = written s"
  by (simp add: written_def)

lemma written_adds [simp]: "written (mem_adds w view s) = written s"
  by (simp add: written_def)

lemma written_logs [simp]:
  "written (mem_logs i wr loc s) = written s \<union> (if wr then {length (ms_log s)} else {})"
  by (auto simp: written_def nth_append less_Suc_eq)

context ordered_lock begin

abbreviation order_inv :: "('p, 'w) mem_system \<Rightarrow> bool" where
  "order_inv \<equiv> lock_order_inv lock_inv value_ok free excl shared claims"

lemma order_inv_init: "lock_inv w pcs \<Longrightarrow> order_inv (mem_init w pcs)"
  using inv_value inv_free
  by (auto simp: lock_order_inv_def mem_wf_def holders_know_def handed_on_def claims_fresh_def written_def
      mem_init_def mem_last_def)

text \<open>A step that changes neither the word nor a holder.\<close>

lemma order_inv_goes:
  assumes inv: "order_inv s" and i: "i < length (ms_pcs s)" and k: "ms_pos s ! i \<le> k"
    and linv: "lock_inv (msg_value (mem_last s)) ((ms_pcs s)[i := pc])"
    and pc: "\<not> excl pc" "\<not> excl (ms_pcs s ! i)" "shared (ms_pcs s ! i) \<Longrightarrow> shared pc"
      "shared pc \<Longrightarrow> shared (ms_pcs s ! i) \<or> written s \<subseteq> seen" "ms_seen s ! i \<subseteq> seen"
      "claims pc \<Longrightarrow> claims (ms_pcs s ! i)"
  shows "order_inv (mem_goes i pc k seen s)"
proof -
  let ?t = "mem_goes i pc k seen s"
  have wf: "mem_wf s" and fresh: "claims_fresh free excl claims s" using inv by (auto simp: lock_order_inv_def)
  have know: "holders_know excl shared s" and handed: "handed_on excl shared s"
    using inv by (auto simp: lock_order_inv_def)
  have "written s \<subseteq> seen" if "shared pc"
    using know i pc(4)[OF that] pc(5) by (auto simp: holders_know_def)
  then have "holders_know excl shared ?t"
    using know pc(1) wf i by (intro holders_know_goes) auto
  moreover have "handed_on excl shared ?t"
  proof -
    have "(excl (ms_pcs ?t ! j) \<or> shared (ms_pcs ?t ! j)) \<and> e \<in> ms_seen ?t ! j"
      if "j < length (ms_pcs s)" "excl (ms_pcs s ! j) \<or> shared (ms_pcs s ! j)" "e \<in> ms_seen s ! j" for e j
      using that pc(2,3,5) wf by (cases "j = i") (auto simp: mem_wf_def)
    moreover have "excl (ms_pcs ?t ! j)" if "j < length (ms_pcs s)" "excl (ms_pcs s ! j)" for j
      using that pc(2) by (cases "j = i") auto
    ultimately show ?thesis using handed unfolding handed_on_def
      by (metis mem_goes_simps(2,3,6) written_goes length_list_update)
  qed
  moreover have "claims_fresh free excl claims ?t"
    unfolding claims_fresh_def
  proof (intro allI impI)
    fix j k'
    assume j: "j < length (ms_pcs ?t)" "claims (ms_pcs ?t ! j)"
      and k': "k' < length (ms_order ?t)" "ms_pos ?t ! j \<le> k' \<and> free (msg_value (ms_order ?t ! k'))"
    have "claims (ms_pcs s ! j)" "ms_pos s ! j \<le> k'"
      using j k' pc(6) k wf i by (auto simp: nth_update mem_wf_def split: if_splits)
    with fresh j(1) k' have "(\<forall>q \<in> set (ms_pcs s). \<not> excl q) \<and> written s \<subseteq> msg_view (ms_order s ! k')"
      by (simp add: claims_fresh_def)
    with pc(1) show "(\<forall>q \<in> set (ms_pcs ?t). \<not> excl q) \<and> written ?t \<subseteq> msg_view (ms_order ?t ! k')"
      by (auto dest: set_update_subset_insert[THEN subsetD])
  qed
  ultimately show ?thesis using inv linv by (simp add: lock_order_inv_def mem_wf_def)
qed

lemma order_inv_load:
  assumes inv: "order_inv s" and i: "i < length (ms_pcs s)" and k: "ms_pos s ! i \<le> k" "k < length (ms_order s)"
    and access: "mp_access P ev (ms_pcs s ! i) (msg_value (ms_order s ! k)) = Mem_Load ord"
    and nx: "mp_next P ev (ms_pcs s ! i) (msg_value (ms_order s ! k)) = Some (pc, w)"
  shows "order_inv (mem_goes i pc k (mem_learns ord (ms_order s ! k) (ms_seen s ! i)) s)"
proof -
  let ?v = "msg_value (ms_order s ! k)"
  have linv: "lock_inv (msg_value (mem_last s)) (ms_pcs s)" and ok: "value_ok ?v"
    using inv k(2) by (auto simp: lock_order_inv_def)
  have free: "(\<forall>q \<in> set (ms_pcs s). \<not> excl q) \<and> written s \<subseteq> msg_view (ms_order s ! k)"
    if "claims (ms_pcs s ! i) \<and> free ?v"
    using inv that i k by (simp add: lock_order_inv_def claims_fresh_def)
  with load_ok[OF linv i ok access nx] inv i k(1) show ?thesis by (intro order_inv_goes) auto
qed

lemma order_inv_move:
  assumes inv: "order_inv s" and i: "i < length (ms_pcs s)"
    and access: "mp_access P ev (ms_pcs s ! i) (msg_value (mem_last s)) = Mem_None"
    and nx: "mp_next P ev (ms_pcs s ! i) (msg_value (mem_last s)) = Some (pc, w)"
  shows "order_inv (mem_goes i pc (ms_pos s ! i) (ms_seen s ! i) s)" (is "order_inv ?t")
proof -
  have wf: "mem_wf s" and linv: "lock_inv (msg_value (mem_last s)) (ms_pcs s)" and know: "holders_know excl shared s"
    and handed: "handed_on excl shared s" and fresh: "claims_fresh free excl claims s"
    using inv by (auto simp: lock_order_inv_def)
  from write_ok[OF linv i access _ nx] have linv': "lock_inv (msg_value (mem_last s)) (ms_pcs ?t)"
    and move: "lock_move_ok excl shared claims (ms_pcs s ! i) pc" by auto
  have same: "excl (ms_pcs ?t ! j) = excl (ms_pcs s ! j)" "shared (ms_pcs ?t ! j) = shared (ms_pcs s ! j)"
    "claims (ms_pcs ?t ! j) \<Longrightarrow> claims (ms_pcs s ! j)" if "j < length (ms_pcs s)" for j
    using move that by (auto simp: lock_move_ok_def nth_update split: if_splits)
  have "excl q \<Longrightarrow> q \<in> set (ms_pcs ?t) \<Longrightarrow> \<exists>q \<in> set (ms_pcs s). excl q" for q
    using same(1) by (auto simp: in_set_conv_nth intro: nth_mem)
  with fresh have "claims_fresh free excl claims ?t"
    using same(3) unfolding claims_fresh_def by simp blast
  moreover have "holders_know excl shared ?t" using know same(1,2) unfolding holders_know_def by simp
  moreover have "handed_on excl shared ?t" using handed same(1,2) unfolding handed_on_def by (simp cong: conj_cong)
  ultimately show ?thesis using inv linv' by (simp add: lock_order_inv_def mem_wf_def)
qed

text \<open>
  A step that writes the word: an acquiring holder learns everything, a leaving one hands everything on,
  and the newest message keeps what it had.
\<close>

lemma lock_write_facts:
  assumes ok: "lock_write_ok excl shared claims a (ms_pcs s) i pc" and inv: "order_inv s" and i: "i < length (ms_pcs s)"
    and w: "mem_writes a ord seen view i s"
  shows "ms_seen s ! i \<subseteq> seen"
    and "excl (ms_pcs s ! i) \<or> shared (ms_pcs s ! i) \<Longrightarrow> ms_seen s ! i \<subseteq> view \<and> \<not> excl pc \<and> \<not> shared pc"
    and "e \<in> msg_view (mem_last s) \<Longrightarrow> e < length (ms_log s) \<Longrightarrow> e \<in> view"
proof -
  show grows: "ms_seen s ! i \<subseteq> seen" using w by (auto simp: mem_writes_def)
  show given: "ms_seen s ! i \<subseteq> view \<and> \<not> excl pc \<and> \<not> shared pc" if "excl (ms_pcs s ! i) \<or> shared (ms_pcs s ! i)"
  proof -
    from ok that have "\<not> excl pc \<and> \<not> shared pc \<and> (\<exists>ord. releases ord \<and> (a = Mem_Rmw ord \<or> a = Mem_Store ord))"
      unfolding lock_write_ok_def by blast
    with w grows show ?thesis by (auto simp: mem_writes_def)
  qed
  assume e: "e \<in> msg_view (mem_last s)" "e < length (ms_log s)"
  show "e \<in> view"
  proof (cases "a = Mem_Store ord")
    case True
    with ok have excl: "excl (ms_pcs s ! i)" by (simp add: lock_write_ok_def)
    with inv i e(2) have "e \<in> ms_seen s ! i" by (auto simp: lock_order_inv_def holders_know_def)
    with given excl show ?thesis by blast
  qed (use w e in \<open>auto simp: mem_writes_def\<close>)
qed

lemma order_inv_write_know:
  assumes inv: "order_inv s" and i: "i < length (ms_pcs s)" and ok: "lock_write_ok excl shared claims a (ms_pcs s) i pc"
    and w: "mem_writes a ord seen view i s"
  shows "holders_know excl shared (mem_goes i pc k seen s)"
proof -
  have know: "holders_know excl shared s" "mem_wf s" and handed: "handed_on excl shared s"
    using inv by (auto simp: lock_order_inv_def)
  have "{..<length (ms_log s)} \<subseteq> seen" if "excl pc"
  proof
    fix e assume e: "e \<in> {..<length (ms_log s)}"
    from ok that have "\<exists>ord. a = Mem_Rmw ord \<and> acquires ord" by (simp add: lock_write_ok_def)
    then have learns: "msg_view (mem_last s) \<union> ms_seen s ! i \<subseteq> seen" using w by (auto simp: mem_writes_def)
    have alone: "\<forall>j < length (ms_pcs s). j \<noteq> i \<longrightarrow> \<not> excl (ms_pcs s ! j) \<and> \<not> shared (ms_pcs s ! j)"
      using ok that by (simp add: lock_write_ok_def)
    from e handed have "e \<in> msg_view (mem_last s) \<or>
        (\<exists>j < length (ms_pcs s). (excl (ms_pcs s ! j) \<or> shared (ms_pcs s ! j)) \<and> e \<in> ms_seen s ! j)"
      by (simp add: handed_on_def)
    with learns alone show "e \<in> seen" by blast
  qed
  moreover have "written s \<subseteq> seen" if "shared pc"
  proof -
    from ok that have "\<exists>ord. a = Mem_Rmw ord \<and> acquires ord" by (simp add: lock_write_ok_def)
    then have learns: "msg_view (mem_last s) \<subseteq> seen" using w by (auto simp: mem_writes_def)
    have "\<forall>j < length (ms_pcs s). \<not> excl (ms_pcs s ! j)" using ok that by (simp add: lock_write_ok_def)
    with handed learns show ?thesis by (auto simp: handed_on_def)
  qed
  ultimately show ?thesis using know i by (intro holders_know_goes)
qed

lemma order_inv_write_handed:
  assumes inv: "order_inv s" and i: "i < length (ms_pcs s)" and ok: "lock_write_ok excl shared claims a (ms_pcs s) i pc"
    and w: "mem_writes a ord seen view i s"
  shows "handed_on excl shared (mem_adds v view (mem_goes i pc k seen s))" (is "handed_on _ _ ?t")
proof -
  note facts = lock_write_facts[OF ok inv i w]
  have handed: "handed_on excl shared s" using inv by (simp add: lock_order_inv_def)
  have stays: "j < length (ms_pcs ?t) \<and> ms_pcs ?t ! j = ms_pcs s ! j \<and> ms_seen ?t ! j = ms_seen s ! j"
    if "j < length (ms_pcs s)" "j \<noteq> i" for j using that by simp
  have one: "e \<in> view \<or> (\<exists>j < length (ms_pcs ?t). (excl (ms_pcs ?t ! j) \<or> shared (ms_pcs ?t ! j)) \<and> e \<in> ms_seen ?t ! j)"
    if e: "e < length (ms_log s)" for e
  proof -
    from handed e consider "e \<in> msg_view (mem_last s)" |
        j where "j < length (ms_pcs s)" "excl (ms_pcs s ! j) \<or> shared (ms_pcs s ! j)" "e \<in> ms_seen s ! j"
      by (auto simp: handed_on_def)
    then show ?thesis
    proof cases
      case 2
      then show ?thesis using facts(2) stays[of j] by (cases "j = i") (blast, metis)
    qed (use facts(3) e in blast)
  qed
  have two: "written s \<subseteq> view \<or> (\<exists>j < length (ms_pcs ?t). excl (ms_pcs ?t ! j))"
  proof (cases "\<exists>j < length (ms_pcs s). excl (ms_pcs s ! j)")
    case True
    then obtain j where j: "j < length (ms_pcs s)" "excl (ms_pcs s ! j)" by blast
    show ?thesis
    proof (cases "j = i")
      case True
      with j inv have "{..<length (ms_log s)} \<subseteq> ms_seen s ! i" by (simp add: lock_order_inv_def holders_know_def)
      with True j facts(2) show ?thesis by (auto simp: written_def)
    qed (use j stays in metis)
  next
    case False
    with handed facts(3) show ?thesis by (auto simp: handed_on_def written_def)
  qed
  from one two show ?thesis by (simp add: handed_on_def)
qed

lemma order_inv_write_fresh:
  assumes inv: "order_inv s" and i: "i < length (ms_pcs s)" and ok: "lock_write_ok excl shared claims a (ms_pcs s) i pc"
    and linv: "lock_inv v ((ms_pcs s)[i := pc])"
    and handed: "handed_on excl shared (mem_adds v view (mem_goes i pc (length (ms_order s)) seen s))"
  shows "claims_fresh free excl claims (mem_adds v view (mem_goes i pc (length (ms_order s)) seen s))"
    (is "claims_fresh _ _ _ ?t")
  unfolding claims_fresh_def
proof (intro allI impI)
  have wf: "mem_wf s" and fresh: "claims_fresh free excl claims s" using inv by (auto simp: lock_order_inv_def)
  fix j k
  assume j: "j < length (ms_pcs ?t)" "claims (ms_pcs ?t ! j)"
    and k: "k < length (ms_order ?t)" "ms_pos ?t ! j \<le> k \<and> free (msg_value (ms_order ?t ! k))"
  show "(\<forall>q \<in> set (ms_pcs ?t). \<not> excl q) \<and> written ?t \<subseteq> msg_view (ms_order ?t ! k)"
  proof (cases "k = length (ms_order s)")
    case True
    with k(2) have "free v" by (simp add: nth_append)
    with inv_free[OF linv] have no_excl: "\<forall>q \<in> set ((ms_pcs s)[i := pc]). \<not> excl q" by blast
    with handed have "written s \<subseteq> view" by (auto simp: handed_on_def)
    with no_excl True show ?thesis by (simp add: nth_append)
  next
    case False
    with k have k': "k < length (ms_order s)" by simp
    with k j wf i have "j \<noteq> i" by (auto simp: mem_wf_def)
    with j k k' wf have old: "j < length (ms_pcs s)" "claims (ms_pcs s ! j)" "ms_pos s ! j \<le> k"
      "free (msg_value (ms_order s ! k))" by (simp_all add: nth_append)
    with fresh k' have no_excl: "(\<forall>q \<in> set (ms_pcs s). \<not> excl q) \<and> written s \<subseteq> msg_view (ms_order s ! k)"
      by (simp add: claims_fresh_def)
    have "excl pc \<longrightarrow> (\<forall>j < length (ms_pcs s). j \<noteq> i \<longrightarrow> \<not> claims (ms_pcs s ! j))"
      using ok unfolding lock_write_ok_def by blast
    then have "\<not> excl pc" using old(1,2) \<open>j \<noteq> i\<close> by blast
    with no_excl have "\<not> excl q" if "q \<in> set ((ms_pcs s)[i := pc])" for q
      using that set_update_subset_insert[of "ms_pcs s" i pc] by (metis insertE subsetD)
    with no_excl k' show ?thesis by (simp add: nth_append)
  qed
qed

lemma order_inv_write:
  assumes inv: "order_inv s" and i: "i < length (ms_pcs s)"
    and access: "mp_access P ev (ms_pcs s ! i) (msg_value (mem_last s)) = a"
    and nx: "mp_next P ev (ms_pcs s ! i) (msg_value (mem_last s)) = Some (pc, v)"
    and w: "mem_writes a ord seen view i s"
  shows "order_inv (mem_adds v view (mem_goes i pc (length (ms_order s)) seen s))"
proof -
  have "lock_inv (msg_value (mem_last s)) (ms_pcs s)" using inv by (simp add: lock_order_inv_def)
  from write_ok[OF this i access _ nx] w have linv: "lock_inv v ((ms_pcs s)[i := pc])"
    and ok: "lock_write_ok excl shared claims a (ms_pcs s) i pc" by (auto simp: mem_writes_def)
  note handed = order_inv_write_handed[OF inv i ok w, of v "length (ms_order s)"]
  show ?thesis
    using inv linv inv_value[OF linv] order_inv_write_know[OF inv i ok w, of "length (ms_order s)"] handed
      order_inv_write_fresh[OF inv i ok linv handed]
    by (auto simp: lock_order_inv_def mem_wf_def holders_know_def)
qed

text \<open>An access to the data by a holder.\<close>

lemma order_inv_log:
  assumes inv: "order_inv s" and i: "i < length (ms_pcs s)"
    and holder: "excl (ms_pcs s ! i) \<or> shared (ms_pcs s ! i) \<and> \<not> wr"
  shows "order_inv (mem_logs i wr loc s)"
proof -
  let ?t = "mem_logs i wr loc s" and ?n = "length (ms_log s)"
  have wf: "mem_wf s" and linv: "lock_inv (msg_value (mem_last s)) (ms_pcs s)" and know: "holders_know excl shared s"
    and handed: "handed_on excl shared s" and fresh: "claims_fresh free excl claims s"
    using inv by (auto simp: lock_order_inv_def)
  have "holders_know excl shared ?t"
    unfolding holders_know_def
  proof (intro allI impI)
    fix j assume "j < length (ms_pcs ?t)"
    then have j: "j < length (ms_pcs s)" by simp
    have old: "excl (ms_pcs s ! j) \<longrightarrow> {..<?n} \<subseteq> ms_seen s ! j" "shared (ms_pcs s ! j) \<longrightarrow> written s \<subseteq> ms_seen s ! j"
      using know j by (auto simp: holders_know_def)
    show "(excl (ms_pcs ?t ! j) \<longrightarrow> {..<length (ms_log ?t)} \<subseteq> ms_seen ?t ! j) \<and>
        (shared (ms_pcs ?t ! j) \<longrightarrow> written ?t \<subseteq> ms_seen ?t ! j)"
    proof (cases "j = i")
      case True
      with old i wf show ?thesis by (auto simp: mem_wf_def less_Suc_eq)
    next
      case False
      with exclusive[OF linv i j] exclusive[OF linv j i] holder old show ?thesis by (cases wr) auto
    qed
  qed
  moreover have "handed_on excl shared ?t"
    using handed i wf holder by (auto simp: handed_on_def mem_wf_def nth_update less_Suc_eq)
  moreover have "claims_fresh free excl claims ?t"
    using fresh i holder unfolding claims_fresh_def by (auto simp: all_set_conv_all_nth)
  ultimately show ?thesis using inv by (simp add: lock_order_inv_def mem_wf_def)
qed

lemma order_inv_touch:
  "order_inv s \<Longrightarrow> i < length (ms_pcs s) \<Longrightarrow> mp_may P (ms_pcs s ! i) wr loc \<Longrightarrow> order_inv (mem_logs i wr loc s)"
  using order_inv_log may_touch by blast

lemma order_inv_step: "mem_step P s t \<Longrightarrow> order_inv s \<Longrightarrow> order_inv t"
proof (induction rule: mem_step.induct)
  case (mem_rmws i s ev ord pc w seen)
  then show ?case by (intro order_inv_write) (auto simp: mem_writes_def)
next
  case (mem_stores i s ev ord pc w)
  then show ?case by (intro order_inv_write) (auto simp: mem_writes_def)
qed (auto intro: order_inv_move order_inv_load order_inv_touch)

lemma order_inv_race_free:
  assumes "order_inv s"
  shows "mem_race_free P s"
  unfolding mem_race_free_def
proof (intro allI impI)
  fix i wr loc e
  assume i: "i < length (ms_pcs s)" and may: "mp_may P (ms_pcs s ! i) wr loc" and e: "e < length (ms_log s)"
    and conflict: "da_loc (ms_log s ! e) = loc \<and> (wr \<or> da_write (ms_log s ! e))"
  have "holders_know excl shared s" using assms by (simp add: lock_order_inv_def)
  with may_touch[OF may] i e conflict show "e \<in> ms_seen s ! i" by (auto simp: holders_know_def written_def)
qed

end

text \<open>The interleaving with orderings keeps the invariant, so every reachable state is free of races.\<close>

sublocale ordered_lock \<subseteq> mem: transition_system "mem_starts start_value start" "mem_step P"
  "lock_order_inv lock_inv value_ok free excl shared claims"
proof
  fix s
  assume "mem_starts start_value start s"
  then show "order_inv s" using order_inv_init[OF start_inv, of "ms_pcs s"] by (metis mem_starts_def)
qed (rule order_inv_step)

context ordered_lock begin

lemma reachable_race_free: "reachable (mem_starts start_value start) (mem_step P) s \<Longrightarrow> mem_race_free P s"
  using order_inv_race_free mem.reachable_inv by blast

lemma reachable_lock_inv:
  "reachable (mem_starts start_value start) (mem_step P) s \<Longrightarrow> lock_inv (msg_value (mem_last s)) (ms_pcs s)"
  using mem.reachable_inv by (simp add: lock_order_inv_def)

end

section \<open>The lock as a parameter\<close>

text \<open>
  The lock in the form of \<open>Lock_Api\<close>, for the queues: its state is the memory with its word. \<open>calls\<close>, \<open>runs\<close> and
  \<open>unlocks\<close> are the events of a lock method, of the accesses of a call and of an unlock method, and a load
  may read any message that the memory permits.
\<close>

definition mem_raw :: "('e, 'p, 'w) mem_program \<Rightarrow> 'w \<Rightarrow> ('p list \<Rightarrow> bool) \<Rightarrow> ('p \<Rightarrow> bool) \<Rightarrow> ('p \<Rightarrow> bool) \<Rightarrow> ('p \<Rightarrow> bool) \<Rightarrow>
    (lock_mode \<Rightarrow> 'e) \<Rightarrow> 'e set \<Rightarrow> (lock_mode \<Rightarrow> 'e) \<Rightarrow> ('p, 'w) mem_system raw_lock" where
  "mem_raw P start_value start excl shared idle calls runs unlocks = \<lparr>
     lk_init = mem_starts start_value start,
     lk_call = (\<lambda>m i s t. \<exists>k. mem_exec P (Act_Step i (calls m) k) s = Some t),
     lk_run = (\<lambda>i s t. \<exists>ev \<in> runs. \<exists>k. mem_exec P (Act_Step i ev k) s = Some t),
     lk_unlock = (\<lambda>m i s t. \<exists>k. mem_exec P (Act_Step i (unlocks m) k) s = Some t),
     lk_guard = (\<lambda>m i s. i < length (ms_pcs s) \<and>
       (case m of Lk_Read \<Rightarrow> shared (ms_pcs s ! i) | Lk_Write \<Rightarrow> excl (ms_pcs s ! i))),
     lk_idle = (\<lambda>i s. i < length (ms_pcs s) \<and> idle (ms_pcs s ! i))\<rparr>"

lemma mem_raw_thread:
  "lk_thread (mem_raw P start_value start excl shared idle calls runs unlocks) i s t \<Longrightarrow>
    \<exists>ev k. mem_exec P (Act_Step i ev k) s = Some t"
  by (auto simp: lk_thread_def mem_raw_def simp del: mem_exec.simps)

context ordered_lock begin

abbreviation raw :: "('p \<Rightarrow> bool) \<Rightarrow> (lock_mode \<Rightarrow> 'e) \<Rightarrow> 'e set \<Rightarrow> (lock_mode \<Rightarrow> 'e) \<Rightarrow> ('p, 'w) mem_system raw_lock" where
  "raw \<equiv> mem_raw P start_value start excl shared"

end

sublocale ordered_lock \<subseteq> weak: rw_lock_contract "mem_raw P start_value start excl shared idle calls runs unlocks"
  "lock_order_inv lock_inv value_ok free excl shared claims" for idle calls runs unlocks
proof
  let ?L = "mem_raw P start_value start excl shared idle calls runs unlocks"
  fix s t i m j
  show "lk_init ?L s \<Longrightarrow> order_inv s" using mem.init_inv by (simp add: mem_raw_def)
  show "lk_step ?L s t \<Longrightarrow> order_inv s \<Longrightarrow> order_inv t"
    unfolding lk_step_def using mem_raw_thread mem_exec_step order_inv_step by metis
  show "order_inv s \<Longrightarrow> lk_guard ?L Lk_Write i s \<Longrightarrow> lk_guard ?L m j s \<Longrightarrow> i = j"
    using exclusive[of "msg_value (mem_last s)" "ms_pcs s" j i]
    by (cases m) (auto simp: mem_raw_def lock_order_inv_def)
  assume "lk_thread ?L i s t" and j: "j \<noteq> i"
  then obtain ev k where "mem_exec P (Act_Step i ev k) s = Some t" using mem_raw_thread by metis
  note frame = mem_exec_frame(2)[OF this] mem_exec_frame(3)[OF this j]
  show "lk_guard ?L m j t = lk_guard ?L m j s" by (cases m) (simp_all add: mem_raw_def frame)
qed

end
