(* ===== verification/Spin.thy ===== *)
theory Spin
  imports Backoff
begin

text \<open>
  The spin lock \<open>RawSpin\<close> of \<open>src/src/spin.rs\<close>: its operations on the atomic boolean, and any number
  of threads that call them, interleaved at the atomic accesses.

  A thread is where its call has got to: \<open>Spin_Idle\<close> between calls, \<open>Spin_Swap\<close> before the
  \<open>fetch_or\<close> of \<open>lock\<close>, \<open>Spin_Wait\<close> in its inner loop before the load, \<open>Spin_Held\<close> between an
  acquisition and the \<open>unlock\<close>. A thread that holds several guards or runs several calls counts as
  several. The steps are sequentially consistent; \<open>Spin_Order\<close> has the orderings. The
  lock_api implementation of the trait \<open>RawMutex\<close> forwards to these operations.
\<close>

section \<open>Operations on the boolean\<close>

definition spin_new :: bool where
  "spin_new = False"

definition spin_is_locked :: "bool \<Rightarrow> bool" where
  "spin_is_locked lock = lock"

definition fetch_or :: "bool \<Rightarrow> bool \<Rightarrow> bool \<times> bool" where
  "fetch_or v lock = (lock, lock \<or> v)"

definition spin_try_lock :: "bool \<Rightarrow> bool \<times> bool" where
  "spin_try_lock lock = (case fetch_or True lock of (old, lock') \<Rightarrow> (\<not> old, lock'))"

definition spin_unlock :: "bool \<Rightarrow> bool" where
  "spin_unlock lock = False"

section \<open>Threads\<close>

datatype spin_pc = Spin_Idle | Spin_Swap back_off | Spin_Wait back_off | Spin_Held

text \<open>One atomic access of \<open>lock\<close>: the \<open>fetch_or\<close> of the outer loop or the load of the inner one.\<close>

fun spin_lock_step :: "bool \<Rightarrow> spin_pc \<Rightarrow> bool \<Rightarrow> (spin_pc \<times> bool) option" where
  "spin_lock_step std (Spin_Swap b) lock =
     (case fetch_or True lock of (old, lock') \<Rightarrow> Some (if old then Spin_Wait b else Spin_Held, lock'))"
| "spin_lock_step std (Spin_Wait b) lock =
     Some (if spin_is_locked lock then Spin_Wait (snd (backoff_wait std b)) else Spin_Swap b, lock)"
| "spin_lock_step std _ lock = None"

datatype spin_event = Spin_Try_Lock | Spin_Lock | Spin_Continue | Spin_Unlock

fun spin_next :: "bool \<Rightarrow> spin_event \<Rightarrow> spin_pc \<Rightarrow> bool \<Rightarrow> (spin_pc \<times> bool) option" where
  "spin_next std Spin_Try_Lock Spin_Idle lock =
     (case spin_try_lock lock of (ok, lock') \<Rightarrow> Some (if ok then Spin_Held else Spin_Idle, lock'))"
| "spin_next std Spin_Lock Spin_Idle lock = Some (Spin_Swap backoff_new, lock)"
| "spin_next std Spin_Continue pc lock = spin_lock_step std pc lock"
| "spin_next std Spin_Unlock Spin_Held lock = Some (Spin_Idle, spin_unlock lock)"
| "spin_next std _ _ lock = None"

record spin_system =
  sp_lock :: bool
  sp_pcs :: "spin_pc list"

definition spin_init :: "spin_system \<Rightarrow> bool" where
  "spin_init s \<longleftrightarrow> sp_lock s = spin_new \<and> set (sp_pcs s) \<subseteq> {Spin_Idle}"

inductive spin_step :: "bool \<Rightarrow> spin_system \<Rightarrow> spin_system \<Rightarrow> bool" for std where
  spin_stepI: "i < length (sp_pcs s) \<Longrightarrow> spin_next std ev (sp_pcs s ! i) (sp_lock s) = Some (pc, lock) \<Longrightarrow>
    spin_step std s (s\<lparr>sp_lock := lock, sp_pcs := (sp_pcs s)[i := pc]\<rparr>)"

inductive_cases spin_step_cases: "spin_step std s t"

section \<open>Mutual exclusion\<close>

definition spin_holds :: "spin_system \<Rightarrow> nat \<Rightarrow> bool" where
  "spin_holds s i \<longleftrightarrow> i < length (sp_pcs s) \<and> sp_pcs s ! i = Spin_Held"

text \<open>The boolean counts the holders.\<close>

definition spin_held :: "spin_pc \<Rightarrow> nat" where
  "spin_held pc = (if pc = Spin_Held then 1 else 0)"

definition spin_inv :: "spin_system \<Rightarrow> bool" where
  "spin_inv s \<longleftrightarrow> sum_list (map spin_held (sp_pcs s)) = (if sp_lock s then 1 else 0)"

lemma spin_next_held:
  "spin_next std ev pc lock = Some (pc', lock') \<Longrightarrow> n + spin_held pc = (if lock then 1 else 0) \<Longrightarrow>
    n + spin_held pc' = (if lock' then 1 else 0)"
  by (cases "(std, ev, pc, lock)" rule: spin_next.cases; cases pc)
    (auto simp: spin_held_def spin_try_lock_def fetch_or_def spin_unlock_def spin_is_locked_def split: if_splits)

lemma spin_inv_init: "spin_init s \<Longrightarrow> spin_inv s"
  unfolding spin_init_def spin_inv_def spin_new_def spin_held_def
  by (induction "sp_pcs s" arbitrary: s) auto

lemma spin_inv_step: "spin_step std s t \<Longrightarrow> spin_inv s \<Longrightarrow> spin_inv t"
proof (erule spin_step_cases)
  fix i ev pc lock
  assume inv: "spin_inv s" and i: "i < length (sp_pcs s)"
    and nx: "spin_next std ev (sp_pcs s ! i) (sp_lock s) = Some (pc, lock)"
    and t: "t = s\<lparr>sp_lock := lock, sp_pcs := (sp_pcs s)[i := pc]\<rparr>"
  obtain n where n: "sum_list (map spin_held (sp_pcs s)) = n + spin_held (sp_pcs s ! i)"
    "sum_list (map spin_held ((sp_pcs s)[i := pc])) = n + spin_held pc"
    using sum_list_map_frame[OF i, of spin_held] by blast
  with inv spin_next_held[OF nx, of n] show "spin_inv t" by (simp add: spin_inv_def t)
qed

lemma spin_inv_exclusive: "spin_inv s \<Longrightarrow> spin_holds s i \<Longrightarrow> spin_holds s j \<Longrightarrow> i = j"
  using sum_list_map_two_le[of i "sp_pcs s" j spin_held]
  by (auto simp: spin_inv_def spin_holds_def spin_held_def split: if_splits)

lemma spin_inv_lock: "spin_inv s \<Longrightarrow> sp_lock s \<longleftrightarrow> (\<exists>i. spin_holds s i)"
proof
  assume "spin_inv s" "sp_lock s"
  then have "sum_list (map spin_held (sp_pcs s)) \<noteq> 0" by (simp add: spin_inv_def)
  then obtain pc where "pc \<in> set (sp_pcs s)" "pc = Spin_Held"
    by (auto simp: sum_list_eq_0_iff spin_held_def split: if_splits)
  then show "\<exists>i. spin_holds s i" by (auto simp: spin_holds_def in_set_conv_nth)
next
  assume "spin_inv s" "\<exists>i. spin_holds s i"
  then obtain i where "i < length (sp_pcs s)" "sp_pcs s ! i = Spin_Held" by (auto simp: spin_holds_def)
  with sum_list_map_ge[of i "sp_pcs s" spin_held] \<open>spin_inv s\<close> show "sp_lock s"
    by (auto simp: spin_inv_def spin_held_def split: if_splits)
qed

interpretation spin: exclusion_system spin_init "spin_step std" spin_inv spin_holds spin_holds for std
  by unfold_locales (auto intro: spin_inv_init spin_inv_step spin_inv_exclusive)

section \<open>Properties\<close>

text \<open>
  Mutual exclusion: however the calls of any number of threads interleave, at most one
  thread is between an acquisition and its \<open>unlock\<close>, the boolean is set exactly while one is, and
  \<open>try_lock\<close> succeeds exactly when none is.
\<close>

theorem spin_mutual_exclusion:
  assumes "reachable spin_init (spin_step std) s"
  shows "(spin_holds s i \<and> spin_holds s j \<longrightarrow> i = j) \<and>
    spin_is_locked (sp_lock s) = (\<exists>k. spin_holds s k) \<and>
    fst (spin_try_lock (sp_lock s)) = (\<nexists>k. spin_holds s k)"
  using spin.reachable_exclusive[OF assms, of i j] spin_inv_lock[OF spin.reachable_inv[OF assms]]
  by (auto simp: spin_is_locked_def spin_try_lock_def fetch_or_def)

definition spin_two_threads :: spin_system where
  "spin_two_threads = \<lparr>sp_lock = True, sp_pcs = [Spin_Held, Spin_Swap backoff_new]\<rparr>"

lemma spin_two_threads_reachable: "reachable spin_init (spin_step std) spin_two_threads"
proof -
  let ?s0 = "\<lparr>sp_lock = False, sp_pcs = [Spin_Idle, Spin_Idle]\<rparr>"
  let ?s1 = "\<lparr>sp_lock = True, sp_pcs = [Spin_Held, Spin_Idle]\<rparr>"
  have "reachable spin_init (spin_step std) ?s0"
    by (rule reach_init) (simp add: spin_init_def spin_new_def)
  moreover have "spin_step std ?s0 ?s1"
    using spin_stepI[of 0 ?s0 std Spin_Try_Lock Spin_Held True] by (simp add: spin_try_lock_def fetch_or_def)
  moreover have "spin_step std ?s1 spin_two_threads"
    using spin_stepI[of 1 ?s1 std Spin_Lock "Spin_Swap backoff_new" True] by (simp add: spin_two_threads_def)
  ultimately show ?thesis by (blast intro: reach_step)
qed

theorem spin_mutual_exclusion_witness:
  "\<not> spin_holds spin_two_threads 1 \<and> \<not> fst (spin_try_lock (sp_lock spin_two_threads))"
proof -
  have "spin_holds spin_two_threads 0" by (simp add: spin_holds_def spin_two_threads_def)
  with spin_mutual_exclusion[OF spin_two_threads_reachable[of True], of 0 1] show ?thesis by auto
qed

text \<open>The events of one thread in a row, the others standing still.\<close>

fun spin_run :: "bool \<Rightarrow> nat \<Rightarrow> spin_event list \<Rightarrow> spin_system \<Rightarrow> spin_system option" where
  "spin_run std i [] s = Some s"
| "spin_run std i (ev # evs) s =
     (case spin_next std ev (sp_pcs s ! i) (sp_lock s) of
        None \<Rightarrow> None
      | Some (pc, lock) \<Rightarrow> spin_run std i evs (s\<lparr>sp_lock := lock, sp_pcs := (sp_pcs s)[i := pc]\<rparr>))"

text \<open>
  No lost wake-up: a thread inside \<open>lock\<close> that runs while nobody holds the lock has it after
  its next atomic access when it is at the \<open>fetch_or\<close>, and after two when it is in the inner loop,
  however long it has waited.
\<close>

theorem spin_lock_acquires:
  assumes "reachable spin_init (spin_step std) s" and "\<nexists>k. spin_holds s k"
    and "i < length (sp_pcs s)" and "sp_pcs s ! i = Spin_Swap b \<or> sp_pcs s ! i = Spin_Wait b"
  shows "\<exists>s'. spin_run std i (replicate (if sp_pcs s ! i = Spin_Swap b then 1 else 2) Spin_Continue) s = Some s' \<and>
    spin_holds s' i \<and> sp_lock s'"
  using assms(2-4) spin_inv_lock[OF spin.reachable_inv[OF assms(1)]]
  by (auto simp: spin_holds_def fetch_or_def spin_is_locked_def numeral_2_eq_2)

theorem spin_lock_acquires_witness:
  "\<exists>s'. spin_run True 1 [Spin_Continue] \<lparr>sp_lock = False, sp_pcs = [Spin_Idle, Spin_Swap backoff_new]\<rparr> = Some s' \<and>
    spin_holds s' 1"
proof -
  let ?s0 = "\<lparr>sp_lock = False, sp_pcs = [Spin_Idle, Spin_Idle]\<rparr>"
  let ?s1 = "\<lparr>sp_lock = False, sp_pcs = [Spin_Idle, Spin_Swap backoff_new]\<rparr>"
  have "spin_step True ?s0 ?s1"
    using spin_stepI[of 1 ?s0 True Spin_Lock "Spin_Swap backoff_new" False] by simp
  moreover have "reachable spin_init (spin_step True) ?s0"
    by (rule reach_init) (simp add: spin_init_def spin_new_def)
  ultimately have "reachable spin_init (spin_step True) ?s1" by (blast intro: reach_step)
  moreover have "\<nexists>k. spin_holds ?s1 k" by (auto simp: spin_holds_def less_Suc_eq nth_Cons split: nat.splits)
  ultimately show ?thesis using spin_lock_acquires[of True ?s1 1 backoff_new] by (simp add: fetch_or_def)
qed

end
