(* ===== verification/Spin_Order.thy ===== *)
theory Spin_Order
  imports Lock_Order Spin Rw_Spin
begin

text \<open>
  The orderings of \<open>src/src/spin.rs\<close>: both spin locks on the memory of \<open>Mem_Order\<close>. The threads take the
  steps of \<open>Spin\<close> and \<open>Rw_Spin\<close>; what is added is the ordering of each access. While a thread holds
  \<open>RawSpin\<close>, or \<open>RawRwSpin\<close> exclusively, it may read and write the data; a shared holder may read it.
\<close>

section \<open>RawSpin\<close>

text \<open>The access that \<open>spin_next\<close> makes and its ordering.\<close>

fun spin_access :: "spin_event \<Rightarrow> spin_pc \<Rightarrow> bool \<Rightarrow> mem_access" where
  "spin_access Spin_Try_Lock pc lock = Mem_Rmw Acquire"
| "spin_access Spin_Lock pc lock = Mem_None"
| "spin_access Spin_Continue (Spin_Swap b) lock = Mem_Rmw Acquire"
| "spin_access Spin_Continue (Spin_Wait b) lock = Mem_Load Relaxed"
| "spin_access Spin_Continue _ lock = Mem_None"
| "spin_access Spin_Unlock pc lock = Mem_Store Release"

definition spin_program :: "bool \<Rightarrow> (spin_event, spin_pc, bool) mem_program" where
  "spin_program std = \<lparr>mp_next = spin_next std, mp_access = spin_access, mp_may = (\<lambda>pc wr loc. pc = Spin_Held)\<rparr>"

definition spin_lock_inv :: "bool \<Rightarrow> spin_pc list \<Rightarrow> bool" where
  "spin_lock_inv lock pcs \<longleftrightarrow> spin_inv \<lparr>sp_lock = lock, sp_pcs = pcs\<rparr>"

definition spin_starts :: "spin_pc list \<Rightarrow> bool" where
  "spin_starts pcs \<longleftrightarrow> set pcs \<subseteq> {Spin_Idle}"

lemma spin_lock_inv_write:
  assumes "spin_lock_inv lock pcs" and "i < length pcs" and "spin_next std ev (pcs ! i) lock = Some (pc, lock')"
  shows "spin_lock_inv lock' (pcs[i := pc])"
  using spin_inv_step[OF spin_stepI[of i "\<lparr>sp_lock = lock, sp_pcs = pcs\<rparr>" std ev pc lock']] assms
  by (simp add: spin_lock_inv_def)

lemma spin_lock_inv_held:
  "spin_lock_inv lock pcs \<Longrightarrow> i < length pcs \<Longrightarrow> j < length pcs \<Longrightarrow> pcs ! i = Spin_Held \<Longrightarrow> pcs ! j = Spin_Held \<Longrightarrow> i = j"
  "spin_lock_inv lock pcs \<Longrightarrow> i < length pcs \<Longrightarrow> pcs ! i = Spin_Held \<Longrightarrow> lock"
  using spin_inv_exclusive[of "\<lparr>sp_lock = lock, sp_pcs = pcs\<rparr>" i j] spin_inv_lock[of "\<lparr>sp_lock = lock, sp_pcs = pcs\<rparr>"]
  by (auto simp: spin_lock_inv_def spin_holds_def)

text \<open>What a load and what another access does; only the swap takes the lock, only the holder stores.\<close>

lemma spin_load_step:
  assumes "spin_next std ev pc v = Some (pc', v')" and "spin_access ev pc v = Mem_Load ord"
  shows "pc' \<noteq> Spin_Held \<and> pc \<noteq> Spin_Held"
  using assms by (cases "(ev, pc, v)" rule: spin_access.cases) (auto split: if_splits)

lemma spin_write_step:
  assumes "spin_next std ev pc lock = Some (pc', lock')"
  shows "pc' = Spin_Held \<Longrightarrow> spin_access ev pc lock = Mem_Rmw Acquire \<and> \<not> lock"
    and "pc = Spin_Held \<Longrightarrow> spin_access ev pc lock = Mem_Store Release \<and> pc' = Spin_Idle"
    and "spin_access ev pc lock = Mem_Store ord \<Longrightarrow> pc = Spin_Held"
    and "spin_access ev pc lock = Mem_None \<Longrightarrow> lock' = lock"
  using assms by (cases ev; cases pc; auto simp: spin_try_lock_def fetch_or_def split: if_splits)+

interpretation spin_order: ordered_lock "spin_program std" spin_lock_inv "\<lambda>_. True" Not "\<lambda>pc. pc = Spin_Held"
  "\<lambda>_. False" "\<lambda>_. False" spin_new spin_starts for std
proof
  fix pcs and lock v lock' v' :: bool and i j ev ord pc a
  show "spin_starts pcs \<Longrightarrow> spin_lock_inv spin_new pcs"
    using spin_inv_init[of "\<lparr>sp_lock = spin_new, sp_pcs = pcs\<rparr>"]
    by (simp add: spin_starts_def spin_init_def spin_lock_inv_def)
  show "spin_lock_inv lock pcs \<Longrightarrow> \<not> lock \<Longrightarrow> pc \<in> set pcs \<Longrightarrow> pc \<noteq> Spin_Held"
    using spin_lock_inv_held(2) by (metis in_set_conv_nth)
  show "spin_lock_inv lock pcs \<Longrightarrow> i < length pcs \<Longrightarrow> j < length pcs \<Longrightarrow> j \<noteq> i \<Longrightarrow> pcs ! j = Spin_Held \<Longrightarrow>
      pcs ! i \<noteq> Spin_Held \<and> \<not> False"
    using spin_lock_inv_held(1) by blast
  assume inv: "spin_lock_inv lock pcs" and i: "i < length pcs"
  show "spin_lock_inv lock (pcs[i := pc]) \<and> pc \<noteq> Spin_Held \<and> pcs ! i \<noteq> Spin_Held \<and> (False \<longrightarrow> False) \<and>
      (False \<longrightarrow> False \<or> acquires ord \<and> False \<and> \<not> v) \<and> (False \<longrightarrow> False)"
    if "mp_access (spin_program std) ev (pcs ! i) v = Mem_Load ord"
      and "mp_next (spin_program std) ev (pcs ! i) v = Some (pc, v')"
  proof -
    have pc: "pc \<noteq> Spin_Held \<and> pcs ! i \<noteq> Spin_Held" using that spin_load_step by (simp add: spin_program_def)
    then have "map spin_held (pcs[i := pc]) = map spin_held pcs" using i by (simp add: map_update_same spin_held_def)
    with inv pc show ?thesis by (simp add: spin_lock_inv_def spin_inv_def)
  qed
  show "spin_lock_inv lock' (pcs[i := pc]) \<and> (a = Mem_None \<longrightarrow> lock' = lock \<and>
        lock_move_ok (\<lambda>pc. pc = Spin_Held) (\<lambda>_. False) (\<lambda>_. False) (pcs ! i) pc) \<and>
      (a \<noteq> Mem_None \<longrightarrow> lock_write_ok (\<lambda>pc. pc = Spin_Held) (\<lambda>_. False) (\<lambda>_. False) a pcs i pc)"
    if "mp_access (spin_program std) ev (pcs ! i) lock = a" and "\<forall>ord. a \<noteq> Mem_Load ord"
      and "mp_next (spin_program std) ev (pcs ! i) lock = Some (pc, lock')"
  proof -
    have nx: "spin_next std ev (pcs ! i) lock = Some (pc, lock')" and a: "spin_access ev (pcs ! i) lock = a"
      using that by (simp_all add: spin_program_def)
    note step = spin_write_step[OF nx, unfolded a]
    have "lock_write_ok (\<lambda>pc. pc = Spin_Held) (\<lambda>_. False) (\<lambda>_. False) a pcs i pc"
      using step(1-3) spin_lock_inv_held(2)[OF inv] order_simps unfolding lock_write_ok_def by blast
    moreover have "lock_move_ok (\<lambda>pc. pc = Spin_Held) (\<lambda>_. False) (\<lambda>_. False) (pcs ! i) pc" if "a = Mem_None"
      using step(1,2) that by (auto simp: lock_move_ok_def)
    ultimately show ?thesis using step(4) spin_lock_inv_write[OF inv i nx] by simp
  qed
qed (auto simp: spin_program_def)

section \<open>RawRwSpin\<close>

text \<open>
  The access that \<open>rw_next\<close> makes and its ordering; a compare-exchange that fails, because of the value
  or spuriously, is a load.
\<close>

fun rw_shared_access :: "rw_pc \<Rightarrow> mem_access" where
  "rw_shared_access (Room_Sub _ _) = Mem_Rmw Relaxed"
| "rw_shared_access (Room_Load _ _) = Mem_Load Relaxed"
| "rw_shared_access (Room_Add _ _) = Mem_Rmw Acquire"
| "rw_shared_access (Queue_Load _ _) = Mem_Load Acquire"
| "rw_shared_access (Queue_Undo _) = Mem_Rmw Relaxed"
| "rw_shared_access Try_Undo = Mem_Rmw Relaxed"
| "rw_shared_access (Check_Undo _) = Mem_Rmw Relaxed"
| "rw_shared_access _ = Mem_None"

fun rw_excl_access :: "bool \<Rightarrow> rw_pc \<Rightarrow> usize \<Rightarrow> mem_access" where
  "rw_excl_access spurious (Excl_Cas _ in_queue _) lock =
     (if lock = rw_excl_expected in_queue \<and> \<not> spurious then Mem_Rmw Acquire else Mem_Load Relaxed)"
| "rw_excl_access spurious (Excl_Enqueue _ count _) lock =
     (if lock = count \<and> \<not> spurious then Mem_Rmw Relaxed else Mem_Load Relaxed)"
| "rw_excl_access spurious (Excl_Leave _) lock = Mem_Rmw Relaxed"
| "rw_excl_access spurious _ lock = Mem_None"

fun rw_access :: "rw_event \<Rightarrow> rw_pc \<Rightarrow> usize \<Rightarrow> mem_access" where
  "rw_access Call_Try_Shared pc lock = Mem_Rmw Acquire"
| "rw_access (Call_Lock_Shared _ _) pc lock = Mem_Rmw Acquire"
| "rw_access Call_Try_Excl pc lock = (if lock = 0 then Mem_Rmw Acquire else Mem_Load Relaxed)"
| "rw_access (Call_Lock_Excl _) pc lock = Mem_None"
| "rw_access (Shared_Continue _) pc lock = rw_shared_access pc"
| "rw_access (Excl_Continue _ spurious) pc lock = rw_excl_access spurious pc lock"
| "rw_access Unlock_Shared pc lock = Mem_Rmw Release"
| "rw_access Unlock_Excl pc lock = Mem_Rmw Release"

definition rw_may :: "rw_pc \<Rightarrow> bool \<Rightarrow> nat \<Rightarrow> bool" where
  "rw_may pc wr loc \<longleftrightarrow> pc = Rw_Excl \<or> pc = Rw_Shared \<and> \<not> wr"

definition rw_program :: "bool \<Rightarrow> bool \<Rightarrow> (rw_event, rw_pc, usize) mem_program" where
  "rw_program dbg std = \<lparr>mp_next = rw_next dbg std, mp_access = rw_access, mp_may = rw_may\<rparr>"

definition rw_lock_inv :: "usize \<Rightarrow> rw_pc list \<Rightarrow> bool" where
  "rw_lock_inv w pcs \<longleftrightarrow> rw_inv \<lparr>rw_word = w, rw_pcs = pcs\<rparr>"

definition rw_starts :: "rw_pc list \<Rightarrow> bool" where
  "rw_starts pcs \<longleftrightarrow> set pcs \<subseteq> {Rw_Idle} \<and> length pcs \<le> 2 ^ 59"

definition rw_value_ok :: "usize \<Rightarrow> bool" where
  "rw_value_ok w \<longleftrightarrow> locks_count_check w = None"

text \<open>A load, also of an old value, keeps the shares of the thread.\<close>

definition rw_load_step :: "mem_order \<Rightarrow> usize \<Rightarrow> rw_pc \<Rightarrow> rw_pc \<Rightarrow> bool" where
  "rw_load_step ord v pc pc' \<longleftrightarrow>
     rw_shared_weight pc' = rw_shared_weight pc \<and> rw_queued pc' = rw_queued pc \<and> rw_excl pc = 0 \<and> rw_excl pc' = 0 \<and>
     rw_pc_ok pc' \<and> pc' \<noteq> Rw_Excl \<and> pc \<noteq> Rw_Excl \<and> pc \<noteq> Rw_Shared \<and>
     (pc' = Rw_Shared \<longrightarrow> acquires ord \<and> rw_shared_weight pc = 1 \<and> v < exclusive_locked)"

lemma rw_excl_failed_load:
  "rw_load_step ord v (Excl_Cas blocking in_queue b) (rw_excl_failed std blocking cond in_queue v b)"
  by (auto simp: rw_load_step_def rw_excl_failed_def rw_excl_retry_weights rw_return_false_def)

lemma rw_room_load:
  "locks_count_check v = None \<Longrightarrow> rw_load_step ord v (Room_Load blocking b) (rw_room dbg std blocking cond v b)"
  by (simp add: rw_load_step_def rw_room_def rw_return_false_def)

lemma rw_queue_load:
  "locks_count_check v = None \<Longrightarrow> acquires ord \<Longrightarrow>
    rw_load_step ord v (Queue_Load blocking b) (rw_queue dbg std blocking cond v b)"
  by (simp add: rw_load_step_def rw_queue_def rw_checked_def)

lemma rw_shared_load:
  assumes "rw_shared_step dbg std cond pc v = Some (pc', v')" and "rw_shared_access pc = Mem_Load ord"
    and "locks_count_check v = None"
  shows "rw_load_step ord v pc pc'"
  using assms by (cases pc) (auto simp: rw_room_load rw_queue_load)

lemma rw_excl_load:
  assumes "rw_excl_step std cond spurious pc v = Some (pc', v')" and "rw_excl_access spurious pc v = Mem_Load ord"
  shows "rw_load_step ord v pc pc'"
proof (cases pc)
  case (Excl_Cas blocking in_queue b)
  with assms have "pc' = rw_excl_failed std blocking cond in_queue v b"
    by (auto simp: compare_exchange_weak_def split: if_splits)
  with Excl_Cas show ?thesis by (simp add: rw_excl_failed_load)
next
  case (Excl_Enqueue blocking count b)
  with assms have "pc' = rw_excl_retry std blocking False v b"
    by (auto simp: compare_exchange_weak_def split: if_splits)
  with Excl_Enqueue show ?thesis by (simp add: rw_load_step_def rw_excl_retry_weights)
qed (use assms in auto)

lemma rw_load_keeps:
  assumes "rw_next dbg std ev pc v = Some (pc', v')" and "rw_access ev pc v = Mem_Load ord"
    and "locks_count_check v = None"
  shows "rw_load_step ord v pc pc'"
proof (cases ev)
  case (Shared_Continue cond)
  with assms show ?thesis by (simp add: rw_shared_load)
next
  case (Excl_Continue cond spurious)
  with assms show ?thesis by (simp add: rw_excl_load[of std cond spurious])
next
  case Call_Try_Excl
  with assms show ?thesis
    by (auto simp: rw_try_lock_exclusive_def compare_exchange_def rw_load_step_def split: if_splits)
qed (use assms in simp_all)

text \<open>
  An access that writes is a read-modify-write; it acquires when the thread gets the lock and releases when
  it gives the lock back.
\<close>

lemma rw_room_goes: "rw_room dbg std blocking cond c b \<notin> {Rw_Shared, Rw_Excl}"
  by (simp add: rw_room_def rw_return_false_def split: option.split)

lemma rw_checked_goes: "rw_checked dbg c pc = Rw_Excl \<Longrightarrow> pc = Rw_Excl"
  by (simp add: rw_checked_def split: if_splits option.splits)

lemma rw_queue_goes: "rw_queue dbg std blocking cond c b \<noteq> Rw_Excl"
  by (auto simp: rw_queue_def dest!: rw_checked_goes split: if_splits)

lemma rw_shared_start_goes: "fst (rw_lock_shared_start dbg std blocking cond c) \<noteq> Rw_Excl"
  "fst (rw_try_lock_shared dbg c) \<noteq> Rw_Excl"
  by (auto simp: rw_lock_shared_start_def rw_try_lock_shared_def fetch_add_def rw_queue_goes
    dest!: rw_checked_goes split: if_splits)

lemma rw_shared_write:
  assumes "rw_shared_step dbg std cond pc w = Some (pc', w')" and "\<forall>ord. rw_shared_access pc \<noteq> Mem_Load ord"
  shows "(\<exists>ord. rw_shared_access pc = Mem_Rmw ord) \<and> pc' \<noteq> Rw_Excl \<and>
    (pc' = Rw_Shared \<longrightarrow> rw_shared_access pc = Mem_Rmw Acquire) \<and> pc \<notin> {Rw_Shared, Rw_Excl}"
  using assms rw_room_goes rw_queue_goes
  by (cases pc) (auto simp: rw_return_false_def fetch_add_def fetch_sub_def split: if_splits)

lemma rw_excl_failed_keeps:
  "rw_excl_failed std blocking cond in_queue c b \<notin> {Rw_Shared, Rw_Excl}"
  by (auto simp: rw_excl_failed_def rw_excl_retry_weights rw_return_false_def)

lemma rw_excl_write:
  assumes "rw_excl_step std cond spurious pc w = Some (pc', w')"
    and "\<forall>ord. rw_excl_access spurious pc w \<noteq> Mem_Load ord"
  shows "(\<exists>ord. rw_excl_access spurious pc w = Mem_Rmw ord) \<and> pc' \<noteq> Rw_Shared \<and>
    (pc' = Rw_Excl \<longrightarrow> rw_excl_access spurious pc w = Mem_Rmw Acquire) \<and> pc \<notin> {Rw_Shared, Rw_Excl}"
  using assms rw_excl_retry_weights(5,6)
  by (cases pc) (auto simp: rw_return_false_def compare_exchange_weak_def split: if_splits)

definition rw_write_step :: "mem_access \<Rightarrow> rw_pc \<Rightarrow> rw_pc \<Rightarrow> usize \<Rightarrow> usize \<Rightarrow> bool" where
  "rw_write_step a pc pc' w w' \<longleftrightarrow>
     (a = Mem_None \<and> w' = w \<and> rw_shared_weight pc' = 0 \<and> pc' \<noteq> Rw_Excl \<and> pc = Rw_Idle \<or> (\<exists>ord. a = Mem_Rmw ord)) \<and>
     (pc' \<in> {Rw_Shared, Rw_Excl} \<longrightarrow> a = Mem_Rmw Acquire) \<and>
     (pc \<in> {Rw_Shared, Rw_Excl} \<longrightarrow> a = Mem_Rmw Release \<and> pc' = Rw_Idle)"

lemma rw_writes:
  assumes "rw_next dbg std ev pc w = Some (pc', w')" and "\<forall>ord. rw_access ev pc w \<noteq> Mem_Load ord"
  shows "rw_write_step (rw_access ev pc w) pc pc' w w'"
proof (cases ev)
  case (Shared_Continue cond)
  with assms rw_shared_write[of dbg std cond pc w pc' w'] show ?thesis by (auto simp: rw_write_step_def)
next
  case (Excl_Continue cond spurious)
  with assms rw_excl_write[of std cond spurious pc w pc' w'] show ?thesis by (auto simp: rw_write_step_def)
next
  case Call_Try_Shared
  with assms rw_shared_start_goes(2)[of dbg w] show ?thesis by (auto simp: rw_write_step_def split: if_splits)
next
  case (Call_Lock_Shared blocking cond)
  with assms rw_shared_start_goes(1)[of dbg std blocking cond w] show ?thesis
    by (auto simp: rw_write_step_def split: if_splits)
qed (use assms in \<open>auto simp: rw_write_step_def rw_try_lock_exclusive_def compare_exchange_def split: if_splits\<close>)

lemma rw_lock_inv_write:
  assumes inv: "rw_lock_inv w pcs" and i: "i < length pcs" and nx: "rw_next dbg std ev (pcs ! i) w = Some (pc, w')"
  shows "rw_lock_inv w' (pcs[i := pc])"
    and "pc = Rw_Excl \<Longrightarrow> j < length pcs \<Longrightarrow> j \<noteq> i \<Longrightarrow> pcs ! j \<noteq> Rw_Excl \<and> rw_shared_weight (pcs ! j) = 0"
    and "pc = Rw_Shared \<Longrightarrow> j < length pcs \<Longrightarrow> j \<noteq> i \<Longrightarrow> pcs ! j \<noteq> Rw_Excl"
proof -
  let ?s = "\<lparr>rw_word = w, rw_pcs = pcs\<rparr>" and ?t = "\<lparr>rw_word = w', rw_pcs = pcs[i := pc]\<rparr>"
  have s: "rw_inv ?s" and nx': "rw_next dbg std ev (rw_pcs ?s ! i) (rw_word ?s) = Some (pc, w')"
    using inv nx by (simp_all add: rw_lock_inv_def)
  have t: "rw_inv ?t" using rw_inv_step[OF rw_stepI[of i ?s, OF _ nx'] s] i by simp
  then show "rw_lock_inv w' (pcs[i := pc])" by (simp add: rw_lock_inv_def)
  assume j: "j < length pcs" "j \<noteq> i"
  have ti: "pcs[i := pc] ! i = pc" "pcs[i := pc] ! j = pcs ! j" using i j by simp_all
  show "pcs ! j \<noteq> Rw_Excl" if "pc = Rw_Shared"
  proof -
    have "Rw_Shared \<in> set (pcs[i := pc])" using that set_update_memI[OF i, of pc] by simp
    with t have "Rw_Excl \<notin> set (pcs[i := pc])" by (auto simp: rw_inv_def)
    then show ?thesis using ti(2) j nth_mem[of j "pcs[i := pc]"] by auto
  qed
  assume pc: "pc = Rw_Excl"
  have "rw_holds_excl ?t i" using i pc by (simp add: rw_holds_excl_def)
  from rw_inv_exclusive[OF t this, of j] j have "pcs ! j \<noteq> Rw_Excl" by (auto simp: rw_holds_def rw_holds_excl_def)
  moreover have "rw_shared_weight (pcs ! j) = 0"
  proof -
    obtain S Q X where "rw_total rw_shared_weight ?t = S + rw_shared_weight pc" "rw_step_ok S Q X pc w'"
      by (rule rw_step_frame[OF s _ nx', of ?t]) (use i in simp_all)
    with pc have "rw_total rw_shared_weight ?t = 0" by (simp add: rw_step_ok_def)
    then have "sum_list (map rw_shared_weight (pcs[i := pc])) = 0" by (simp only: rw_total_def rw_system.simps)
    with sum_list_map_ge[of j "pcs[i := pc]" rw_shared_weight] j(1)
    have "rw_shared_weight (pcs[i := pc] ! j) = 0" by (metis le_zero_eq length_list_update)
    with ti(2) show ?thesis by simp
  qed
  ultimately show "pcs ! j \<noteq> Rw_Excl \<and> rw_shared_weight (pcs ! j) = 0" by blast
qed

lemma rw_lock_inv_load:
  assumes inv: "rw_lock_inv w pcs" and i: "i < length pcs" and step: "rw_load_step ord v (pcs ! i) pc"
    and free: "pc = Rw_Shared \<Longrightarrow> Rw_Excl \<notin> set pcs"
  shows "rw_lock_inv w (pcs[i := pc])"
proof -
  have "map f (pcs[i := pc]) = map f pcs" if "f pc = f (pcs ! i)" for f :: "rw_pc \<Rightarrow> nat"
    using i that by (simp add: map_update_same)
  then have "map rw_shared_weight (pcs[i := pc]) = map rw_shared_weight pcs"
    "map rw_queued (pcs[i := pc]) = map rw_queued pcs" "map rw_excl (pcs[i := pc]) = map rw_excl pcs"
    using step by (simp_all add: rw_load_step_def)
  moreover have "\<forall>q \<in> set (pcs[i := pc]). rw_pc_ok q"
    using inv step by (auto simp: rw_lock_inv_def rw_inv_def rw_load_step_def dest!: set_update_subset_insert[THEN subsetD])
  moreover have "Rw_Shared \<notin> set (pcs[i := pc])" if "Rw_Excl \<in> set (pcs[i := pc])"
  proof -
    have "Rw_Excl \<in> set pcs"
      using that step by (auto simp: rw_load_step_def dest!: set_update_subset_insert[THEN subsetD])
    with inv free have "Rw_Shared \<notin> set pcs \<and> pc \<noteq> Rw_Shared" by (auto simp: rw_lock_inv_def rw_inv_def)
    then show ?thesis by (auto dest!: set_update_subset_insert[THEN subsetD])
  qed
  ultimately show ?thesis using inv by (simp add: rw_lock_inv_def rw_inv_def rw_total_def)
qed

lemma rw_lock_inv_exclusive:
  "rw_lock_inv w pcs \<Longrightarrow> i < length pcs \<Longrightarrow> j < length pcs \<Longrightarrow> pcs ! j = Rw_Excl \<Longrightarrow>
    pcs ! i = Rw_Excl \<or> pcs ! i = Rw_Shared \<Longrightarrow> i = j"
  using rw_inv_exclusive[of "\<lparr>rw_word = w, rw_pcs = pcs\<rparr>" j i]
  by (auto simp: rw_lock_inv_def rw_holds_excl_def rw_holds_def rw_holds_shared_def)

lemma rw_lock_inv_value:
  assumes "rw_lock_inv w pcs"
  shows "rw_value_ok w" and "w < exclusive_locked \<Longrightarrow> Rw_Excl \<notin> set pcs"
proof -
  let ?s = "\<lparr>rw_word = w, rw_pcs = pcs\<rparr>"
  have w: "rw_word_is w (rw_total rw_shared_weight ?s) (rw_total rw_queued ?s) (rw_total rw_excl ?s)"
    using assms by (simp add: rw_lock_inv_def rw_inv_def)
  show "rw_value_ok w" using rw_word_check[OF w] by (simp add: rw_value_ok_def)
  show "w < exclusive_locked \<Longrightarrow> Rw_Excl \<notin> set pcs" using rw_word_tests(3)[OF w] rw_excl_total[of ?s] by simp
qed

lemma rw_lock_write_ok:
  assumes inv: "rw_lock_inv w pcs" and i: "i < length pcs" and nx: "rw_next dbg std ev (pcs ! i) w = Some (pc, w')"
    and a: "rw_access ev (pcs ! i) w = a" "\<forall>ord. a \<noteq> Mem_Load ord"
  shows "lock_write_ok (\<lambda>pc. pc = Rw_Excl) (\<lambda>pc. pc = Rw_Shared) (\<lambda>pc. rw_shared_weight pc = 1) a pcs i pc"
proof -
  have step: "rw_write_step a (pcs ! i) pc w w'" using rw_writes[OF nx] a by blast
  note others = rw_lock_inv_write(2,3)[OF inv i nx]
  have excl: "(\<exists>ord. a = Mem_Rmw ord \<and> acquires ord) \<and>
      (\<forall>j < length pcs. j \<noteq> i \<longrightarrow> pcs ! j \<noteq> Rw_Excl \<and> pcs ! j \<noteq> Rw_Shared \<and> rw_shared_weight (pcs ! j) \<noteq> 1)"
    if "pc = Rw_Excl"
    using others(1)[OF that] step that by (force simp: rw_write_step_def)
  have shared: "(\<exists>ord. a = Mem_Rmw ord \<and> acquires ord) \<and> (\<forall>j < length pcs. pcs ! j \<noteq> Rw_Excl)" if "pc = Rw_Shared"
    using others(2)[OF that] step that by (auto simp: rw_write_step_def)
  have "a = Mem_None \<longrightarrow> rw_shared_weight pc = 0" "(\<exists>ord. a = Mem_Rmw ord) \<or> a = Mem_None"
    "pcs ! i = Rw_Excl \<or> pcs ! i = Rw_Shared \<longrightarrow> pc = Rw_Idle \<and> a = Mem_Rmw Release"
    using step by (auto simp: rw_write_step_def)
  then have "rw_shared_weight pc = 1 \<longrightarrow> (\<exists>ord. a = Mem_Rmw ord)" "\<forall>ord. a \<noteq> Mem_Store ord"
    "pcs ! i = Rw_Excl \<or> pcs ! i = Rw_Shared \<longrightarrow> pc \<noteq> Rw_Excl \<and> pc \<noteq> Rw_Shared \<and>
      (\<exists>ord. releases ord \<and> (a = Mem_Rmw ord \<or> pcs ! i = Rw_Excl \<and> a = Mem_Store ord))"
    using order_simps(7) by auto
  with excl shared show ?thesis unfolding lock_write_ok_def by blast
qed

interpretation rw_order: ordered_lock "rw_program dbg std" rw_lock_inv rw_value_ok "\<lambda>w. w < exclusive_locked"
  "\<lambda>pc. pc = Rw_Excl" "\<lambda>pc. pc = Rw_Shared" "\<lambda>pc. rw_shared_weight pc = 1" rw_new rw_starts for dbg std
proof
  fix pcs and w v w' v' :: usize and i j ev ord pc a
  show "rw_starts pcs \<Longrightarrow> rw_lock_inv rw_new pcs"
    using rw_inv_init[of "\<lparr>rw_word = rw_new, rw_pcs = pcs\<rparr>"]
    by (simp add: rw_starts_def rw_init_def rw_lock_inv_def)
  show "rw_lock_inv w pcs \<Longrightarrow> rw_value_ok w" by (rule rw_lock_inv_value(1))
  show "rw_lock_inv w pcs \<Longrightarrow> w < exclusive_locked \<Longrightarrow> pc \<in> set pcs \<Longrightarrow> pc \<noteq> Rw_Excl"
    using rw_lock_inv_value(2) by blast
  show "rw_lock_inv w pcs \<Longrightarrow> i < length pcs \<Longrightarrow> j < length pcs \<Longrightarrow> j \<noteq> i \<Longrightarrow> pcs ! j = Rw_Excl \<Longrightarrow>
      pcs ! i \<noteq> Rw_Excl \<and> pcs ! i \<noteq> Rw_Shared"
    using rw_lock_inv_exclusive by blast
  assume inv: "rw_lock_inv w pcs" and i: "i < length pcs"
  show "rw_lock_inv w (pcs[i := pc]) \<and> pc \<noteq> Rw_Excl \<and> pcs ! i \<noteq> Rw_Excl \<and> (pcs ! i = Rw_Shared \<longrightarrow> pc = Rw_Shared) \<and>
      (pc = Rw_Shared \<longrightarrow> pcs ! i = Rw_Shared \<or> acquires ord \<and> rw_shared_weight (pcs ! i) = 1 \<and> v < exclusive_locked) \<and>
      (rw_shared_weight pc = 1 \<longrightarrow> rw_shared_weight (pcs ! i) = 1)"
    if "rw_value_ok v" and "mp_access (rw_program dbg std) ev (pcs ! i) v = Mem_Load ord"
      and "mp_next (rw_program dbg std) ev (pcs ! i) v = Some (pc, v')"
      and fresh: "rw_shared_weight (pcs ! i) = 1 \<and> v < exclusive_locked \<Longrightarrow> \<forall>q \<in> set pcs. q \<noteq> Rw_Excl"
  proof -
    have step: "rw_load_step ord v (pcs ! i) pc"
      using that(1-3) by (intro rw_load_keeps) (simp_all add: rw_program_def rw_value_ok_def)
    then have "pc = Rw_Shared \<Longrightarrow> rw_shared_weight (pcs ! i) = 1 \<and> v < exclusive_locked"
      by (simp only: rw_load_step_def)
    with fresh have "pc = Rw_Shared \<Longrightarrow> Rw_Excl \<notin> set pcs" by blast
    note keeps = rw_lock_inv_load[OF inv i step this]
    show ?thesis using step keeps unfolding rw_load_step_def by metis
  qed
  show "rw_lock_inv w' (pcs[i := pc]) \<and> (a = Mem_None \<longrightarrow> w' = w \<and>
        lock_move_ok (\<lambda>pc. pc = Rw_Excl) (\<lambda>pc. pc = Rw_Shared) (\<lambda>pc. rw_shared_weight pc = 1) (pcs ! i) pc) \<and>
      (a \<noteq> Mem_None \<longrightarrow>
        lock_write_ok (\<lambda>pc. pc = Rw_Excl) (\<lambda>pc. pc = Rw_Shared) (\<lambda>pc. rw_shared_weight pc = 1) a pcs i pc)"
    if "mp_access (rw_program dbg std) ev (pcs ! i) w = a" and "\<forall>ord. a \<noteq> Mem_Load ord"
      and "mp_next (rw_program dbg std) ev (pcs ! i) w = Some (pc, w')"
  proof -
    have nx: "rw_next dbg std ev (pcs ! i) w = Some (pc, w')" and a: "rw_access ev (pcs ! i) w = a"
      using that by (simp_all add: rw_program_def)
    from rw_writes[OF nx] a that(2) have "a = Mem_None \<longrightarrow> w' = w \<and>
        lock_move_ok (\<lambda>pc. pc = Rw_Excl) (\<lambda>pc. pc = Rw_Shared) (\<lambda>pc. rw_shared_weight pc = 1) (pcs ! i) pc"
      by (auto simp: rw_write_step_def lock_move_ok_def)
    with rw_lock_inv_write(1)[OF inv i nx] rw_lock_write_ok[OF inv i nx a that(2)] show ?thesis by blast
  qed
qed (auto simp: rw_program_def rw_may_def)

text \<open>\<open>RawRwSpin\<close> in the form of \<open>Lock_Api\<close>, as \<open>rw_raw\<close>, with the orderings of its accesses.\<close>

definition rw_weak :: "bool \<Rightarrow> bool \<Rightarrow> (rw_pc, usize) mem_system raw_lock" where
  "rw_weak dbg std = mem_raw (rw_program dbg std) rw_new rw_starts (\<lambda>pc. pc = Rw_Excl) (\<lambda>pc. pc = Rw_Shared)
     (\<lambda>pc. pc = Rw_Idle)
     (\<lambda>m. case m of Lk_Read \<Rightarrow> Call_Lock_Shared True True | Lk_Write \<Rightarrow> Call_Lock_Excl True)
     {Shared_Continue True, Excl_Continue True True, Excl_Continue True False}
     (\<lambda>m. case m of Lk_Read \<Rightarrow> Unlock_Shared | Lk_Write \<Rightarrow> Unlock_Excl)"

section \<open>Properties\<close>

text \<open>Thread 0 locks, writes and unlocks, thread 1 locks.\<close>

definition spin_handover :: "spin_event mem_act list" where
  "spin_handover = [Act_Step 0 Spin_Try_Lock 0, Act_Touch 0 True 7, Act_Step 0 Spin_Unlock 0,
     Act_Step 1 Spin_Lock 0, Act_Step 1 Spin_Continue 0]"

definition rw_handover :: "rw_event mem_act list" where
  "rw_handover = [Act_Step 0 Call_Try_Excl 0, Act_Touch 0 True 7, Act_Step 1 (Call_Lock_Shared True True) 0,
     Act_Step 0 Unlock_Excl 0, Act_Step 1 (Shared_Continue True) 3]"

text \<open>
  Claim C31. The orderings of \<open>RawSpin\<close> suffice: on a memory in which loads may read old values and only
  acquiring and releasing accesses order anything, at most one thread holds the lock and the accesses made
  by the holders never race, however the threads are scheduled.
\<close>

theorem spin_race_free:
  assumes "reachable (mem_starts spin_new spin_starts) (mem_step (spin_program std)) s"
  shows "mem_race_free (spin_program std) s \<and>
    (i < length (ms_pcs s) \<and> j < length (ms_pcs s) \<and> ms_pcs s ! i = Spin_Held \<and> ms_pcs s ! j = Spin_Held \<longrightarrow> i = j)"
proof -
  note inv = spin_order.reachable_lock_inv[OF assms]
  from spin_order.reachable_race_free[OF assms] spin_lock_inv_held(1)[OF inv] show ?thesis by blast
qed

theorem spin_race_free_witness:
  "\<exists>s. mem_run (spin_program True) spin_handover (mem_init spin_new [Spin_Idle, Spin_Idle]) = Some s \<and>
     ms_pcs s ! 1 = Spin_Held \<and> 0 \<in> ms_seen s ! 1"
proof -
  obtain s where run: "mem_run (spin_program True) spin_handover (mem_init spin_new [Spin_Idle, Spin_Idle]) = Some s"
    and s: "ms_pcs s = [Spin_Idle, Spin_Held]" "ms_log s = [\<lparr>da_thread = 0, da_write = True, da_loc = 7\<rparr>]"
    by (simp add: spin_handover_def spin_program_def mem_init_def mem_last_def mem_goes_def mem_adds_def mem_logs_def
        spin_try_lock_def spin_unlock_def fetch_or_def spin_new_def Let_def)
  have "reachable (mem_starts spin_new spin_starts) (mem_step (spin_program True)) s"
    by (rule mem_run_reachable[OF run reach_init]) (simp add: mem_starts_def mem_init_def spin_starts_def)
  from spin_race_free[OF this] have "mem_race_free (spin_program True) s" by blast
  from mem_race_freeD[OF this, of 1 True 7 0] s have "0 \<in> ms_seen s ! 1" by (simp add: spin_program_def)
  with run s show ?thesis by simp
qed

text \<open>
  Claim C13. The orderings of \<open>RawRwSpin\<close> suffice, relaxed undoing of shares and relaxed polling included:
  on a memory in which loads may read old values, no access made under the lock races with an earlier one,
  an exclusive holder is alone, and no call panics.
\<close>

theorem rw_spin_race_free:
  assumes "reachable (mem_starts rw_new rw_starts) (mem_step (rw_program dbg std)) s"
  shows "mem_race_free (rw_program dbg std) s \<and> Rw_Panicked e \<notin> set (ms_pcs s) \<and>
    (i < length (ms_pcs s) \<and> j < length (ms_pcs s) \<and> ms_pcs s ! j = Rw_Excl \<and>
      (ms_pcs s ! i = Rw_Excl \<or> ms_pcs s ! i = Rw_Shared) \<longrightarrow> i = j)"
proof -
  note linv = rw_order.reachable_lock_inv[OF assms]
  then have "Rw_Panicked e \<notin> set (ms_pcs s)" by (auto simp: rw_lock_inv_def rw_inv_def)
  with rw_order.reachable_race_free[OF assms] rw_lock_inv_exclusive[OF linv] show ?thesis by blast
qed

theorem rw_spin_race_free_witness:
  "\<exists>s. mem_run (rw_program False True) rw_handover (mem_init rw_new [Rw_Idle, Rw_Idle]) = Some s \<and>
     ms_pcs s ! 1 = Rw_Shared \<and> 0 \<in> ms_seen s ! 1"
proof -
  obtain s where run: "mem_run (rw_program False True) rw_handover (mem_init rw_new [Rw_Idle, Rw_Idle]) = Some s"
    and s: "ms_pcs s = [Rw_Idle, Rw_Shared]" "ms_log s = [\<lparr>da_thread = 0, da_write = True, da_loc = 7\<rparr>]"
    by (simp add: rw_handover_def rw_program_def mem_init_def mem_last_def mem_goes_def mem_adds_def mem_logs_def
        rw_try_lock_exclusive_def compare_exchange_def rw_lock_shared_start_def rw_unlock_exclusive_def rw_checked_def
        fetch_add_def fetch_sub_def rw_queue_def rw_new_def exclusive_locked_def exclusive_pending_def rw_may_def Let_def)
  have "reachable (mem_starts rw_new rw_starts) (mem_step (rw_program False True)) s"
    by (rule mem_run_reachable[OF run reach_init]) (simp add: mem_starts_def mem_init_def rw_starts_def)
  from rw_spin_race_free[OF this] have "mem_race_free (rw_program False True) s" by blast
  from mem_race_freeD[OF this, of 1 False 7 0] s have "0 \<in> ms_seen s ! 1" by (simp add: rw_program_def rw_may_def)
  with run s show ?thesis by simp
qed

end
