(* ===== verification/Broad_Order.thy ===== *)
theory Broad_Order
  imports Broad_Lock Spin_Order
begin

text \<open>
  The memory orderings of \<open>Broadcast::read\<close> and \<open>Broadcast::write\<close> of \<open>src/src/broad.rs\<close>: the system of
  \<open>Broad_Lock\<close> over a lock that runs on the memory of \<open>Mem_Order\<close>, with the messages of the flag byte of the
  triple buffer, which are a second source of synchronisation. The sender hands its element to the one receiver that
  consumes it, by the swaps of \<open>publish\<close> and \<open>consume\<close>; that receiver hands it to all the others, by the lock.
  And the sender may write an element again only when every receiver has finished with it, which it learns from the
  receiver that consumed the next one.

  The accesses of the receivers under a guard are in the log of the lock's memory. Those of the sender are counted by
  themselves; a receiver has learnt of them what the \<open>consume\<close> calls that it knows of had learnt when they
  swapped the byte. The loads of the byte in \<open>consumed()\<close> are relaxed and may read any message that is not older
  than the swap of a \<open>consume\<close> that the receiver knows of.
\<close>

section \<open>What is touched\<close>

text \<open>
  While it has a guard, a receiver reads the consumer index and the element there. A \<open>consume\<close> replaces the index; with it
  go the accesses of the sender that it has learnt of and the position of its message.
\<close>

datatype ch_touch = Ch_Look idx | Ch_Take "nat set" nat

fun ch_takes :: "ch_touch \<Rightarrow> bool" where
  "ch_takes (Ch_Take V n) = True"
| "ch_takes (Ch_Look x) = False"

record ch_message =
  ch_flags :: u8
  ch_sends :: "nat set"
  ch_reads :: "nat set"

text \<open>\<open>bo_sent\<close> are the elements that the sender has accessed, \<open>bo_knows\<close> the accesses of receivers that it knows of.\<close>

record ('p, 'w, 'a) bo_system =
  bo_ch :: "(('p, 'w) mem_system, 'a) bl_system"
  bo_log :: "ch_touch list"
  bo_sent :: "idx list"
  bo_knows :: "nat set"
  bo_order :: "ch_message list"

abbreviation bo_mem :: "('p, 'w, 'a) bo_system \<Rightarrow> ('p, 'w) mem_system" where
  "bo_mem s \<equiv> bl_lock (bo_ch s)"

abbreviation bo_pcs :: "('p, 'w, 'a) bo_system \<Rightarrow> bl_pc list" where
  "bo_pcs s \<equiv> bl_pcs (bo_ch s)"

abbreviation bo_byte :: "('p, 'w, 'a) bo_system \<Rightarrow> u8" where
  "bo_byte s \<equiv> tb_flags (bc_buffer (bl_shared (bo_ch s)))"

text \<open>What is learnt of the sender with the accesses \<open>V\<close> of receivers, and which messages are not too old then.\<close>

definition bo_learnt :: "ch_touch list \<Rightarrow> nat set \<Rightarrow> nat set" where
  "bo_learnt ks V = {x. \<exists>e \<in> V. \<exists>A n. e < length ks \<and> ks ! e = Ch_Take A n \<and> x \<in> A}"

definition bo_fresh :: "ch_touch list \<Rightarrow> nat set \<Rightarrow> nat \<Rightarrow> bool" where
  "bo_fresh ks V k \<longleftrightarrow> (\<forall>e \<in> V. \<forall>A n. e < length ks \<and> ks ! e = Ch_Take A n \<longrightarrow> n \<le> k)"

definition bo_init :: "('p, 'w) mem_system raw_lock \<Rightarrow> ('p, 'w, 'a) bo_system \<Rightarrow> bool" where
  "bo_init L s \<longleftrightarrow> bl_init L (bo_ch s) \<and> ms_log (bo_mem s) = [] \<and> bo_log s = [] \<and> bo_sent s = [] \<and> bo_knows s = {} \<and>
     bo_order s = [\<lparr>ch_flags = bo_byte s, ch_sends = {}, ch_reads = {}\<rparr>]"

definition bl_logs :: "nat \<Rightarrow> bool \<Rightarrow> (('p, 'w) mem_system, 'a) bl_system \<Rightarrow> (('p, 'w) mem_system, 'a) bl_system" where
  "bl_logs i wr c = c\<lparr>bl_lock := mem_logs i wr 0 (bl_lock c)\<rparr>"

text \<open>The channel as a load sees it that reads an old value of the byte.\<close>

definition bc_with_flags :: "u8 \<Rightarrow> 'a broadcast \<Rightarrow> 'a broadcast" where
  "bc_with_flags flags b = b\<lparr>bc_buffer := (bc_buffer b)\<lparr>tb_flags := flags\<rparr>\<rparr>"

inductive bo_step :: "('p, 'w) mem_system raw_lock \<Rightarrow> ('p, 'w, 'a) bo_system \<Rightarrow> ('p, 'w, 'a) bo_system \<Rightarrow> bool" for L where
  bo_writes: "bo_step L s (s\<lparr>bo_ch := (bo_ch s)\<lparr>bl_shared := (bl_shared (bo_ch s))\<lparr>bc_buffer :=
      tb_update (bl_producer (bo_ch s)) f (bc_buffer (bl_shared (bo_ch s)))\<rparr>\<rparr>,
    bo_sent := bo_sent s @ [bl_producer (bo_ch s)]\<rparr>)"
| bo_publishes: "tb_publish (bl_producer (bo_ch s)) (bc_buffer (bl_shared (bo_ch s))) = Inr ((p, consumed), tb) \<Longrightarrow>
    m = last (bo_order s) \<Longrightarrow> R = bo_knows s \<union> ch_reads m \<Longrightarrow>
    bo_step L s (s\<lparr>bo_ch := (bo_ch s)\<lparr>bl_shared := (bl_shared (bo_ch s))\<lparr>bc_buffer := tb\<rparr>, bl_producer := p\<rparr>, bo_knows := R,
      bo_order := bo_order s @ [\<lparr>ch_flags = tb_flags tb, ch_sends = ch_sends m \<union> {..<length (bo_sent s)}, ch_reads = ch_reads m \<union> R\<rparr>]\<rparr>)"
| bo_moves: "i < length (bo_pcs s) \<Longrightarrow> bo_pcs s ! i \<notin> {Bl_At Br_Idle, Bl_At Br_Check, Bl_At Br_Consume} \<Longrightarrow>
    c = (bo_ch s)\<lparr>bl_lock := l, bl_pcs := (bo_pcs s)[i := pc]\<rparr> \<Longrightarrow> bl_step L (bo_ch s) c \<Longrightarrow> bo_step L s (s\<lparr>bo_ch := c\<rparr>)"
| bo_looks: "i < length (bo_pcs s) \<Longrightarrow> bo_pcs s ! i = Bl_At pc \<Longrightarrow> br_visits pc \<Longrightarrow>
    bo_step L s (s\<lparr>bo_ch := bl_logs i False (bo_ch s), bo_log := bo_log s @ [Ch_Look (bc_consumer (bl_shared (bo_ch s)))]\<rparr>)"
| bo_loads: "i < length (bo_pcs s) \<Longrightarrow> bo_pcs s ! i = Bl_At pc \<Longrightarrow> pc = Br_Idle \<or> pc = Br_Check \<Longrightarrow>
    k < length (bo_order s) \<Longrightarrow> bo_fresh (bo_log s) (ms_seen (bo_mem s) ! i) k \<Longrightarrow>
    br_reader pc (bc_with_flags (ch_flags (bo_order s ! k)) (bl_shared (bo_ch s))) = Inr (pc', b) \<Longrightarrow>
    bo_step L s (s\<lparr>bo_ch := (bo_ch s)\<lparr>bl_pcs := (bo_pcs s)[i := Bl_At pc']\<rparr>\<rparr>)"
| bo_consumes: "i < length (bo_pcs s) \<Longrightarrow> bo_pcs s ! i = Bl_At Br_Consume \<Longrightarrow>
    br_reader Br_Consume (bl_shared (bo_ch s)) = Inr (pc', b) \<Longrightarrow> m = last (bo_order s) \<Longrightarrow> V = ms_seen (bo_mem s) ! i \<Longrightarrow>
    bo_step L s (s\<lparr>bo_ch := (bl_logs i True (bo_ch s))\<lparr>bl_shared := b, bl_pcs := (bo_pcs s)[i := Bl_At pc']\<rparr>,
      bo_log := bo_log s @ [Ch_Take (ch_sends m) (length (bo_order s))],
      bo_order := bo_order s @ [\<lparr>ch_flags = tb_flags (bc_buffer b), ch_sends = ch_sends m \<union> bo_learnt (bo_log s) V, ch_reads = ch_reads m \<union> V\<rparr>]\<rparr>)"

text \<open>
  No data race: the sender knows of every access of a receiver to its element; a receiver with the element knows of every
  access of the sender to it, and of every change of the index.
\<close>

definition bo_race_free :: "('p, 'w, 'a) bo_system \<Rightarrow> bool" where
  "bo_race_free s \<longleftrightarrow>
     (\<forall>e < length (bo_log s). bo_log s ! e = Ch_Look (bl_producer (bo_ch s)) \<longrightarrow> e \<in> bo_knows s) \<and>
     (\<forall>i < length (bo_pcs s). \<forall>pc. bo_pcs s ! i = Bl_At pc \<and> (br_visits pc \<or> pc = Br_Consume) \<longrightarrow>
        (\<forall>e < length (bo_log s). ch_takes (bo_log s ! e) \<or> pc = Br_Consume \<longrightarrow> e \<in> ms_seen (bo_mem s) ! i) \<and>
        (\<forall>x < length (bo_sent s). br_visits pc \<and> bo_sent s ! x = bc_consumer (bl_shared (bo_ch s)) \<longrightarrow>
           x \<in> bo_learnt (bo_log s) (ms_seen (bo_mem s) ! i)))"

section \<open>The invariant\<close>

text \<open>The last \<open>consume\<close>: what it had learnt, and the position of its message; the list is the log backwards.\<close>

fun ch_last :: "ch_touch list \<Rightarrow> nat set \<times> nat" where
  "ch_last [] = ({}, 0)"
| "ch_last (Ch_Take A n # ks) = (A, n)"
| "ch_last (Ch_Look x # ks) = ch_last ks"

definition ch_looked :: "ch_touch list \<Rightarrow> idx \<Rightarrow> nat set" where
  "ch_looked ks x = {e. e < length ks \<and> ks ! e = Ch_Look x}"

definition ch_accessed :: "idx list \<Rightarrow> idx \<Rightarrow> nat set" where
  "ch_accessed sent x = {e. e < length sent \<and> sent ! e = x}"

text \<open>
  The messages since the last \<open>consume\<close> are publications. The newest carries what has been done to the pending
  element, the sender knows what has been done to its own, and the last \<open>consume\<close> what the sender did to the element
  of the receivers.
\<close>

definition bo_byte_ok :: "ch_message list \<Rightarrow> nat \<Rightarrow> u8 \<Rightarrow> bool" where
  "bo_byte_ok order n flags \<longleftrightarrow> n < length order \<and> ch_flags (last order) = flags \<and>
     (\<forall>k < length order. n \<le> k \<longrightarrow> (\<exists>i. ch_flags (order ! k) = flag_byte i (n < k)))"

definition bo_handed :: "ch_touch list \<Rightarrow> idx list \<Rightarrow> nat set \<Rightarrow> ch_message \<Rightarrow> 'a broadcast \<Rightarrow> idx \<Rightarrow> bool" where
  "bo_handed ks sent knows m b p \<longleftrightarrow> ch_looked ks p \<subseteq> knows \<and> ch_accessed sent (bc_consumer b) \<subseteq> fst (ch_last (rev ks)) \<and>
     (\<forall>x full. tb_flags (bc_buffer b) = flag_byte x full \<longrightarrow> ch_looked ks x \<subseteq> ch_reads m \<and> ch_accessed sent x \<subseteq> ch_sends m)"

definition bo_inv :: "(('p, 'w) mem_system \<Rightarrow> bool) \<Rightarrow> ('p, 'w) mem_system raw_lock \<Rightarrow> ('p, 'w, 'a) bo_system \<Rightarrow> bool" where
  "bo_inv lock_inv L s \<longleftrightarrow> bl_inv lock_inv L (bo_ch s) \<and> br_inv (bl_abs (bo_ch s)) \<and>
     map ch_takes (bo_log s) = map da_write (ms_log (bo_mem s)) \<and>
     bo_byte_ok (bo_order s) (snd (ch_last (rev (bo_log s)))) (bo_byte s) \<and>
     bo_handed (bo_log s) (bo_sent s) (bo_knows s) (last (bo_order s)) (bl_shared (bo_ch s)) (bl_producer (bo_ch s))"

lemma ch_last_cases:
  "(\<exists>e < length ks. ks ! e = Ch_Take (fst (ch_last (rev ks))) (snd (ch_last (rev ks)))) \<or> ch_last (rev ks) = ({}, 0)"
proof (induction ks rule: rev_induct)
  case (snoc k ks)
  show ?case
  proof (cases k)
    case (Ch_Look x)
    from snoc show ?thesis
    proof
      assume "\<exists>e < length ks. ks ! e = Ch_Take (fst (ch_last (rev ks))) (snd (ch_last (rev ks)))"
      then obtain e where "e < length ks" "ks ! e = Ch_Take (fst (ch_last (rev ks))) (snd (ch_last (rev ks)))" by blast
      then have "e < length (ks @ [k]) \<and>
          (ks @ [k]) ! e = Ch_Take (fst (ch_last (rev (ks @ [k])))) (snd (ch_last (rev (ks @ [k]))))"
        by (simp add: nth_append Ch_Look)
      then show ?thesis by blast
    qed (simp add: Ch_Look)
  next
    case (Ch_Take A n)
    then have "length ks < length (ks @ [k]) \<and>
        (ks @ [k]) ! length ks = Ch_Take (fst (ch_last (rev (ks @ [k])))) (snd (ch_last (rev (ks @ [k]))))" by simp
    then show ?thesis by blast
  qed
qed simp

lemma ch_looked_snoc: "ch_looked (ks @ [k]) x = ch_looked ks x \<union> (if k = Ch_Look x then {length ks} else {})"
  by (auto simp: ch_looked_def nth_append less_Suc_eq)

lemma ch_accessed_snoc: "ch_accessed (sent @ [y]) x = ch_accessed sent x \<union> (if y = x then {length sent} else {})"
  by (auto simp: ch_accessed_def nth_append less_Suc_eq)

lemma ch_bounds: "ch_looked ks x \<subseteq> {..<length ks}" "ch_accessed sent x \<subseteq> {..<length sent}"
  by (auto simp: ch_looked_def ch_accessed_def)

lemma flag_byte_inject: "flag_byte x full = flag_byte y full' \<longleftrightarrow> x = y \<and> full = full'"
proof
  assume eq: "flag_byte x full = flag_byte y full'"
  have "idx_bits x = idx_bits y" using arg_cong[OF eq, of "\<lambda>w. w AND index_mask"] by simp
  moreover have "full = full'" using arg_cong[OF eq, of "\<lambda>w. w AND pending_bit"] by (metis flag_byte_parts(2))
  ultimately show "x = y \<and> full = full'" by (cases x; cases y) simp_all
qed simp

section \<open>Every step keeps the invariant\<close>

lemma br_steps_keep: "br_step\<^sup>*\<^sup>* a b \<Longrightarrow> br_inv a \<Longrightarrow> br_inv b"
  by (induction rule: rtranclp_induct) (auto intro: br_inv_step)

lemma bl_logs_simps [simp]:
  "bl_shared (bl_logs i wr c) = bl_shared c" "bl_pcs (bl_logs i wr c) = bl_pcs c" "bl_producer (bl_logs i wr c) = bl_producer c"
  "bl_abs (bl_logs i wr c) = bl_abs c" "bl_lock (bl_logs i wr c) = mem_logs i wr 0 (bl_lock c)"
  by (simp_all add: bl_logs_def bl_abs_def)

text \<open>A load that reads an old value takes a receiver to the lock, or leaves it there.\<close>

lemma br_inv_loads:
  assumes inv: "br_inv (bl_abs c)" and i: "i < length (bl_pcs c)" and at: "bl_pcs c ! i = Bl_At pc" "pc = Br_Idle \<or> pc = Br_Check"
    and read: "br_reader pc (bc_with_flags flags (bl_shared c)) = Inr (pc', b)"
    and full: "pc' = Br_Consume \<Longrightarrow> \<exists>x. tb_flags (bc_buffer (bl_shared c)) = flag_byte x True"
  shows "br_inv (bl_abs (c\<lparr>bl_pcs := (bl_pcs c)[i := Bl_At pc']\<rparr>))"
proof -
  let ?pcs = "map bl_place (bl_pcs c)"
  obtain x full where byte: "tb_flags (bc_buffer (bl_shared c)) = flag_byte x full" "distinct [x, bl_producer c, bc_consumer (bl_shared c)]"
    "Br_Consume \<in> set ?pcs \<longrightarrow> full" and lock: "br_lock_ok ?pcs"
    using inv by (auto simp: br_inv_def bl_abs_def)
  have "br_lock_ok (?pcs[i := pc'])"
    by (rule br_lock_ok_update[OF lock]) (use i at read in \<open>auto simp: br_lock_free_def br_write_locked_def
      br_read_locked_def split: if_splits\<close>)
  moreover have "full" if "Br_Consume \<in> set (?pcs[i := pc'])"
  proof (cases "pc' = Br_Consume")
    case True
    from full[OF this] byte(1) show ?thesis by (auto simp: flag_byte_inject)
  next
    case False
    with that set_update_subset_insert[of ?pcs i pc'] byte(3) show ?thesis by auto
  qed
  ultimately show ?thesis using byte(1,2) by (auto simp: br_inv_def bl_abs_def map_update)
qed

context ordered_lock begin

lemma bo_holder:
  assumes "bl_inv order_inv (raw idle calls runs unlocks) c" and "i < length (bl_pcs c)" and "bl_guard (bl_pcs c ! i) = Some m"
  shows "i < length (ms_pcs (bl_lock c)) \<and>
    (if m = Lk_Write then excl (ms_pcs (bl_lock c) ! i) else shared (ms_pcs (bl_lock c) ! i))"
proof -
  have "lk_guard (raw idle calls runs unlocks) m i (bl_lock c)" using assms by (simp add: bl_inv_def lk_held_def)
  then show ?thesis by (cases m) (auto simp: mem_raw_def)
qed

lemma bl_inv_logs:
  assumes inv: "bl_inv order_inv (raw idle calls runs unlocks) c" and i: "i < length (bl_pcs c)"
    and m: "bl_guard (bl_pcs c ! i) = Some m" "wr \<Longrightarrow> m = Lk_Write"
  shows "bl_inv order_inv (raw idle calls runs unlocks) (bl_logs i wr c)"
proof -
  have "order_inv (bl_lock c)" using inv by (simp add: bl_inv_def)
  from order_inv_log[OF this] bo_holder[OF inv i m(1)] m(2) have "order_inv (mem_logs i wr 0 (bl_lock c))"
    by (auto split: if_splits)
  moreover have "lk_guard (raw idle calls runs unlocks) n j (mem_logs i wr loc (bl_lock c)) =
      lk_guard (raw idle calls runs unlocks) n j (bl_lock c)" for n j loc by (cases n) (simp_all add: mem_raw_def)
  ultimately show ?thesis using inv by (simp add: bl_inv_def lk_held_def)
qed

lemma bo_bl_step:
  assumes "bl_step (raw idle calls runs unlocks) c c'" and "bl_inv order_inv (raw idle calls runs unlocks) c"
    and "br_inv (bl_abs c)"
  shows "bl_inv order_inv (raw idle calls runs unlocks) c' \<and> br_inv (bl_abs c')"
  using weak.bl_step_inv[OF assms(1,2)] br_steps_keep[OF weak.bl_step_abs[OF assms(1,2)] assms(3)] by blast

text \<open>What a receiver with a guard knows.\<close>

lemma bo_holder_knows:
  assumes inv: "bo_inv order_inv (raw idle calls runs unlocks) s" and i: "i < length (bo_pcs s)"
    and m: "bl_guard (bo_pcs s ! i) = Some m" and e: "e < length (bo_log s)" "ch_takes (bo_log s ! e) \<or> m = Lk_Write"
  shows "e \<in> ms_seen (bo_mem s) ! i"
proof -
  have bl: "bl_inv order_inv (raw idle calls runs unlocks) (bo_ch s)" and log: "map ch_takes (bo_log s) = map da_write (ms_log (bo_mem s))"
    using inv by (auto simp: bo_inv_def)
  then have know: "holders_know excl shared (bo_mem s)" by (simp add: bl_inv_def lock_order_inv_def)
  have n: "length (bo_log s) = length (ms_log (bo_mem s))" using log by (metis length_map)
  have "map ch_takes (bo_log s) ! e = map da_write (ms_log (bo_mem s)) ! e" using log by simp
  then have "ch_takes (bo_log s ! e) = da_write (ms_log (bo_mem s) ! e)" using e(1) n by simp
  with know bo_holder[OF bl i m] e n show ?thesis
    by (auto simp: holders_know_def written_def split: if_splits)
qed

lemma bo_last_known:
  assumes inv: "bo_inv order_inv (raw idle calls runs unlocks) s" and i: "i < length (bo_pcs s)"
    and m: "bl_guard (bo_pcs s ! i) = Some m"
  shows "fst (ch_last (rev (bo_log s))) \<subseteq> bo_learnt (bo_log s) (ms_seen (bo_mem s) ! i)"
    and "bo_fresh (bo_log s) (ms_seen (bo_mem s) ! i) k \<Longrightarrow> snd (ch_last (rev (bo_log s))) \<le> k"
proof -
  let ?ks = "bo_log s" and ?l = "ch_last (rev (bo_log s))"
  consider e where "e < length ?ks" "?ks ! e = Ch_Take (fst ?l) (snd ?l)" | "?l = ({}, 0)" using ch_last_cases by blast
  then have "fst ?l \<subseteq> bo_learnt ?ks (ms_seen (bo_mem s) ! i) \<and>
    (bo_fresh ?ks (ms_seen (bo_mem s) ! i) k \<longrightarrow> snd ?l \<le> k)"
  proof cases
    case 1
    with bo_holder_knows[OF inv i m, of e] have "e \<in> ms_seen (bo_mem s) ! i" by simp
    with 1 show ?thesis unfolding bo_learnt_def bo_fresh_def by blast
  qed simp
  then show "fst ?l \<subseteq> bo_learnt ?ks (ms_seen (bo_mem s) ! i)"
    "bo_fresh ?ks (ms_seen (bo_mem s) ! i) k \<Longrightarrow> snd ?l \<le> k" by blast+
qed

lemma bo_indices:
  assumes "bo_inv order_inv (raw idle calls runs unlocks) s"
  obtains x full where "bo_byte s = flag_byte x full"
    "distinct [x, bl_producer (bo_ch s), bc_consumer (bl_shared (bo_ch s))]"
    "\<And>i. i < length (bo_pcs s) \<Longrightarrow> bo_pcs s ! i = Bl_At Br_Consume \<Longrightarrow> full"
proof -
  have "br_inv (bl_abs (bo_ch s))" using assms by (simp add: bo_inv_def)
  then obtain x full where byte: "bo_byte s = flag_byte x full"
    "distinct [x, bl_producer (bo_ch s), bc_consumer (bl_shared (bo_ch s))]"
    and consumes: "Br_Consume \<in> set (map bl_place (bo_pcs s)) \<longrightarrow> full"
    unfolding br_inv_def bl_abs_def by auto
  have "full" if "i < length (bo_pcs s)" "bo_pcs s ! i = Bl_At Br_Consume" for i
    using consumes that nth_mem[OF that(1)] by force
  with byte show ?thesis by (rule that)
qed

lemma bo_inv_writes:
  assumes inv: "bo_inv order_inv (raw idle calls runs unlocks) s"
  shows "bo_inv order_inv (raw idle calls runs unlocks) (s\<lparr>bo_ch := (bo_ch s)\<lparr>bl_shared := (bl_shared (bo_ch s))\<lparr>bc_buffer :=
      tb_update (bl_producer (bo_ch s)) f (bc_buffer (bl_shared (bo_ch s)))\<rparr>\<rparr>,
    bo_sent := bo_sent s @ [bl_producer (bo_ch s)]\<rparr>)"
proof -
  obtain x full where x: "bo_byte s = flag_byte x full"
    "distinct [x, bl_producer (bo_ch s), bc_consumer (bl_shared (bo_ch s))]" by (rule bo_indices[OF inv]) auto
  show ?thesis
    using inv bo_bl_step[OF bl_writes[of _ "bo_ch s" f], of idle calls runs unlocks] x
    by (auto simp: bo_inv_def bo_handed_def ch_accessed_snoc flag_byte_inject tb_update_def)
qed

lemma bo_inv_publishes:
  assumes inv: "bo_inv order_inv (raw idle calls runs unlocks) s"
    and publish: "tb_publish (bl_producer (bo_ch s)) (bc_buffer (bl_shared (bo_ch s))) = Inr ((p, consumed), tb)"
    and R: "m = last (bo_order s)" "R = bo_knows s \<union> ch_reads m"
  shows "bo_inv order_inv (raw idle calls runs unlocks)
    (s\<lparr>bo_ch := (bo_ch s)\<lparr>bl_shared := (bl_shared (bo_ch s))\<lparr>bc_buffer := tb\<rparr>, bl_producer := p\<rparr>, bo_knows := R,
      bo_order := bo_order s @ [\<lparr>ch_flags = tb_flags tb, ch_sends = ch_sends m \<union> {..<length (bo_sent s)}, ch_reads = ch_reads m \<union> R\<rparr>]\<rparr>)"
proof -
  let ?c = "bo_ch s"
  obtain x full where x: "bo_byte s = flag_byte x full" "distinct [x, bl_producer ?c, bc_consumer (bl_shared ?c)]"
    by (rule bo_indices[OF inv]) auto
  have p: "p = x" "tb_flags tb = flag_byte (bl_producer ?c) True" using publish tb_publish_flags[OF x(1)] by auto
  have old: "bo_byte_ok (bo_order s) (snd (ch_last (rev (bo_log s)))) (bo_byte s)"
    and handed: "bo_handed (bo_log s) (bo_sent s) (bo_knows s) m (bl_shared ?c) (bl_producer ?c)"
    using inv R(1) by (auto simp: bo_inv_def)
  have "bo_byte_ok (bo_order s @ [\<lparr>ch_flags = tb_flags tb, ch_sends = A, ch_reads = B\<rparr>]) (snd (ch_last (rev (bo_log s)))) (tb_flags tb)" for A B
    using old p(2) by (auto simp: bo_byte_ok_def nth_append less_Suc_eq intro: exI[of _ "bl_producer ?c"])
  moreover have "bo_handed (bo_log s) (bo_sent s) R
      \<lparr>ch_flags = tb_flags tb, ch_sends = ch_sends m \<union> {..<length (bo_sent s)}, ch_reads = ch_reads m \<union> R\<rparr>
      ((bl_shared ?c)\<lparr>bc_buffer := tb\<rparr>) p"
    using handed x p ch_bounds(2)[of "bo_sent s"] R(2) by (auto simp: bo_handed_def flag_byte_inject)
  ultimately show ?thesis
    using inv bo_bl_step[OF bl_publishes[OF publish], of idle calls runs unlocks] by (simp add: bo_inv_def)
qed

lemma bo_inv_moves:
  assumes inv: "bo_inv order_inv (raw idle calls runs unlocks) s"
    and c: "c = (bo_ch s)\<lparr>bl_lock := l, bl_pcs := pcs\<rparr>" and step: "bl_step (raw idle calls runs unlocks) (bo_ch s) c"
  shows "bo_inv order_inv (raw idle calls runs unlocks) (s\<lparr>bo_ch := c\<rparr>)"
proof -
  have "bl_lock c = bo_mem s \<or> (\<exists>i. lk_thread (raw idle calls runs unlocks) i (bo_mem s) (bl_lock c))"
    using step by (induction rule: bl_step.induct) (auto intro: lk_threadI)
  then have "ms_log (bl_lock c) = ms_log (bo_mem s)" using mem_raw_thread mem_exec_frame(1) by metis
  with inv bo_bl_step[OF step] show ?thesis by (simp add: bo_inv_def c)
qed

lemma bo_inv_looks:
  assumes inv: "bo_inv order_inv (raw idle calls runs unlocks) s" and i: "i < length (bo_pcs s)"
    and at: "bo_pcs s ! i = Bl_At pc" "br_visits pc"
  shows "bo_inv order_inv (raw idle calls runs unlocks)
    (s\<lparr>bo_ch := bl_logs i False (bo_ch s), bo_log := bo_log s @ [Ch_Look (bc_consumer (bl_shared (bo_ch s)))]\<rparr>)"
proof -
  obtain x full where x: "bo_byte s = flag_byte x full"
    "distinct [x, bl_producer (bo_ch s), bc_consumer (bl_shared (bo_ch s))]" by (rule bo_indices[OF inv]) auto
  obtain m where "bl_guard (bo_pcs s ! i) = Some m" using at by (cases pc) (auto simp: br_visits_def)
  from bl_inv_logs[OF _ i this, of idle calls runs unlocks False] inv x show ?thesis
    by (auto simp: bo_inv_def bo_handed_def ch_looked_snoc flag_byte_inject)
qed

text \<open>A load under the write lock that finds a publication is right: only publications follow the last \<open>consume\<close>.\<close>

lemma bo_inv_loads:
  assumes inv: "bo_inv order_inv (raw idle calls runs unlocks) s" and i: "i < length (bo_pcs s)"
    and at: "bo_pcs s ! i = Bl_At pc" "pc = Br_Idle \<or> pc = Br_Check"
    and k: "k < length (bo_order s)" "bo_fresh (bo_log s) (ms_seen (bo_mem s) ! i) k"
    and read: "br_reader pc (bc_with_flags (ch_flags (bo_order s ! k)) (bl_shared (bo_ch s))) = Inr (pc', b)"
  shows "bo_inv order_inv (raw idle calls runs unlocks) (s\<lparr>bo_ch := (bo_ch s)\<lparr>bl_pcs := (bo_pcs s)[i := Bl_At pc']\<rparr>\<rparr>)"
proof -
  let ?L = "raw idle calls runs unlocks" and ?n = "snd (ch_last (rev (bo_log s)))"
  have bl: "bl_inv order_inv ?L (bo_ch s)" and br: "br_inv (bl_abs (bo_ch s))"
    and byte: "bo_byte_ok (bo_order s) ?n (bo_byte s)" using inv by (auto simp: bo_inv_def)
  have "\<exists>x. bo_byte s = flag_byte x True" if pc': "pc' = Br_Consume"
  proof -
    have pc: "pc = Br_Check" using read at(2) pc' by (auto split: if_splits)
    then have "bl_guard (bo_pcs s ! i) = Some Lk_Write" using at(1) by simp
    from bo_last_known(2)[OF inv i this k(2)] have n: "?n \<le> k" .
    with byte k(1) obtain x where x: "ch_flags (bo_order s ! k) = flag_byte x (?n < k)" by (auto simp: bo_byte_ok_def)
    have "?n < k" using read pc pc' x by (auto simp: bc_with_flags_def tb_consumed_flags split: if_splits)
    then have last: "?n < length (bo_order s) - 1" using k(1) by linarith
    moreover have "bo_order s \<noteq> []" using k(1) by auto
    ultimately show ?thesis using byte
      by (auto simp: bo_byte_ok_def last_conv_nth dest!: spec[of _ "length (bo_order s) - 1"])
  qed
  note br_inv_loads[OF br i at read this]
  moreover have "bl_inv order_inv ?L ((bo_ch s)\<lparr>bl_pcs := (bo_pcs s)[i := Bl_At pc']\<rparr>)"
  proof -
    have none: "bl_wants pc = None" "bl_visits pc = None" using at(2) by auto
    have "lk_guard ?L m i (bo_mem s)" if "bl_guard (Bl_At pc') = Some m" for m
      using br_reader_guard[OF read none] that bl i at(1) by (auto simp: bl_inv_def lk_held_def)
    from weak.bl_inv_pc[OF bl this, where b = "bl_shared (bo_ch s)"] show ?thesis by simp
  qed
  ultimately show ?thesis using inv by (simp add: bo_inv_def)
qed

lemma bo_inv_consumes:
  assumes inv: "bo_inv order_inv (raw idle calls runs unlocks) s" and i: "i < length (bo_pcs s)"
    and at: "bo_pcs s ! i = Bl_At Br_Consume" and read: "br_reader Br_Consume (bl_shared (bo_ch s)) = Inr (pc', b)"
    and m: "m = last (bo_order s)" and V: "V = ms_seen (bo_mem s) ! i"
  shows "bo_inv order_inv (raw idle calls runs unlocks)
    (s\<lparr>bo_ch := (bl_logs i True (bo_ch s))\<lparr>bl_shared := b, bl_pcs := (bo_pcs s)[i := Bl_At pc']\<rparr>,
      bo_log := bo_log s @ [Ch_Take (ch_sends m) (length (bo_order s))],
      bo_order := bo_order s @ [\<lparr>ch_flags = tb_flags (bc_buffer b), ch_sends = ch_sends m \<union> bo_learnt (bo_log s) V, ch_reads = ch_reads m \<union> V\<rparr>]\<rparr>)"
proof -
  let ?c = "bo_ch s" and ?L = "raw idle calls runs unlocks" and ?order = "bo_order s"
  let ?log = "bo_log s @ [Ch_Take (ch_sends m) (length ?order)]"
  let ?m = "\<lparr>ch_flags = tb_flags (bc_buffer b), ch_sends = ch_sends m \<union> bo_learnt (bo_log s) V, ch_reads = ch_reads m \<union> V\<rparr>"
  obtain x full where x: "bo_byte s = flag_byte x full" "distinct [x, bl_producer ?c, bc_consumer (bl_shared ?c)]" "full"
    using bo_indices[OF inv] i at by metis
  have b: "bc_consumer b = x" "tb_flags (bc_buffer b) = flag_byte (bc_consumer (bl_shared ?c)) False"
    using read x(1,3) by (auto simp: tb_consume_flags)
  have guard: "bl_guard (bo_pcs s ! i) = Some Lk_Write" using at by simp
  have handed: "bo_handed (bo_log s) (bo_sent s) (bo_knows s) m (bl_shared ?c) (bl_producer ?c)"
    using inv m by (simp add: bo_inv_def)
  have "{..<length (bo_log s)} \<subseteq> V" using bo_holder_knows[OF inv i guard] V by auto
  then have looked: "ch_looked (bo_log s) y \<subseteq> V" for y using ch_bounds(1)[of "bo_log s" y] by blast
  have "bo_handed ?log (bo_sent s) (bo_knows s) ?m b (bl_producer ?c)"
    using handed x b looked bo_last_known(1)[OF inv i guard] V
    by (auto simp: bo_handed_def ch_looked_snoc flag_byte_inject)
  moreover have "bo_byte_ok (?order @ [?m]) (snd (ch_last (rev ?log))) (tb_flags (bc_buffer b))"
    using b(2) by (auto simp: bo_byte_ok_def less_Suc_eq)
  moreover have "bl_inv order_inv ?L (bl_logs i True ?c)" by (rule bl_inv_logs[OF _ i guard]) (use inv in \<open>simp_all add: bo_inv_def\<close>)
  then have "bl_inv order_inv ?L ((bl_logs i True ?c)\<lparr>bl_shared := b, bl_pcs := (bo_pcs s)[i := Bl_At pc']\<rparr>) \<and>
      br_inv (bl_abs ((bl_logs i True ?c)\<lparr>bl_shared := b, bl_pcs := (bo_pcs s)[i := Bl_At pc']\<rparr>))"
    using bo_bl_step[OF bl_accesses[of i "bl_logs i True ?c" Br_Consume pc' b ?L]] i at read inv by (simp add: bo_inv_def)
  ultimately show ?thesis using inv by (simp add: bo_inv_def)
qed

lemma bo_step_keeps:
  "bo_step (raw idle calls runs unlocks) s t \<Longrightarrow> bo_inv order_inv (raw idle calls runs unlocks) s \<Longrightarrow>
    bo_inv order_inv (raw idle calls runs unlocks) t"
  by (induction rule: bo_step.induct)
    (simp_all only: bo_inv_writes bo_inv_publishes bo_inv_moves bo_inv_looks bo_inv_loads bo_inv_consumes)

lemma bo_init_inv:
  assumes "bo_init (raw idle calls runs unlocks) s"
  shows "bo_inv order_inv (raw idle calls runs unlocks) s"
proof -
  have init: "bl_init (raw idle calls runs unlocks) (bo_ch s)" using assms by (simp add: bo_init_def)
  then obtain x where "bo_byte s = flag_byte x False" by (auto simp: bl_init_def)
  with assms weak.bl_init_inv[OF init] br_inv_init[OF weak.bl_init_abs[OF init]] show ?thesis
    by (auto simp: bo_inv_def bo_init_def bo_byte_ok_def bo_handed_def ch_looked_def ch_accessed_def)
qed

text \<open>The invariant excludes races, and no access fails.\<close>

lemma bo_inv_race_free:
  assumes inv: "bo_inv order_inv (raw idle calls runs unlocks) s"
  shows "bo_race_free s"
  unfolding bo_race_free_def
proof (intro conjI allI impI)
  have handed: "bo_handed (bo_log s) (bo_sent s) (bo_knows s) (last (bo_order s)) (bl_shared (bo_ch s)) (bl_producer (bo_ch s))"
    using inv by (simp add: bo_inv_def)
  fix e assume "e < length (bo_log s)" "bo_log s ! e = Ch_Look (bl_producer (bo_ch s))"
  with handed show "e \<in> bo_knows s" by (auto simp: bo_handed_def ch_looked_def)
next
  fix i pc e
  assume i: "i < length (bo_pcs s)" and pc: "bo_pcs s ! i = Bl_At pc \<and> (br_visits pc \<or> pc = Br_Consume)"
    and e: "e < length (bo_log s)" "ch_takes (bo_log s ! e) \<or> pc = Br_Consume"
  obtain m where "bl_guard (bo_pcs s ! i) = Some m" "pc = Br_Consume \<longrightarrow> m = Lk_Write"
    using pc by (cases pc) (auto simp: br_visits_def)
  with bo_holder_knows[OF inv i this(1) e(1)] e(2) show "e \<in> ms_seen (bo_mem s) ! i" by blast
next
  fix i pc x
  assume i: "i < length (bo_pcs s)" and pc: "bo_pcs s ! i = Bl_At pc \<and> (br_visits pc \<or> pc = Br_Consume)"
    and x: "x < length (bo_sent s)" "br_visits pc \<and> bo_sent s ! x = bc_consumer (bl_shared (bo_ch s))"
  obtain m where "bl_guard (bo_pcs s ! i) = Some m" using pc by (cases pc) (auto simp: br_visits_def)
  from bo_last_known(1)[OF inv i this] inv x show "x \<in> bo_learnt (bo_log s) (ms_seen (bo_mem s) ! i)"
    by (auto simp: bo_inv_def bo_handed_def ch_accessed_def)
qed

lemma bo_inv_total:
  assumes inv: "bo_inv order_inv (raw idle calls runs unlocks) s"
  shows "bl_producer (bo_ch s) \<noteq> bc_consumer (bl_shared (bo_ch s))"
    and "i < length (bo_pcs s) \<Longrightarrow> bo_pcs s ! i = Bl_At Br_Consume \<Longrightarrow> \<exists>r. br_reader Br_Consume (bl_shared (bo_ch s)) = Inr r"
    and "\<exists>r. tb_publish (bl_producer (bo_ch s)) (bc_buffer (bl_shared (bo_ch s))) = Inr r"
proof -
  obtain x full where x: "bo_byte s = flag_byte x full" "distinct [x, bl_producer (bo_ch s), bc_consumer (bl_shared (bo_ch s))]"
    by (rule bo_indices[OF inv]) auto
  show "bl_producer (bo_ch s) \<noteq> bc_consumer (bl_shared (bo_ch s))" using x(2) by simp
  show "\<exists>r. tb_publish (bl_producer (bo_ch s)) (bc_buffer (bl_shared (bo_ch s))) = Inr r" using tb_publish_flags[OF x(1)] by auto
  assume "i < length (bo_pcs s)" "bo_pcs s ! i = Bl_At Br_Consume"
  then obtain y where "bo_byte s = flag_byte y True" using bo_indices[OF inv] by metis
  then show "\<exists>r. br_reader Br_Consume (bl_shared (bo_ch s)) = Inr r" by (simp add: tb_consume_flags)
qed

end

sublocale ordered_lock \<subseteq> bo: transition_system "bo_init (mem_raw P start_value start excl shared idle calls runs unlocks)"
  "bo_step (mem_raw P start_value start excl shared idle calls runs unlocks)"
  "bo_inv (lock_order_inv lock_inv value_ok free excl shared claims) (mem_raw P start_value start excl shared idle calls runs unlocks)"
  for idle calls runs unlocks
  by unfold_locales (auto intro: bo_init_inv bo_step_keeps)

context ordered_lock begin

lemma bo_reachable_race_free:
  "reachable (bo_init (raw idle calls runs unlocks)) (bo_step (raw idle calls runs unlocks)) s \<Longrightarrow> bo_race_free s"
  using bo_inv_race_free bo.reachable_inv by blast

end

section \<open>A run over RawRwSpin\<close>

text \<open>
  The sender writes its element and publishes it, and a receiver in \<open>read\<close> finds the publication, takes the lock and
  consumes it.
\<close>

definition bo_demo :: "(rw_pc, usize) mem_system \<Rightarrow> u8 \<Rightarrow> idx \<Rightarrow> idx \<Rightarrow> bl_pc \<Rightarrow> ch_touch list \<Rightarrow> idx list \<Rightarrow> ch_message list
    \<Rightarrow> (rw_pc, usize, nat) bo_system" where
  "bo_demo m flags producer consumer pc log sent order = \<lparr>
     bo_ch = \<lparr>bl_lock = m, bl_shared = \<lparr>bc_buffer = \<lparr>tb_elements = (\<lambda>_. (1, 0)), tb_flags = flags\<rparr>, bc_consumer = consumer\<rparr>,
       bl_producer = producer, bl_pcs = [pc]\<rparr>,
     bo_log = log, bo_sent = sent, bo_knows = {}, bo_order = order\<rparr>"

definition bo_demo_mem :: "(usize \<times> nat set) list \<Rightarrow> rw_pc \<Rightarrow> nat \<Rightarrow> (rw_pc, usize) mem_system" where
  "bo_demo_mem order pc pos = \<lparr>ms_order = map (\<lambda>(w, V). \<lparr>msg_value = w, msg_view = V\<rparr>) order, ms_pcs = [pc],
     ms_pos = [pos], ms_seen = [{}], ms_log = []\<rparr>"

abbreviation bo_demo_first :: ch_message where
  "bo_demo_first \<equiv> \<lparr>ch_flags = flag_byte Zero False, ch_sends = {}, ch_reads = {}\<rparr>"

abbreviation bo_demo_sent :: ch_message where
  "bo_demo_sent \<equiv> \<lparr>ch_flags = flag_byte One True, ch_sends = {0}, ch_reads = {}\<rparr>"

abbreviation bo_demo_taken :: ch_message where
  "bo_demo_taken \<equiv> \<lparr>ch_flags = flag_byte Two False, ch_sends = {0}, ch_reads = {}\<rparr>"

abbreviation bo_demo_reachable :: "(rw_pc, usize, nat) bo_system \<Rightarrow> bool" where
  "bo_demo_reachable \<equiv> reachable (bo_init (rw_weak False True)) (bo_step (rw_weak False True))"

lemma bo_demo_publishes:
  "bo_demo_reachable (bo_demo (bo_demo_mem [(0, {})] Rw_Idle 0) (flag_byte One True) Zero Two (Bl_At Br_Idle) [] [One]
     [bo_demo_first, bo_demo_sent])"
proof -
  let ?m = "bo_demo_mem [(0, {})] Rw_Idle 0"
  let ?s = "bo_demo ?m (flag_byte Zero False) One Two (Bl_At Br_Idle) [] [] [bo_demo_first]"
  let ?t = "bo_demo ?m (flag_byte Zero False) One Two (Bl_At Br_Idle) [] [One] [bo_demo_first]"
  have "bo_init (rw_weak False True) ?s"
    by (auto simp: bo_init_def bl_init_def bo_demo_def rw_weak_def mem_raw_def mem_starts_def rw_starts_def bo_demo_mem_def
        mem_init_def rw_new_def intro!: exI[of _ Zero])
  moreover have "bo_step (rw_weak False True) ?s ?t"
    using bo_writes[of "rw_weak False True" ?s id] by (simp add: bo_demo_def tb_update_def fun_upd_idem)
  moreover have "tb_publish One (bc_buffer (bl_shared (bo_ch ?t))) = Inr ((Zero, True),
      \<lparr>tb_elements = (\<lambda>_. (1, 0)), tb_flags = flag_byte One True\<rparr>)"
    using tb_publish_flags[of "bc_buffer (bl_shared (bo_ch ?t))" Zero False One] by (simp add: bo_demo_def)
  then have "bo_step (rw_weak False True) ?t (bo_demo ?m (flag_byte One True) Zero Two (Bl_At Br_Idle) [] [One]
      [bo_demo_first, bo_demo_sent])"
    using bo_publishes[where s = ?t and p = Zero and consumed = True and m = bo_demo_first and R = "{}" and L = "rw_weak False True"]
    by (simp add: bo_demo_def lessThan_Suc)
  ultimately show ?thesis by (blast intro: reach_init reach_step)
qed

lemma bo_demo_loads:
  assumes "bo_demo_reachable (bo_demo m (flag_byte One True) Zero Two (Bl_At pc) [] [One] [bo_demo_first, bo_demo_sent])"
    and "pc = Br_Idle \<and> pc' = Br_Want_Write \<or> pc = Br_Check \<and> pc' = Br_Consume"
  shows "bo_demo_reachable (bo_demo m (flag_byte One True) Zero Two (Bl_At pc') [] [One] [bo_demo_first, bo_demo_sent])"
  using reach_step[OF assms(1) bo_loads[of 0 _ pc 1 pc']] assms(2)
  by (auto simp: bo_demo_def bo_fresh_def bc_with_flags_def tb_consumed_def)

lemma bo_demo_moves:
  assumes "bo_demo_reachable (bo_demo m flags p c pc log sent order)" and "pc \<notin> {Bl_At Br_Idle, Bl_At Br_Check, Bl_At Br_Consume}"
    and "bl_step (rw_weak False True) (bo_ch (bo_demo m flags p c pc log sent order)) (bo_ch (bo_demo m' flags p c pc' log sent order))"
  shows "bo_demo_reachable (bo_demo m' flags p c pc' log sent order)"
  using reach_step[OF assms(1) bo_moves[OF _ _ _ assms(3), where i = 0 and l = m' and pc = pc']] assms(2)
  by (simp add: bo_demo_def)

lemma bo_demo_run:
  "bo_demo_reachable (bo_demo (mem_logs 0 True 0 (bo_demo_mem [(0, {}), (exclusive_locked, {})] Rw_Excl 1)) (flag_byte Two False) Zero One
     (Bl_At Br_Visit_Write) [Ch_Take {0} 2] [One] [bo_demo_first, bo_demo_sent, bo_demo_taken])"
proof -
  let ?m0 = "bo_demo_mem [(0, {})] Rw_Idle 0" and ?m1 = "bo_demo_mem [(0, {})] (Excl_Cas True False backoff_new) 0"
    and ?m2 = "bo_demo_mem [(0, {}), (exclusive_locked, {})] Rw_Excl 1"
  let ?s = "\<lambda>m pc. bo_demo m (flag_byte One True) Zero Two pc [] [One] [bo_demo_first, bo_demo_sent]"
  have exec: "mem_exec (rw_program False True) (Act_Step 0 (Call_Lock_Excl True) 0) ?m0 = Some ?m1"
    "mem_exec (rw_program False True) (Act_Step 0 (Excl_Continue True False) 0) ?m1 = Some ?m2"
    by (simp_all add: bo_demo_mem_def mem_last_def mem_goes_def mem_adds_def rw_program_def Let_def compare_exchange_weak_def
        rw_excl_expected_def mem_learns_def mem_publishes_def)
  have lock: "lk_call (rw_weak False True) Lk_Write 0 ?m0 ?m1" "lk_run (rw_weak False True) 0 ?m1 ?m2"
    "lk_guard (rw_weak False True) Lk_Write 0 ?m2"
    using exec unfolding rw_weak_def mem_raw_def by (auto simp: bo_demo_mem_def simp del: mem_exec.simps)
  have "bo_demo_reachable (?s ?m0 (Bl_At Br_Want_Write))" by (rule bo_demo_loads[OF bo_demo_publishes]) simp
  from bo_demo_moves[OF this, where m' = ?m1 and pc' = "Bl_Lock Lk_Write"] lock(1)
  have "bo_demo_reachable (?s ?m1 (Bl_Lock Lk_Write))"
    using bl_calls[of 0 "bo_ch (?s ?m0 (Bl_At Br_Want_Write))" Br_Want_Write Lk_Write "rw_weak False True" ?m1]
    by (simp add: bo_demo_def)
  from bo_demo_moves[OF this, where m' = ?m2 and pc' = "Bl_Lock Lk_Write"] lock(2)
  have "bo_demo_reachable (?s ?m2 (Bl_Lock Lk_Write))"
    using bl_lock_runs[of 0 "bo_ch (?s ?m1 (Bl_Lock Lk_Write))" Lk_Write "rw_weak False True" ?m2] by (simp add: bo_demo_def)
  from bo_demo_moves[OF this, where m' = ?m2 and pc' = "Bl_At Br_Check"] lock(3)
  have "bo_demo_reachable (?s ?m2 (Bl_At Br_Check))"
    using bl_locks[of 0 "bo_ch (?s ?m2 (Bl_Lock Lk_Write))" Lk_Write "rw_weak False True"] by (simp add: bo_demo_def)
  from bo_demo_loads[OF this] have at: "bo_demo_reachable (?s ?m2 (Bl_At Br_Consume))" by simp
  let ?u = "?s ?m2 (Bl_At Br_Consume)" and ?b = "\<lparr>bc_buffer = \<lparr>tb_elements = (\<lambda>_. (1, 0)), tb_flags = flag_byte Two False\<rparr>, bc_consumer = One\<rparr>"
  have "br_reader Br_Consume (bl_shared (bo_ch ?u)) = Inr (Br_Visit_Write, ?b)"
    using tb_consume_flags[of "bc_buffer (bl_shared (bo_ch ?u))" One True Two] by (simp add: bo_demo_def)
  then have "bo_step (rw_weak False True) ?u (bo_demo (mem_logs 0 True 0 ?m2) (flag_byte Two False) Zero One
     (Bl_At Br_Visit_Write) [Ch_Take {0} 2] [One] [bo_demo_first, bo_demo_sent, bo_demo_taken])"
    using bo_consumes[where s = ?u and i = 0 and pc' = Br_Visit_Write and b = ?b and m = bo_demo_sent and V = "{}"
      and L = "rw_weak False True"] by (simp add: bo_demo_def bl_logs_def bo_demo_mem_def bo_learnt_def numeral_2_eq_2)
  with at show ?thesis by (rule reach_step)
qed

section \<open>Property\<close>

text \<open>
  Claim C10. A channel over \<open>RawRwSpin\<close> is free of data races with the orderings of the code when its three indices start
  out different, on a memory in which loads may read old values: the sender's next write to its element happens after every
  read of it by a receiver, and a receiver's next read after every write of the sender to the element and every
  change of the consumer index, also when another receiver did the \<open>consume\<close>. The assertion of \<open>read\<close> does not fail, though
  \<open>consumed()\<close> is a relaxed load, and neither side reads a flag byte that is no index.
\<close>

theorem broadcast_data_race_free:
  assumes "reachable (bo_init (rw_weak dbg std)) (bo_step (rw_weak dbg std)) s"
  shows "bo_race_free s \<and> bl_producer (bo_ch s) \<noteq> bc_consumer (bl_shared (bo_ch s)) \<and>
    (\<forall>i < length (bo_pcs s). bo_pcs s ! i = Bl_At Br_Consume \<longrightarrow> (\<exists>r. br_reader Br_Consume (bl_shared (bo_ch s)) = Inr r)) \<and>
    (\<exists>r. tb_publish (bl_producer (bo_ch s)) (bc_buffer (bl_shared (bo_ch s))) = Inr r)"
proof -
  note inv = rw_order.bo.reachable_inv[OF assms[unfolded rw_weak_def]]
  from rw_order.bo_inv_race_free[OF inv] rw_order.bo_inv_total[OF inv] show ?thesis by blast
qed

theorem broadcast_data_race_free_witness:
  "\<exists>s. bo_demo_reachable s \<and> bo_pcs s = [Bl_At Br_Visit_Write] \<and> bo_sent s = [bc_consumer (bl_shared (bo_ch s))] \<and>
     0 \<in> bo_learnt (bo_log s) (ms_seen (bo_mem s) ! 0)"
proof -
  let ?s = "bo_demo (mem_logs 0 True 0 (bo_demo_mem [(0, {}), (exclusive_locked, {})] Rw_Excl 1)) (flag_byte Two False) Zero One
     (Bl_At Br_Visit_Write) [Ch_Take {0} 2] [One] [bo_demo_first, bo_demo_sent, bo_demo_taken]"
  have "0 \<in> bo_learnt (bo_log s) (ms_seen (bo_mem s) ! 0)"
    if "bo_race_free s" "bo_pcs s = [Bl_At Br_Visit_Write]" "bo_sent s = [bc_consumer (bl_shared (bo_ch s))]"
    for s :: "(rw_pc, usize, nat) bo_system"
    using that by (simp add: bo_race_free_def br_visits_def)
  from this[OF conjunct1[OF broadcast_data_race_free[OF bo_demo_run]]]
  have "bo_pcs ?s = [Bl_At Br_Visit_Write] \<and> bo_sent ?s = [bc_consumer (bl_shared (bo_ch ?s))] \<and>
      0 \<in> bo_learnt (bo_log ?s) (ms_seen (bo_mem ?s) ! 0)" by (simp add: bo_demo_def)
  with bo_demo_run show ?thesis by blast
qed

end
