(* ===== verification/Flip_Queue.thy ===== *)
theory Flip_Queue
  imports Ring_Buffer
begin

text \<open>
  \<open>FlipBuffer\<close>, its \<open>Drain\<close> and \<open>FlipQueue\<close> of \<open>src/src/flip_queue.rs\<close>: a ring buffer with two atomic
  counters, of the pops and of the pushes requested through a shared reference since the last flush.

  \<open>UnsafeCell<T>\<close> is represented as \<open>T\<close>. The operations through a shared reference, \<open>push_sync\<close> and
  \<open>pop_sync\<close>, are an atomic \<open>fetch_add\<close> (\<open>reserve\<close>), a computation on the fields that do not change
  under a shared reference (\<open>slot\<close>), and the access to the slot (\<open>write\<close>, \<open>read\<close>); here they run
  without interference, and \<open>Flip_Race\<close> interleaves the parts. The lock of a \<open>FlipQueue\<close> has no
  state of its own in a sequential run, so the queue is its buffer.
\<close>

section \<open>FlipBuffer\<close>

record 'a flip_buffer =
  fb_buffer :: "'a ring_buffer"
  fb_popped :: u64
  fb_pushed :: u64

definition fb_new :: "nat \<Rightarrow> 'a flip_buffer res" where
  "fb_new sz = bind_res (rb_new sz) (\<lambda>b. Inr \<lparr>fb_buffer = b, fb_popped = 0, fb_pushed = 0\<rparr>)"

definition fb_with_capacity :: "nat \<Rightarrow> nat \<Rightarrow> 'a flip_buffer res" where
  "fb_with_capacity sz cap =
     bind_res (rb_with_capacity sz cap) (\<lambda>b. Inr \<lparr>fb_buffer = b, fb_popped = 0, fb_pushed = 0\<rparr>)"

text \<open>\<open>usize::try_from\<close> of a \<open>u64\<close> always succeeds on a 64-bit target.\<close>

definition usize_try_from :: "u64 \<Rightarrow> nat option" where
  "usize_try_from n = (if unat n \<le> usize_max then Some (unat n) else None)"

definition clamp_count :: "u64 \<Rightarrow> nat \<Rightarrow> nat" where
  "clamp_count n limit =
     (case usize_try_from n of Some m \<Rightarrow> if m \<le> limit then m else limit | None \<Rightarrow> limit)"

definition fb_flush :: "'a flip_buffer \<Rightarrow> 'a flip_buffer res" where
  "fb_flush fb =
     (let rb = fb_buffer fb; n = rb_len rb in
      bind_res (usize_sub (rb_capacity rb) n) (\<lambda>vacant.
        let popped = clamp_count (fb_popped fb) n;
            pushed = clamp_count (fb_pushed fb) vacant;
            fb' = fb\<lparr>fb_popped := 0, fb_pushed := 0\<rparr>
        in if popped = 0 \<and> pushed = 0 then Inr fb'
           else
             bind_res (usize_sub n popped) (\<lambda>rest.
             bind_res (usize_add rest pushed) (\<lambda>new_len.
             bind_res (ring_index (rb_head rb) popped (rb_capacity rb)) (\<lambda>new_head.
               Inr (fb'\<lparr>fb_buffer := rb_set_len new_len (rb_set_head new_head rb)\<rparr>))))))"

definition fb_clear :: "('a \<Rightarrow> bool) \<Rightarrow> 'a flip_buffer \<Rightarrow> ('a flip_buffer \<times> 'a list \<times> unwinding) res" where
  "fb_clear dp fb =
     bind_res (fb_flush fb) (\<lambda>fb1. bind_res (rb_clear dp (fb_buffer fb1)) (\<lambda>(rb, d).
       Inr (fb1\<lparr>fb_buffer := rb\<rparr>, d)))"

text \<open>The parts of \<open>push_sync\<close>; \<open>None\<close> means that the queue is full.\<close>

definition fb_push_reserve :: "'a flip_buffer \<Rightarrow> u64 \<times> 'a flip_buffer" where
  "fb_push_reserve fb = (fb_pushed fb, fb\<lparr>fb_pushed := fb_pushed fb + 1\<rparr>)"

definition fb_push_slot :: "u64 \<Rightarrow> 'a flip_buffer \<Rightarrow> nat option res" where
  "fb_push_slot pushed fb =
     (let rb = fb_buffer fb in
      case usize_try_from pushed of
        Some pushed \<Rightarrow>
          bind_res (usize_sub (rb_capacity rb) (rb_len rb)) (\<lambda>vacant.
            if pushed < vacant then
              bind_res (usize_add (rb_len rb) pushed) (\<lambda>i.
              bind_res (ring_index (rb_head rb) i (rb_capacity rb)) (\<lambda>idx. Inr (Some idx)))
            else Inr None)
      | None \<Rightarrow> Inr None)"

definition fb_write :: "nat \<Rightarrow> 'a \<Rightarrow> 'a flip_buffer \<Rightarrow> 'a flip_buffer res" where
  "fb_write idx value fb =
     bind_res (write_cell (rb_array (fb_buffer fb)) idx value) (\<lambda>cells.
       Inr (fb\<lparr>fb_buffer := (fb_buffer fb)\<lparr>rb_array := cells\<rparr>\<rparr>))"

text \<open>The result is \<open>Inr ()\<close> for \<open>Ok\<close> and \<open>Inl value\<close> for \<open>Err\<close>.\<close>

definition fb_push_sync :: "'a \<Rightarrow> 'a flip_buffer \<Rightarrow> (('a + unit) \<times> 'a flip_buffer) res" where
  "fb_push_sync value fb =
     (case fb_push_reserve fb of (pushed, fb1) \<Rightarrow>
        bind_res (fb_push_slot pushed fb1) (\<lambda>slot. case slot of
            Some idx \<Rightarrow> bind_res (fb_write idx value fb1) (\<lambda>fb2. Inr (Inr (), fb2))
          | None \<Rightarrow> Inr (Inl value, fb1)))"

definition fb_push :: "nat \<Rightarrow> 'a \<Rightarrow> 'a flip_buffer \<Rightarrow> 'a flip_buffer res" where
  "fb_push sz value fb =
     bind_res (fb_flush fb) (\<lambda>fb1. bind_res (rb_push sz value (fb_buffer fb1)) (\<lambda>rb.
       Inr (fb1\<lparr>fb_buffer := rb\<rparr>)))"

text \<open>The parts of \<open>pop_sync\<close>; \<open>None\<close> means that the queue is empty.\<close>

definition fb_pop_reserve :: "'a flip_buffer \<Rightarrow> u64 \<times> 'a flip_buffer" where
  "fb_pop_reserve fb = (fb_popped fb, fb\<lparr>fb_popped := fb_popped fb + 1\<rparr>)"

definition fb_pop_slot :: "u64 \<Rightarrow> 'a flip_buffer \<Rightarrow> nat option res" where
  "fb_pop_slot popped fb =
     (let rb = fb_buffer fb in
      case usize_try_from popped of
        Some popped \<Rightarrow>
          if popped < rb_len rb
          then bind_res (ring_index (rb_head rb) popped (rb_capacity rb)) (\<lambda>idx. Inr (Some idx))
          else Inr None
      | None \<Rightarrow> Inr None)"

definition fb_read :: "nat \<Rightarrow> 'a flip_buffer \<Rightarrow> 'a res" where
  "fb_read idx fb = read_cell (rb_array (fb_buffer fb)) idx"

definition fb_pop_sync :: "'a flip_buffer \<Rightarrow> ('a option \<times> 'a flip_buffer) res" where
  "fb_pop_sync fb =
     (case fb_pop_reserve fb of (popped, fb1) \<Rightarrow>
        bind_res (fb_pop_slot popped fb1) (\<lambda>slot. case slot of
            Some idx \<Rightarrow> bind_res (fb_read idx fb1) (\<lambda>value. Inr (Some value, fb1))
          | None \<Rightarrow> Inr (None, fb1)))"

definition fb_pop :: "'a flip_buffer \<Rightarrow> ('a option \<times> 'a flip_buffer) res" where
  "fb_pop fb =
     bind_res (fb_flush fb) (\<lambda>fb1. bind_res (rb_pop (fb_buffer fb1)) (\<lambda>(r, rb).
       Inr (r, fb1\<lparr>fb_buffer := rb\<rparr>)))"

text \<open>The state of the \<open>Drain\<close> that \<open>drain\<close> returns is the flushed buffer, which it borrows.\<close>

definition fb_drain :: "'a flip_buffer \<Rightarrow> 'a flip_buffer res" where
  "fb_drain fb = fb_flush fb"

definition fb_swap_buffer :: "'a ring_buffer \<Rightarrow> 'a flip_buffer \<Rightarrow> ('a ring_buffer \<times> 'a flip_buffer) res" where
  "fb_swap_buffer ring fb =
     bind_res (fb_flush fb) (\<lambda>fb1. Inr (fb_buffer fb1, fb1\<lparr>fb_buffer := ring\<rparr>))"

text \<open>\<open>FlipBuffer\<close> has no destructor of its own: dropping it drops its ring buffer.\<close>

definition fb_drop :: "('a \<Rightarrow> bool) \<Rightarrow> 'a flip_buffer \<Rightarrow> ('a list \<times> unwinding) res" where
  "fb_drop dp fb = rb_drop dp (fb_buffer fb)"

section \<open>Drain of a FlipBuffer\<close>

definition fd_next :: "'a flip_buffer \<Rightarrow> ('a option \<times> 'a flip_buffer) res" where
  "fd_next fb = bind_res (drain_next (fb_buffer fb)) (\<lambda>(r, rb). Inr (r, fb\<lparr>fb_buffer := rb\<rparr>))"

definition fd_size_hint :: "'a flip_buffer \<Rightarrow> nat \<times> nat option" where
  "fd_size_hint fb = drain_size_hint (fb_buffer fb)"

definition fd_len :: "'a flip_buffer \<Rightarrow> nat" where
  "fd_len fb = drain_len (fb_buffer fb)"

definition fd_count :: "('a \<Rightarrow> bool) \<Rightarrow> 'a flip_buffer \<Rightarrow> (nat \<times> 'a flip_buffer \<times> 'a list \<times> unwinding) res" where
  "fd_count dp fb =
     bind_res (drain_count dp (fb_buffer fb)) (\<lambda>(n, rb, d). Inr (n, fb\<lparr>fb_buffer := rb\<rparr>, d))"

definition fd_nth :: "('a \<Rightarrow> bool) \<Rightarrow> nat \<Rightarrow> 'a flip_buffer
    \<Rightarrow> ('a option \<times> 'a flip_buffer \<times> 'a list \<times> unwinding) res" where
  "fd_nth dp n fb =
     bind_res (drain_nth dp n (fb_buffer fb)) (\<lambda>(r, rb, d). Inr (r, fb\<lparr>fb_buffer := rb\<rparr>, d))"

definition fd_drop :: "('a \<Rightarrow> bool) \<Rightarrow> 'a flip_buffer \<Rightarrow> ('a flip_buffer \<times> 'a list \<times> unwinding) res" where
  "fd_drop dp fb = bind_res (drain_drop dp (fb_buffer fb)) (\<lambda>(rb, d). Inr (fb\<lparr>fb_buffer := rb\<rparr>, d))"

section \<open>FlipQueue\<close>

type_synonym 'a flip_queue = "'a flip_buffer"

definition fq_new :: "nat \<Rightarrow> 'a flip_queue res" where
  "fq_new sz = fb_new sz"

definition fq_default :: "nat \<Rightarrow> 'a flip_queue res" where
  "fq_default sz = fq_new sz"

definition fq_with_capacity :: "nat \<Rightarrow> nat \<Rightarrow> 'a flip_queue res" where
  "fq_with_capacity sz cap = fb_with_capacity sz cap"

definition fq_clear :: "('a \<Rightarrow> bool) \<Rightarrow> 'a flip_queue \<Rightarrow> ('a flip_queue \<times> 'a list \<times> unwinding) res" where
  "fq_clear dp q = fb_clear dp q"

definition fq_try_push_sync :: "'a \<Rightarrow> 'a flip_queue \<Rightarrow> (('a + unit) \<times> 'a flip_queue) res" where
  "fq_try_push_sync value q = fb_push_sync value q"

definition fq_push_slow :: "nat \<Rightarrow> 'a \<Rightarrow> 'a flip_queue \<Rightarrow> 'a flip_queue res" where
  "fq_push_slow sz value q = fb_push sz value q"

definition fq_push_sync :: "nat \<Rightarrow> 'a \<Rightarrow> 'a flip_queue \<Rightarrow> 'a flip_queue res" where
  "fq_push_sync sz value q =
     bind_res (fq_try_push_sync value q) (\<lambda>(r, q1). case r of
         Inl value \<Rightarrow> fq_push_slow sz value q1
       | Inr _ \<Rightarrow> Inr q1)"

definition fq_push :: "nat \<Rightarrow> 'a \<Rightarrow> 'a flip_queue \<Rightarrow> 'a flip_queue res" where
  "fq_push sz value q = fb_push sz value q"

definition fq_try_pop_sync :: "'a flip_queue \<Rightarrow> ('a option \<times> 'a flip_queue) res" where
  "fq_try_pop_sync q = fb_pop_sync q"

definition fq_pop_slow :: "'a flip_queue \<Rightarrow> ('a option \<times> 'a flip_queue) res" where
  "fq_pop_slow q = fb_pop q"

definition fq_pop_sync :: "'a flip_queue \<Rightarrow> ('a option \<times> 'a flip_queue) res" where
  "fq_pop_sync q =
     bind_res (fb_pop_sync q) (\<lambda>(r, q1). case r of
         Some value \<Rightarrow> Inr (Some value, q1)
       | None \<Rightarrow> if fb_pushed q1 = 0 then Inr (None, q1) else fq_pop_slow q1)"

definition fq_pop :: "'a flip_queue \<Rightarrow> ('a option \<times> 'a flip_queue) res" where
  "fq_pop q = fb_pop q"

definition fq_drain :: "'a flip_queue \<Rightarrow> 'a flip_queue res" where
  "fq_drain q = fb_drain q"

text \<open>\<open>f\<close> uses the drain iterator and drops it; it returns its result and what the borrow leaves.\<close>

definition fq_drain_locking :: "('a flip_buffer \<Rightarrow> ('r \<times> 'a flip_buffer) res) \<Rightarrow> 'a flip_queue
    \<Rightarrow> ('r \<times> 'a flip_queue) res" where
  "fq_drain_locking f q = bind_res (fb_drain q) f"

definition fq_swap_buffer :: "'a ring_buffer \<Rightarrow> 'a flip_queue \<Rightarrow> ('a ring_buffer \<times> 'a flip_queue) res" where
  "fq_swap_buffer ring q = fb_swap_buffer ring q"

section \<open>Invariant and abstraction\<close>

text \<open>How many of the requested pops and pushes were granted.\<close>

definition fb_pops :: "'a flip_buffer \<Rightarrow> nat" where
  "fb_pops fb = min (unat (fb_popped fb)) (rb_len (fb_buffer fb))"

definition fb_pushes :: "'a flip_buffer \<Rightarrow> nat" where
  "fb_pushes fb = min (unat (fb_pushed fb)) (rb_cap (fb_buffer fb) - rb_len (fb_buffer fb))"

text \<open>Slot \<open>i\<close> counts from the head; the slots behind the length are those of granted pushes.\<close>

definition rb_slot :: "'a ring_buffer \<Rightarrow> nat \<Rightarrow> nat" where
  "rb_slot rb i = (rb_head rb + i) mod rb_cap rb"

definition fb_wf :: "'a flip_buffer \<Rightarrow> bool" where
  "fb_wf fb \<longleftrightarrow> rb_inv (fb_buffer fb) \<and>
     (\<forall>i < fb_pushes fb. rb_array (fb_buffer fb) ! rb_slot (fb_buffer fb) (rb_len (fb_buffer fb) + i) \<noteq> None)"

text \<open>The queue: the elements not popped yet, then those pushed since the last flush.\<close>

definition fb_contents :: "'a flip_buffer \<Rightarrow> 'a list" where
  "fb_contents fb =
     map (\<lambda>i. the (rb_array (fb_buffer fb) ! rb_slot (fb_buffer fb) i))
       [fb_pops fb..<rb_len (fb_buffer fb) + fb_pushes fb]"

lemma unat_u64_le: "unat (n::u64) \<le> usize_max"
  using unsigned_less[of n, where 'a = nat] by (simp add: usize_max_def)

lemma usize_try_from_Some [simp]: "usize_try_from n = Some (unat n)"
  by (simp add: usize_try_from_def unat_u64_le)

lemma clamp_count_min: "clamp_count n k = min (unat n) k"
  by (simp add: clamp_count_def)

text \<open>Moving the window of the ring: \<open>k\<close> elements leave at the head, \<open>m\<close> join at the tail.\<close>

lemma rb_window:
  assumes inv: "rb_inv rb" and k: "k \<le> rb_len rb" and m: "rb_len rb + m \<le> rb_cap rb"
    and cells: "\<forall>i < m. rb_array rb ! rb_slot rb (rb_len rb + i) \<noteq> None"
    and rb': "rb' = rb\<lparr>rb_head := rb_slot rb k, rb_len := rb_len rb - k + m\<rparr>" and cap: "0 < rb_cap rb"
  shows "rb_inv rb' \<and> rb_contents rb' = map (\<lambda>i. the (rb_array rb ! rb_slot rb i)) [k..<rb_len rb + m]"
proof -
  have slot: "(rb_head rb' + i) mod rb_cap rb' = rb_slot rb (k + i)" for i
    by (simp add: rb' rb_slot_def mod_simps add.assoc)
  have "rb_array rb ! rb_slot rb i \<noteq> None" if "i < rb_len rb + m" for i
  proof (cases "i < rb_len rb")
    case True
    then show ?thesis using rb_inv_cell[OF inv] by (simp add: rb_slot_def)
  next
    case False
    with that cells[rule_format, of "i - rb_len rb"] show ?thesis by simp
  qed
  then have "rb_inv rb'"
    using inv k m cap slot by (auto simp: rb_inv_def rb' rb_slot_def)
  moreover have "rb_contents rb' = map (\<lambda>i. the (rb_array rb ! rb_slot rb i)) [k..<rb_len rb + m]"
    using k by (intro nth_equalityI) (auto simp: rb_contents_def slot, simp_all add: rb')
  ultimately show ?thesis by simp
qed

lemma fb_contents_flushed: "fb_popped fb = 0 \<Longrightarrow> fb_pushed fb = 0 \<Longrightarrow> fb_contents fb = rb_contents (fb_buffer fb)"
  by (simp add: fb_contents_def fb_pops_def fb_pushes_def rb_contents_def rb_slot_def)

lemma fb_flush_ok:
  assumes wf: "fb_wf fb"
  shows "\<exists>fb'. fb_flush fb = Inr fb' \<and> fb_popped fb' = 0 \<and> fb_pushed fb' = 0 \<and> rb_inv (fb_buffer fb') \<and>
    rb_contents (fb_buffer fb') = fb_contents fb \<and> rb_cap (fb_buffer fb') = rb_cap (fb_buffer fb)"
proof (cases "fb_pops fb = 0 \<and> fb_pushes fb = 0")
  case True
  with wf show ?thesis
    by (auto simp: fb_flush_def fb_wf_def rb_inv_def rb_capacity_def clamp_count_min fb_pops_def fb_pushes_def Let_def
        fb_contents_def rb_contents_def rb_slot_def)
next
  case False
  let ?rb = "fb_buffer fb"
  have inv: "rb_inv ?rb" using wf by (simp add: fb_wf_def)
  have bounds: "fb_pops fb \<le> rb_len ?rb" "rb_len ?rb + fb_pushes fb \<le> rb_cap ?rb" "rb_cap ?rb \<le> usize_max"
    using inv by (auto simp: fb_pops_def fb_pushes_def rb_inv_def)
  then have cap: "0 < rb_cap ?rb" using False by (auto simp: fb_pops_def)
  then have hd: "rb_head ?rb < rb_cap ?rb" using inv by (auto simp: rb_inv_def)
  have "ring_index (rb_head ?rb) (fb_pops fb) (rb_cap ?rb) = Inr (rb_slot ?rb (fb_pops fb))"
    using ring_index_ok[OF hd, of "fb_pops fb"] bounds by (simp add: rb_slot_def)
  then have "fb_flush fb = Inr (fb\<lparr>fb_popped := 0, fb_pushed := 0, fb_buffer :=
      ?rb\<lparr>rb_head := rb_slot ?rb (fb_pops fb), rb_len := rb_len ?rb - fb_pops fb + fb_pushes fb\<rparr>\<rparr>)"
    using False bounds
    by (auto simp: fb_flush_def rb_capacity_def clamp_count_min Let_def rb_set_len_def rb_set_head_def
        simp flip: fb_pops_def fb_pushes_def)
  moreover note rb_window[OF inv bounds(1,2) _ refl cap]
  ultimately show ?thesis using wf by (simp add: fb_wf_def fb_contents_def)
qed

lemma fb_wf_flushed: "fb_popped fb = 0 \<Longrightarrow> fb_pushed fb = 0 \<Longrightarrow> rb_inv (fb_buffer fb) \<Longrightarrow> fb_wf fb"
  by (simp add: fb_wf_def fb_pushes_def)

section \<open>The operations through an exclusive reference\<close>

lemma fb_push_ok:
  assumes "fb_wf fb" and "fb_push sz v fb = Inr fb'"
  shows "fb_wf fb' \<and> fb_contents fb' = fb_contents fb @ [v] \<and> fb_popped fb' = 0 \<and> fb_pushed fb' = 0"
proof -
  obtain fb1 where fb1: "fb_flush fb = Inr fb1" "fb_popped fb1 = 0" "fb_pushed fb1 = 0" "rb_inv (fb_buffer fb1)"
    "rb_contents (fb_buffer fb1) = fb_contents fb" using fb_flush_ok[OF assms(1)] by blast
  with assms(2) obtain rb where rb: "rb_push sz v (fb_buffer fb1) = Inr rb" "fb' = fb1\<lparr>fb_buffer := rb\<rparr>"
    by (auto simp: fb_push_def bind_res_Inr_conv)
  with fb1 rb_push_ok[OF fb1(4) rb(1)] show ?thesis by (simp add: fb_wf_flushed fb_contents_flushed)
qed

lemma fb_push_fault: "fb_wf fb \<Longrightarrow> fb_push sz v fb = Inl e \<Longrightarrow> e = Capacity_overflow"
proof -
  assume wf: "fb_wf fb" and push: "fb_push sz v fb = Inl e"
  obtain fb1 where fb1: "fb_flush fb = Inr fb1" "rb_inv (fb_buffer fb1)" using fb_flush_ok[OF wf] by blast
  with push have "rb_push sz v (fb_buffer fb1) = Inl e"
    by (cases "rb_push sz v (fb_buffer fb1)") (simp_all add: fb_push_def)
  with rb_push_fault[OF fb1(2)] show ?thesis by blast
qed

lemma fb_pop_ok:
  assumes "fb_wf fb"
  shows "\<exists>fb'. fb_pop fb = Inr (if fb_contents fb = [] then None else Some (hd (fb_contents fb)), fb') \<and>
    fb_wf fb' \<and> fb_contents fb' = tl (fb_contents fb) \<and> fb_popped fb' = 0 \<and> fb_pushed fb' = 0"
proof -
  obtain fb1 where fb1: "fb_flush fb = Inr fb1" "fb_popped fb1 = 0" "fb_pushed fb1 = 0" "rb_inv (fb_buffer fb1)"
    "rb_contents (fb_buffer fb1) = fb_contents fb" using fb_flush_ok[OF assms(1)] by blast
  show ?thesis
  proof (cases "fb_contents fb")
    case Nil
    with fb1 have "rb_len (fb_buffer fb1) = 0" by (metis length_rb_contents list.size(3))
    with fb1 Nil show ?thesis
      by (simp add: fb_pop_def rb_pop_empty fb_wf_flushed fb_contents_flushed)
  next
    case (Cons x xs)
    with rb_pop_ok[OF fb1(4)] fb1(5) obtain rb where
      "rb_pop (fb_buffer fb1) = Inr (Some x, rb)" "rb_inv rb" "rb_contents rb = xs" by metis
    with fb1 Cons show ?thesis by (simp add: fb_pop_def fb_wf_flushed fb_contents_flushed)
  qed
qed

section \<open>The operations through a shared reference\<close>

lemma rb_slot_less_cap: "rb_inv rb \<Longrightarrow> i < rb_cap rb \<Longrightarrow> rb_slot rb i < rb_cap rb"
  unfolding rb_slot_def by (rule mod_less_divisor) linarith

lemma rb_slot_inj: "rb_inv rb \<Longrightarrow> i < rb_cap rb \<Longrightarrow> j < rb_cap rb \<Longrightarrow> rb_slot rb i = rb_slot rb j \<longleftrightarrow> i = j"
  unfolding rb_slot_def using ring_slot_inj[of "rb_head rb" "rb_cap rb" i j] by (auto simp: rb_inv_def)

lemma rb_slot_index: "rb_inv rb \<Longrightarrow> i < rb_cap rb \<Longrightarrow> ring_index (rb_head rb) i (rb_cap rb) = Inr (rb_slot rb i)"
  unfolding rb_slot_def by (rule ring_index_ok) (auto simp: rb_inv_def)

lemma fb_push_slot_eq:
  assumes "rb_inv (fb_buffer fb)"
  shows "fb_push_slot n fb = Inr (if unat n < rb_cap (fb_buffer fb) - rb_len (fb_buffer fb)
    then Some (rb_slot (fb_buffer fb) (rb_len (fb_buffer fb) + unat n)) else None)"
  using assms rb_slot_index[OF assms, of "rb_len (fb_buffer fb) + unat n"]
  by (auto simp: fb_push_slot_def Let_def rb_capacity_def rb_inv_def)

lemma fb_pop_slot_eq:
  assumes "rb_inv (fb_buffer fb)"
  shows "fb_pop_slot n fb = Inr (if unat n < rb_len (fb_buffer fb) then Some (rb_slot (fb_buffer fb) (unat n)) else None)"
  using assms rb_slot_index[OF assms, of "unat n"]
  by (auto simp: fb_pop_slot_def Let_def rb_capacity_def rb_inv_def)

text \<open>A write to the slot of a granted push.\<close>

lemma rb_inv_write:
  assumes "rb_inv rb" and "rb_len rb \<le> j" and "j < rb_cap rb"
  shows "rb_inv (rb\<lparr>rb_array := (rb_array rb)[rb_slot rb j := Some v]\<rparr>)"
  using assms rb_slot_inj[OF assms(1), of _ j] rb_slot_less_cap[OF assms(1,3)]
  by (auto simp: rb_inv_def rb_slot_def nth_list_update)

lemma u64_incr: "unat (n::u64) + 1 < 2 ^ 64 \<Longrightarrow> unat (n + 1) = unat n + 1"
  using unat_add_lem[of n 1] by simp

lemma fb_push_sync_ok:
  assumes wf: "fb_wf fb" and count: "unat (fb_pushed fb) + 1 < 2 ^ 64"
  shows "\<exists>fb'. fb_push_sync v fb =
      Inr (if unat (fb_pushed fb) < rb_cap (fb_buffer fb) - rb_len (fb_buffer fb) then Inr () else Inl v, fb') \<and>
    fb_wf fb' \<and> fb_popped fb' = fb_popped fb \<and> fb_pushed fb' = fb_pushed fb + 1 \<and>
    fb_contents fb' = fb_contents fb @
      (if unat (fb_pushed fb) < rb_cap (fb_buffer fb) - rb_len (fb_buffer fb) then [v] else [])"
proof -
  let ?rb = "fb_buffer fb" and ?n = "unat (fb_pushed fb)" and ?fb1 = "fb\<lparr>fb_pushed := fb_pushed fb + 1\<rparr>"
  have inv: "rb_inv ?rb" using wf by (simp add: fb_wf_def)
  note incr = u64_incr[OF count]
  show ?thesis
  proof (cases "?n < rb_cap ?rb - rb_len ?rb")
    case False
    then have "fb_pushes ?fb1 = fb_pushes fb" "fb_pops ?fb1 = fb_pops fb"
      by (simp_all add: fb_pushes_def fb_pops_def incr)
    with False wf inv show ?thesis
      by (auto simp: fb_push_sync_def fb_push_reserve_def fb_push_slot_eq fb_wf_def fb_contents_def)
  next
    case True
    let ?j = "rb_len ?rb + ?n"
    let ?rb2 = "?rb\<lparr>rb_array := (rb_array ?rb)[rb_slot ?rb ?j := Some v]\<rparr>"
    let ?fb2 = "?fb1\<lparr>fb_buffer := ?rb2\<rparr>"
    have j: "?j < rb_cap ?rb" using True by simp
    have counts: "fb_pushes fb = ?n" "fb_pushes ?fb2 = ?n + 1" "fb_pops ?fb2 = fb_pops fb"
      using True by (simp_all add: fb_pushes_def fb_pops_def incr)
    have slot: "rb_slot ?rb2 i = rb_slot ?rb i" for i by (simp add: rb_slot_def)
    have cell: "(rb_array ?rb)[rb_slot ?rb ?j := Some v] ! rb_slot ?rb i = (if i = ?j then Some v else rb_array ?rb ! rb_slot ?rb i)"
      if "i < rb_cap ?rb" for i
      using rb_slot_inj[OF inv that j] rb_slot_less_cap[OF inv j] by (auto simp: nth_list_update)
    have "fb_push_sync v fb = Inr (Inr (), ?fb2)"
      using True inv rb_slot_less_cap[OF inv j]
      by (simp add: fb_push_sync_def fb_push_reserve_def fb_push_slot_eq fb_write_def write_cell_def)
    moreover have "fb_wf ?fb2"
      using wf counts cell slot j rb_inv_write[OF inv _ j, of v] by (auto simp: fb_wf_def less_Suc_eq)
    moreover have "fb_contents ?fb2 = fb_contents fb @ [v]"
      unfolding fb_contents_def counts
      using j by (auto simp: slot cell fb_pops_def min_def)
    ultimately show ?thesis using True by auto
  qed
qed

lemma fb_pop_sync_ok:
  assumes wf: "fb_wf fb" and count: "unat (fb_popped fb) + 1 < 2 ^ 64"
  shows "\<exists>fb'. fb_pop_sync fb =
      Inr (if unat (fb_popped fb) < rb_len (fb_buffer fb) then Some (hd (fb_contents fb)) else None, fb') \<and>
    fb_wf fb' \<and> fb_popped fb' = fb_popped fb + 1 \<and> fb_pushed fb' = fb_pushed fb \<and>
    fb_contents fb' = (if unat (fb_popped fb) < rb_len (fb_buffer fb) then tl (fb_contents fb) else fb_contents fb)"
proof -
  let ?rb = "fb_buffer fb" and ?n = "unat (fb_popped fb)" and ?fb1 = "fb\<lparr>fb_popped := fb_popped fb + 1\<rparr>"
  have inv: "rb_inv ?rb" using wf by (simp add: fb_wf_def)
  note incr = u64_incr[OF count]
  have wf1: "fb_wf ?fb1" using wf by (simp add: fb_wf_def fb_pushes_def)
  show ?thesis
  proof (cases "?n < rb_len ?rb")
    case False
    then have "fb_contents ?fb1 = fb_contents fb"
      by (simp add: fb_contents_def fb_pushes_def fb_pops_def incr)
    with False wf1 inv show ?thesis
      by (auto simp: fb_pop_sync_def fb_pop_reserve_def fb_pop_slot_eq)
  next
    case True
    have "?n < rb_len ?rb + fb_pushes fb" using True by simp
    then have c: "fb_contents fb = the (rb_array ?rb ! rb_slot ?rb ?n) # fb_contents ?fb1"
      using True by (simp add: fb_contents_def fb_pops_def fb_pushes_def incr upt_conv_Cons)
    have "rb_array ?rb ! rb_slot ?rb ?n \<noteq> None" "rb_slot ?rb ?n < rb_cap ?rb"
      using rb_inv_cell[OF inv True] rb_slot_less[OF inv True] by (simp_all add: rb_slot_def)
    then have "fb_pop_sync fb = Inr (Some (the (rb_array ?rb ! rb_slot ?rb ?n)), ?fb1)"
      using True inv by (auto simp: fb_pop_sync_def fb_pop_reserve_def fb_pop_slot_eq fb_read_def read_cell_def)
    with True wf1 c show ?thesis by auto
  qed
qed

interpretation flip_buffer: fifo fb_contents "\<lambda>_. fb_wf" "fb_push sz" fb_pop for sz :: nat
proof unfold_locales
  fix fb :: "'a flip_buffer" and x xs
  assume wf: "fb_wf fb"
  from fb_pop_ok[OF wf]
  show "fb_contents fb = [] \<Longrightarrow> \<exists>fb'. fb_pop fb = Inr (None, fb') \<and> fb_wf fb' \<and> fb_contents fb' = []"
    and "fb_contents fb = x # xs \<Longrightarrow> \<exists>fb'. fb_pop fb = Inr (Some x, fb') \<and> fb_wf fb' \<and> fb_contents fb' = xs"
    by auto
qed (auto dest: fb_push_ok fb_push_fault)

section \<open>The queue through shared references\<close>

text \<open>Valid, and \<open>n\<close> more calls cannot make a counter wrap around.\<close>

definition fq_inv :: "nat \<Rightarrow> 'a flip_queue \<Rightarrow> bool" where
  "fq_inv n q \<longleftrightarrow> fb_wf q \<and> unat (fb_popped q) + n < 2 ^ 64 \<and> unat (fb_pushed q) + n < 2 ^ 64"

lemma fq_inv_Suc:
  assumes "fq_inv (Suc n) q"
  shows "fb_wf q" "unat (fb_pushed q) + 1 < 2 ^ 64" "unat (fb_popped q) + 1 < 2 ^ 64" "n < 2 ^ 64"
  using assms by (auto simp: fq_inv_def)

lemma fq_push_sync_ok:
  assumes inv: "fq_inv (Suc n) q" and push: "fq_push_sync sz v q = Inr q'"
  shows "fq_inv n q' \<and> fb_contents q' = fb_contents q @ [v]"
proof (cases "unat (fb_pushed q) < rb_cap (fb_buffer q) - rb_len (fb_buffer q)")
  case True
  with push fb_push_sync_ok[OF fq_inv_Suc(1,2)[OF inv], of v] inv u64_incr[OF fq_inv_Suc(2)[OF inv]]
  show ?thesis by (auto simp: fq_push_sync_def fq_try_push_sync_def fq_inv_def)
next
  case False
  with fb_push_sync_ok[OF fq_inv_Suc(1,2)[OF inv], of v] obtain q1 where
    q1: "fb_push_sync v q = Inr (Inl v, q1)" "fb_wf q1" "fb_contents q1 = fb_contents q" by auto
  with push have "fb_push sz v q1 = Inr q'"
    by (simp add: fq_push_sync_def fq_try_push_sync_def fq_push_slow_def)
  with fb_push_ok[OF q1(2)] q1(3) fq_inv_Suc(4)[OF inv] show ?thesis by (auto simp: fq_inv_def)
qed

lemma fq_push_sync_fault:
  assumes inv: "fq_inv (Suc n) q" and push: "fq_push_sync sz v q = Inl e"
  shows "e = Capacity_overflow"
proof -
  from fb_push_sync_ok[OF fq_inv_Suc(1,2)[OF inv], of v] obtain r q1 where
    "fb_push_sync v q = Inr (r, q1)" "fb_wf q1" "r = Inr () \<or> r = Inl v" by (auto split: if_splits)
  with push have "fb_push sz v q1 = Inl e"
    by (auto simp: fq_push_sync_def fq_try_push_sync_def fq_push_slow_def)
  with fb_push_fault[OF \<open>fb_wf q1\<close>] show ?thesis by blast
qed

lemma fq_pop_sync_ok:
  assumes inv: "fq_inv (Suc n) q"
  shows "\<exists>q'. fq_pop_sync q = Inr (if fb_contents q = [] then None else Some (hd (fb_contents q)), q') \<and>
    fq_inv n q' \<and> fb_contents q' = tl (fb_contents q)"
proof (cases "unat (fb_popped q) < rb_len (fb_buffer q)")
  case True
  then have "fb_contents q \<noteq> []" by (simp add: fb_contents_def fb_pops_def)
  with True fb_pop_sync_ok[OF fq_inv_Suc(1,3)[OF inv]] inv u64_incr[OF fq_inv_Suc(3)[OF inv]]
  show ?thesis by (auto simp: fq_pop_sync_def fq_inv_def)
next
  case False
  with fb_pop_sync_ok[OF fq_inv_Suc(1,3)[OF inv]] obtain q1 where
    q1: "fb_pop_sync q = Inr (None, q1)" "fb_wf q1" "fb_contents q1 = fb_contents q"
      "fb_popped q1 = fb_popped q + 1" "fb_pushed q1 = fb_pushed q" by auto
  show ?thesis
  proof (cases "fb_pushed q = 0")
    case empty: True
    with False have "fb_contents q = []" by (simp add: fb_contents_def fb_pops_def fb_pushes_def)
    with q1 empty inv u64_incr[OF fq_inv_Suc(3)[OF inv]] show ?thesis by (simp add: fq_pop_sync_def fq_inv_def)
  next
    case pushed: False
    from fb_pop_ok[OF q1(2)] q1 pushed fq_inv_Suc(4)[OF inv] show ?thesis
      by (auto simp: fq_pop_sync_def fq_pop_slow_def fq_inv_def)
  qed
qed

interpretation flip_queue: fifo fb_contents fq_inv "fq_push_sync sz" fq_pop_sync for sz :: nat
proof unfold_locales
  fix n x xs and q :: "'a flip_queue"
  assume inv: "fq_inv (Suc n) q"
  from fq_pop_sync_ok[OF inv]
  show "fb_contents q = [] \<Longrightarrow> \<exists>q'. fq_pop_sync q = Inr (None, q') \<and> fq_inv n q' \<and> fb_contents q' = []"
    and "fb_contents q = x # xs \<Longrightarrow> \<exists>q'. fq_pop_sync q = Inr (Some x, q') \<and> fq_inv n q' \<and> fb_contents q' = xs"
    by auto
qed (auto dest: fq_push_sync_ok fq_push_sync_fault)

section \<open>Properties\<close>

lemma fq_new_total: "\<exists>q. fq_new sz = Inr (q :: 'a flip_queue)"
  using rb_new_total[of sz, where 'a = 'a] by (auto simp: fq_new_def fb_new_def)

lemma fq_new_ok:
  assumes "fq_new sz = Inr (q :: 'a flip_queue)"
  shows "fb_contents q = [] \<and> (n < 2 ^ 64 \<longrightarrow> fq_inv n q)"
  using rb_new_total[of sz, where 'a = 'a] assms
  by (auto simp: fq_new_def fb_new_def fq_inv_def fb_wf_flushed fb_contents_flushed)

text \<open>
  Claim C21. A new \<open>FlipQueue\<close> on which fewer than \<open>2^64\<close> calls of \<open>push_sync\<close> and \<open>pop_sync\<close> are made
  is a queue: the calls return what they return on a list, and they can fail only by the
  capacity limit of a push, also where \<open>push_sync\<close> has to grow the buffer and \<open>pop_sync\<close> has to flush
  it.
\<close>

theorem flip_queue_run_is_queue_run:
  assumes "fq_new sz = Inr q" and "length ops < 2 ^ 64"
  shows "case fifo_run (fq_push_sync sz) fq_pop_sync ops q of
      Inl e \<Rightarrow> e = Capacity_overflow
    | Inr (rs, q') \<Rightarrow> fifo_spec ops [] = (rs, fb_contents q')"
proof -
  have q: "fq_inv (length ops) q" "fb_contents q = []"
    using fq_new_ok[OF assms(1), of "length ops"] assms(2) by auto
  then show ?thesis
    using flip_queue.run_refines[OF q(1), of sz] flip_queue.run_fault[OF q(1), of sz]
    by (auto split: sum.splits)
qed

theorem flip_queue_run_is_queue_run_witness:
  "\<exists>q. fq_new 8 = Inr q \<and> (case fifo_run (fq_push_sync 8) fq_pop_sync [Push 3, Push 4, Pop, Pop, Pop] q of
      Inl e \<Rightarrow> e = Capacity_overflow
    | Inr (rs, q') \<Rightarrow> rs = [Some 3, Some 4, None] \<and> fb_contents q' = ([] :: nat list))"
proof -
  obtain q :: "nat flip_queue" where q: "fq_new 8 = Inr q" using fq_new_total[of 8] by blast
  from flip_queue_run_is_queue_run[OF q, of "[Push 3, Push 4, Pop, Pop, Pop]"] q show ?thesis
    by (auto split: sum.splits)
qed

text \<open>
  The flush makes the requested operations real: it never fails, empties both counters, and
  the ring buffer then holds what the queue held, that is, the granted pops have left at the head
  and the granted pushes have joined at the tail, however many requests were refused. So \<open>push\<close>,
  \<open>pop\<close> and \<open>swap_buffer\<close> work on the whole queue.
\<close>

theorem flush_applies_requests:
  assumes "fb_wf fb"
  shows "\<exists>fb1 fb2. fb_flush fb = Inr fb1 \<and> fb_popped fb1 = 0 \<and> fb_pushed fb1 = 0 \<and> rb_inv (fb_buffer fb1) \<and>
    rb_contents (fb_buffer fb1) = fb_contents fb \<and>
    length (fb_contents fb) = rb_len (fb_buffer fb) - fb_pops fb + fb_pushes fb \<and>
    fb_swap_buffer ring fb = Inr (fb_buffer fb1, fb1\<lparr>fb_buffer := ring\<rparr>) \<and>
    fb_pop fb = Inr (if fb_contents fb = [] then None else Some (hd (fb_contents fb)), fb2) \<and>
    fb_contents fb2 = tl (fb_contents fb)"
proof -
  obtain fb1 where "fb_flush fb = Inr fb1" "fb_popped fb1 = 0" "fb_pushed fb1 = 0" "rb_inv (fb_buffer fb1)"
    "rb_contents (fb_buffer fb1) = fb_contents fb" using fb_flush_ok[OF assms] by blast
  moreover have "length (fb_contents fb) = rb_len (fb_buffer fb) - fb_pops fb + fb_pushes fb"
    by (simp add: fb_contents_def fb_pops_def)
  ultimately show ?thesis using fb_pop_ok[OF assms] by (auto simp: fb_swap_buffer_def)
qed

text \<open>A buffer that wraps around, after one granted and no refused request of each kind.\<close>

definition flip_example :: "nat flip_buffer" where
  "flip_example = \<lparr>fb_buffer = \<lparr>rb_head = 2, rb_len = 2, rb_array = [Some 7, None, Some 5, Some 6]\<rparr>,
     fb_popped = 1, fb_pushed = 1\<rparr>"

lemma all_less_2: "(\<forall>i < 2. P i) \<longleftrightarrow> P 0 \<and> P (1::nat)"
  by (auto simp: numeral_eq_Suc less_Suc_eq)

lemma flip_example_wf: "fb_wf flip_example"
  by (simp add: flip_example_def fb_wf_def fb_pushes_def rb_inv_def rb_slot_def usize_max_def all_less_2)

theorem flush_applies_requests_witness:
  "\<exists>fb1. fb_flush flip_example = Inr fb1 \<and> rb_contents (fb_buffer fb1) = [6, 7]"
proof -
  have "fb_contents flip_example = [6, 7]"
    by (simp add: flip_example_def fb_contents_def fb_pops_def fb_pushes_def rb_slot_def upt_rec)
  with flush_applies_requests[OF flip_example_wf] show ?thesis by auto
qed

text \<open>
  Claim C37. \<open>FlipBuffer\<close> has no destructor that flushes. After a successful \<open>pop_sync\<close>, the first or a later one since the last
  flush, the destructor of the buffer (called when nobody uses the queue any more, with at most one element whose own destructor
  panics) drops exactly the elements that the ring buffer held at the flush, in order, each once: the returned element, at the
  position of the old counter, is among them and is dropped a second time, and so are the elements returned before it. The values
  \<open>ps\<close> of granted pushes, which the queue holds behind the others, are not dropped.
\<close>

theorem pop_sync_then_drop_drops_twice:
  assumes wf: "fb_wf fb" and pop: "fb_pop_sync fb = Inr (Some v, fb')"
    and one: "length (filter dp (rb_contents (fb_buffer fb))) \<le> 1"
  defines "elems \<equiv> rb_contents (fb_buffer fb)"
  shows "\<exists>ps. unat (fb_popped fb) < length elems \<and> elems ! unat (fb_popped fb) = v \<and>
    fb_drop dp fb' = Inr (elems, if \<exists>x \<in> set elems. dp x then Unwinding else Normal) \<and>
    fb_contents fb' = drop (Suc (unat (fb_popped fb))) elems @ ps \<and> length ps = fb_pushes fb"
proof -
  let ?rb = "fb_buffer fb" and ?k = "unat (fb_popped fb)"
  let ?f = "\<lambda>i. the (rb_array ?rb ! rb_slot ?rb i)"
  have inv: "rb_inv ?rb" using wf by (simp add: fb_wf_def)
  have k: "?k < rb_len ?rb"
    using pop inv by (auto simp: fb_pop_sync_def fb_pop_reserve_def fb_pop_slot_eq split: if_splits)
  have same: "fb_buffer fb' = ?rb" "fb_popped fb' = fb_popped fb + 1" "fb_pushed fb' = fb_pushed fb"
    using pop by (auto simp: fb_pop_sync_def fb_pop_reserve_def bind_res_Inr_conv split: option.splits)
  have elems: "elems = map ?f [0..<rb_len ?rb]" by (simp add: elems_def rb_contents_def rb_slot_def)
  have "v = ?f ?k"
    using pop inv k by (auto simp: fb_pop_sync_def fb_pop_reserve_def fb_pop_slot_eq fb_read_def bind_res_Inr_conv
        read_cell_def split: if_splits option.splits)
  then have v: "?k < length elems" "elems ! ?k = v" using k by (simp_all add: elems)
  have "fb_drop dp fb' = Inr (elems, if \<exists>x \<in> set elems. dp x then Unwinding else Normal)"
    using rb_drop_ok[OF inv one] by (simp add: fb_drop_def same elems_def filter_empty_conv)
  moreover have "unat (fb_popped fb + 1) = ?k + 1"
    using k inv by (intro u64_incr) (simp add: rb_inv_def usize_max_def)
  then have "fb_contents fb' = map ?f [Suc ?k..<rb_len ?rb + fb_pushes fb]"
    using k by (simp add: fb_contents_def fb_pops_def fb_pushes_def same)
  moreover have "[Suc ?k..<rb_len ?rb + fb_pushes fb] = [Suc ?k..<rb_len ?rb] @ [rb_len ?rb..<rb_len ?rb + fb_pushes fb]"
    using k by (intro upt_add_eq_append) simp
  then have "map ?f [Suc ?k..<rb_len ?rb + fb_pushes fb] = drop (Suc ?k) elems @ map ?f [rb_len ?rb..<rb_len ?rb + fb_pushes fb]"
    by (simp add: elems drop_map)
  ultimately show ?thesis using v by (intro exI[of _ "map ?f [rb_len ?rb..<rb_len ?rb + fb_pushes fb]"]) simp
qed

text \<open>The example has had one pop, which returned 5; the next returns 6. Then 5 and 6 are dropped and 7 is not.\<close>

theorem pop_sync_then_drop_drops_twice_witness:
  "\<exists>fb. fb_pop_sync flip_example = Inr (Some 6, fb) \<and> fb_contents fb = [7] \<and> fb_drop (\<lambda>_. False) fb = Inr ([5, 6], Normal)"
proof -
  have pop: "fb_pop_sync flip_example = Inr (Some 6, flip_example\<lparr>fb_popped := 2\<rparr>)"
    by (simp add: flip_example_def fb_pop_sync_def fb_pop_reserve_def fb_pop_slot_def Let_def rb_capacity_def
        ring_index_def fb_read_def read_cell_def usize_max_def)
  have "rb_contents (fb_buffer flip_example) = [5, 6]" "fb_contents (flip_example\<lparr>fb_popped := 2\<rparr>) = [7]"
    by (simp_all add: flip_example_def rb_contents_def fb_contents_def fb_pops_def fb_pushes_def rb_slot_def upt_rec)
  with pop_sync_then_drop_drops_twice[OF flip_example_wf pop, of "\<lambda>_. False"] pop show ?thesis by auto
qed

end
