(* ===== verification/Flip_Race.thy ===== *)
theory Flip_Race
  imports Flip_Queue "HOL-Library.Multiset"
begin

text \<open>
  A \<open>FlipQueue\<close> used by any number of threads: \<open>push_sync\<close> and \<open>pop_sync\<close> of \<open>src/src/flip_queue.rs\<close>
  are taken apart into the atomic \<open>fetch_add\<close> and the access to the slot, and the accesses of
  different calls interleave in any order.

  A granted call is outstanding from its \<open>fetch_add\<close> to its access, and holds the read lock
  meanwhile. The operations under the write lock (\<open>push_slow\<close>, \<open>pop_slow\<close>, \<open>drain_locking\<close>,
  \<open>swap_buffer\<close>) and through \<open>&mut\<close> are steps that need that no call is outstanding: this is the exclusion that the lock provides
  (\<open>Flip_Lock\<close> derives it from the lock) and that the borrow checker provides for \<open>&mut\<close>. Fewer
  than \<open>2^64\<close> requests are made between two flushes, which is what the counters are sized for. The order
  in which the outstanding calls are listed is arbitrary.

  The history is recorded beside the state: \<open>fs_in\<close> are the accepted values in the order of their
  \<open>fetch_add\<close> (or exclusive push; those of a buffer that is swapped in come in its order), position \<open>p\<close> of it is
  the \<open>p\<close>-th value, and \<open>fs_got\<close> are the positions and values that have left the queue: returned by a pop or
  the \<open>next\<close> of a drain, dropped by a drain or \<open>clear\<close>, or handed out with a buffer that is swapped out.
\<close>

section \<open>The system\<close>

record 'a flip_system =
  fs_fb :: "'a flip_buffer"
  fs_writes :: "(nat \<times> 'a) list"   \<comment> \<open>slot and value of granted pushes not yet written\<close>
  fs_reads :: "(nat \<times> nat) list"   \<comment> \<open>slot and position of granted pops not yet read\<close>
  fs_in :: "'a list"
  fs_base :: nat                     \<comment> \<open>positions popped before the last flush\<close>
  fs_got :: "(nat \<times> 'a) list"

definition flip_init :: "nat \<Rightarrow> 'a flip_system \<Rightarrow> bool" where
  "flip_init sz s \<longleftrightarrow>
     (fq_new sz = Inr (fs_fb s) \<or> (\<exists>cap \<le> usize_max. fq_with_capacity sz cap = Inr (fs_fb s))) \<and> fs_writes s = [] \<and> fs_reads s = [] \<and>
     fs_in s = [] \<and> fs_base s = 0 \<and> fs_got s = []"

text \<open>All values from position \<open>b\<close> on leave the queue.\<close>

definition flip_empties :: "'a list \<Rightarrow> 'a flip_system \<Rightarrow> nat \<Rightarrow> 'a flip_system" where
  "flip_empties vs s b = s\<lparr>fs_base := b + length vs, fs_got := fs_got s @ zip [b..<b + length vs] vs\<rparr>"

inductive flip_step :: "nat \<Rightarrow> 'a flip_system \<Rightarrow> 'a flip_system \<Rightarrow> bool" for sz where
  push_granted: "fb_push_reserve (fs_fb s) = (n, fb) \<Longrightarrow> unat n + 1 < 2 ^ 64 \<Longrightarrow>
    fb_push_slot n fb = Inr (Some idx) \<Longrightarrow> fs_writes s = xs @ ys \<Longrightarrow>
    flip_step sz s (s\<lparr>fs_fb := fb, fs_writes := xs @ (idx, v) # ys, fs_in := fs_in s @ [v]\<rparr>)"
| push_refused: "fb_push_reserve (fs_fb s) = (n, fb) \<Longrightarrow> unat n + 1 < 2 ^ 64 \<Longrightarrow>
    fb_push_slot n fb = Inr None \<Longrightarrow> flip_step sz s (s\<lparr>fs_fb := fb\<rparr>)"
| push_writes: "fs_writes s = xs @ (idx, v) # ys \<Longrightarrow> fb_write idx v (fs_fb s) = Inr fb \<Longrightarrow>
    flip_step sz s (s\<lparr>fs_fb := fb, fs_writes := xs @ ys\<rparr>)"
| pop_granted: "fb_pop_reserve (fs_fb s) = (n, fb) \<Longrightarrow> unat n + 1 < 2 ^ 64 \<Longrightarrow>
    fb_pop_slot n fb = Inr (Some idx) \<Longrightarrow> fs_reads s = xs @ ys \<Longrightarrow>
    flip_step sz s (s\<lparr>fs_fb := fb, fs_reads := xs @ (idx, fs_base s + unat n) # ys\<rparr>)"
| pop_refused: "fb_pop_reserve (fs_fb s) = (n, fb) \<Longrightarrow> unat n + 1 < 2 ^ 64 \<Longrightarrow>
    fb_pop_slot n fb = Inr None \<Longrightarrow> flip_step sz s (s\<lparr>fs_fb := fb\<rparr>)"
| pop_reads: "fs_reads s = xs @ (idx, p) # ys \<Longrightarrow> fb_read idx (fs_fb s) = Inr v \<Longrightarrow>
    flip_step sz s (s\<lparr>fs_reads := xs @ ys, fs_got := fs_got s @ [(p, v)]\<rparr>)"
| flush_exclusive: "fs_writes s = [] \<Longrightarrow> fs_reads s = [] \<Longrightarrow> fb_flush (fs_fb s) = Inr fb \<Longrightarrow>
    flip_step sz s (s\<lparr>fs_fb := fb, fs_base := fs_base s + fb_pops (fs_fb s)\<rparr>)"
| push_exclusive: "fs_writes s = [] \<Longrightarrow> fs_reads s = [] \<Longrightarrow> fb_push sz v (fs_fb s) = Inr fb \<Longrightarrow>
    flip_step sz s (s\<lparr>fs_fb := fb, fs_in := fs_in s @ [v], fs_base := fs_base s + fb_pops (fs_fb s)\<rparr>)"
| pop_exclusive: "fs_writes s = [] \<Longrightarrow> fs_reads s = [] \<Longrightarrow> fb_pop (fs_fb s) = Inr (Some v, fb) \<Longrightarrow>
    flip_step sz s (s\<lparr>fs_fb := fb, fs_base := Suc (fs_base s + fb_pops (fs_fb s)),
      fs_got := fs_got s @ [(fs_base s + fb_pops (fs_fb s), v)]\<rparr>)"
| pop_exclusive_empty: "fs_writes s = [] \<Longrightarrow> fs_reads s = [] \<Longrightarrow> fb_pop (fs_fb s) = Inr (None, fb) \<Longrightarrow>
    flip_step sz s (s\<lparr>fs_fb := fb, fs_base := fs_base s + fb_pops (fs_fb s)\<rparr>)"
| clear_exclusive: "fs_writes s = [] \<Longrightarrow> fs_reads s = [] \<Longrightarrow> fb_flush (fs_fb s) = Inr fb \<Longrightarrow>
    rb_clear dp (fb_buffer fb) = Inr (rb, dropped) \<Longrightarrow>
    flip_step sz s (flip_empties (rb_contents (fb_buffer fb)) (s\<lparr>fs_fb := fb\<lparr>fb_buffer := rb\<rparr>\<rparr>)
      (fs_base s + fb_pops (fs_fb s)))"
| swap_exclusive: "fs_writes s = [] \<Longrightarrow> fs_reads s = [] \<Longrightarrow> rb_inv ring \<Longrightarrow>
    fb_swap_buffer ring (fs_fb s) = Inr (old, fb) \<Longrightarrow>
    flip_step sz s (flip_empties (rb_contents old) (s\<lparr>fs_fb := fb, fs_in := fs_in s @ rb_contents ring\<rparr>)
      (fs_base s + fb_pops (fs_fb s)))"

inductive_cases flip_step_cases: "flip_step sz s t"

section \<open>Invariant\<close>

text \<open>
  The cells: position \<open>b + i\<close> is in slot \<open>i\<close> for every \<open>i\<close> up to the granted pushes, except where the
  write is still outstanding.
\<close>

definition flip_cells :: "'a flip_buffer \<Rightarrow> (nat \<times> 'a) list \<Rightarrow> 'a list \<Rightarrow> nat \<Rightarrow> bool" where
  "flip_cells fb ws vs b \<longleftrightarrow>
     rb_inv (fb_buffer fb) \<and> length vs = b + rb_len (fb_buffer fb) + fb_pushes fb \<and>
     (\<forall>i < rb_len (fb_buffer fb) + fb_pushes fb.
        rb_array (fb_buffer fb) ! rb_slot (fb_buffer fb) i = Some (vs ! (b + i)) \<or>
        rb_len (fb_buffer fb) \<le> i \<and> (rb_slot (fb_buffer fb) i, vs ! (b + i)) \<in> set ws)"

definition flip_writes_ok :: "'a flip_buffer \<Rightarrow> (nat \<times> 'a) list \<Rightarrow> 'a list \<Rightarrow> nat \<Rightarrow> bool" where
  "flip_writes_ok fb ws vs b \<longleftrightarrow> distinct (map fst ws) \<and>
     (\<forall>(idx, v) \<in> set ws. \<exists>i. rb_len (fb_buffer fb) \<le> i \<and> i < rb_len (fb_buffer fb) + fb_pushes fb \<and>
        idx = rb_slot (fb_buffer fb) i \<and> v = vs ! (b + i))"

definition flip_reads_ok :: "'a flip_buffer \<Rightarrow> (nat \<times> nat) list \<Rightarrow> nat \<Rightarrow> bool" where
  "flip_reads_ok fb rs b \<longleftrightarrow>
     (\<forall>(idx, p) \<in> set rs. b \<le> p \<and> p < b + fb_pops fb \<and> idx = rb_slot (fb_buffer fb) (p - b))"

text \<open>Every position below \<open>k\<close> has been returned with its value or is being read, once.\<close>

definition flip_got_ok :: "(nat \<times> 'a) list \<Rightarrow> (nat \<times> nat) list \<Rightarrow> 'a list \<Rightarrow> nat \<Rightarrow> bool" where
  "flip_got_ok got rs vs k \<longleftrightarrow> (\<forall>(p, v) \<in> set got. v = vs ! p) \<and>
     distinct (map fst got @ map snd rs) \<and> set (map fst got @ map snd rs) = {..<k}"

definition flip_inv :: "'a flip_system \<Rightarrow> bool" where
  "flip_inv s \<longleftrightarrow>
     flip_cells (fs_fb s) (fs_writes s) (fs_in s) (fs_base s) \<and>
     flip_writes_ok (fs_fb s) (fs_writes s) (fs_in s) (fs_base s) \<and>
     flip_reads_ok (fs_fb s) (fs_reads s) (fs_base s) \<and>
     flip_got_ok (fs_got s) (fs_reads s) (fs_in s) (fs_base s + fb_pops (fs_fb s))"

lemma fb_pushes_room: "rb_inv (fb_buffer fb) \<Longrightarrow> rb_len (fb_buffer fb) + fb_pushes fb \<le> rb_cap (fb_buffer fb)"
  by (auto simp: fb_pushes_def rb_inv_def)

lemma fb_pops_le: "fb_pops fb \<le> rb_len (fb_buffer fb)"
  by (simp add: fb_pops_def)

lemma flip_cells_wf:
  assumes "flip_cells fb [] vs b"
  shows "fb_wf fb \<and> fb_contents fb = drop (b + fb_pops fb) vs"
proof -
  have "fb_wf fb" using assms by (auto simp: flip_cells_def fb_wf_def)
  moreover have "fb_contents fb = drop (b + fb_pops fb) vs"
    using assms fb_pops_le[of fb] by (intro nth_equalityI) (auto simp: flip_cells_def fb_contents_def add.assoc)
  ultimately show ?thesis ..
qed

lemma flip_cells_flushed:
  assumes "rb_inv (fb_buffer fb)" and "fb_popped fb = 0" and "fb_pushed fb = 0"
    and "rb_contents (fb_buffer fb) = drop b vs" and "b \<le> length vs"
  shows "flip_cells fb [] vs b" "fb_pops fb = 0" "fb_pushes fb = 0"
proof -
  have len: "rb_len (fb_buffer fb) = length vs - b" using assms(4) by (metis length_rb_contents length_drop)
  have "rb_array (fb_buffer fb) ! rb_slot (fb_buffer fb) i = Some (vs ! (b + i))" if "i < rb_len (fb_buffer fb)" for i
    using rb_inv_cell[OF assms(1) that] rb_contents_nth[OF that] assms(4,5) by (auto simp: rb_slot_def)
  with assms len show "flip_cells fb [] vs b" by (simp add: flip_cells_def fb_pushes_def)
  show "fb_pops fb = 0" "fb_pushes fb = 0" using assms by (simp_all add: fb_pops_def fb_pushes_def)
qed

lemma fq_created:
  assumes "fq_new sz = Inr q \<or> (\<exists>cap \<le> usize_max. fq_with_capacity sz cap = Inr q)"
  shows "rb_inv (fb_buffer q) \<and> rb_contents (fb_buffer q) = [] \<and> fb_popped q = 0 \<and> fb_pushed q = 0"
  using assms
proof
  assume "fq_new sz = Inr q"
  with rb_new_total[of sz, where 'a = 'a] show ?thesis by (auto simp: fq_new_def fb_new_def)
next
  assume "\<exists>cap \<le> usize_max. fq_with_capacity sz cap = Inr q"
  then show ?thesis
    by (auto simp: fq_with_capacity_def fb_with_capacity_def bind_res_Inr_conv dest!: rb_with_capacity_ok)
qed

lemma flip_inv_init: "flip_init sz s \<Longrightarrow> flip_inv s"
proof -
  assume s: "flip_init sz s"
  then have "rb_inv (fb_buffer (fs_fb s))" "rb_contents (fb_buffer (fs_fb s)) = drop 0 []"
    "fb_popped (fs_fb s) = 0" "fb_pushed (fs_fb s) = 0"
    using fq_created[of sz "fs_fb s"] by (simp_all add: flip_init_def)
  from flip_cells_flushed[OF this(1,3,4,2)] s show ?thesis
    by (simp add: flip_inv_def flip_init_def flip_writes_ok_def flip_reads_ok_def flip_got_ok_def)
qed

section \<open>The steps keep the invariant\<close>

lemma flip_inv_length:
  "flip_inv s \<Longrightarrow> fs_base s + fb_pops (fs_fb s) \<le> length (fs_in s)"
  using fb_pops_le[of "fs_fb s"] by (simp add: flip_inv_def flip_cells_def)

lemma flip_inv_rb: "flip_inv s \<Longrightarrow> rb_inv (fb_buffer (fs_fb s))"
  by (simp add: flip_inv_def flip_cells_def)

lemma flip_got_snoc: "flip_got_ok got rs vs k \<Longrightarrow> k \<le> length vs \<Longrightarrow> flip_got_ok got rs (vs @ [v]) k"
proof -
  assume got: "flip_got_ok got rs vs k" and k: "k \<le> length vs"
  have "p < k" if "(p, w) \<in> set got" for p w
  proof -
    have "p \<in> set (map fst got @ map snd rs)" using that by force
    then show ?thesis using got unfolding flip_got_ok_def by blast
  qed
  then have "w = (vs @ [v]) ! p" if "(p, w) \<in> set got" for p w
    using got k that by (fastforce simp: flip_got_ok_def nth_append)
  with got show ?thesis by (auto simp: flip_got_ok_def)
qed

lemma flip_push_granted_last:
  assumes inv: "flip_inv s" and res: "fb_push_reserve (fs_fb s) = (n, fb)" and count: "unat n + 1 < 2 ^ 64"
    and slot: "fb_push_slot n fb = Inr (Some idx)"
  shows "flip_inv (s\<lparr>fs_fb := fb, fs_writes := fs_writes s @ [(idx, v)], fs_in := fs_in s @ [v]\<rparr>)"
proof -
  let ?f = "fs_fb s"
  let ?rb = "fb_buffer ?f"
  have fb: "fb = ?f\<lparr>fb_pushed := n + 1\<rparr>" "n = fb_pushed ?f" using res by (auto simp: fb_push_reserve_def)
  note rbi = flip_inv_rb[OF inv]
  have room: "unat n < rb_cap ?rb - rb_len ?rb" "idx = rb_slot ?rb (rb_len ?rb + unat n)"
    using slot rbi by (auto simp: fb fb_push_slot_eq split: if_splits)
  have counts: "fb_pushes ?f = unat n" "fb_pushes fb = unat n + 1" "fb_pops fb = fb_pops ?f" "fb_buffer fb = ?rb"
    using room(1) by (simp_all add: fb_pushes_def fb_pops_def fb(1) u64_incr[OF count] flip: fb(2))
  have len: "length (fs_in s) = fs_base s + rb_len ?rb + unat n"
    using inv counts(1) by (simp add: flip_inv_def flip_cells_def)
  have "flip_cells fb (fs_writes s @ [(idx, v)]) (fs_in s @ [v]) (fs_base s)"
    using inv room(2) len
    by (auto simp: flip_inv_def flip_cells_def counts nth_append less_Suc_eq)
  moreover have "flip_writes_ok fb (fs_writes s @ [(idx, v)]) (fs_in s @ [v]) (fs_base s)"
  proof -
    have top: "rb_len ?rb + unat n < rb_cap ?rb" using room(1) by linarith
    have "idx \<noteq> rb_slot ?rb i" if "i < rb_len ?rb + unat n" for i
      using rb_slot_inj[OF rbi _ top, of i] that room(2) top by auto
    then have "idx \<notin> set (map fst (fs_writes s))"
      using inv by (force simp: flip_inv_def flip_writes_ok_def counts)
    moreover have "\<exists>i. rb_len ?rb \<le> i \<and> i < rb_len ?rb + (unat n + 1) \<and>
        i' = rb_slot ?rb i \<and> v' = (fs_in s @ [v]) ! (fs_base s + i)" if "(i', v') \<in> set (fs_writes s)" for i' v'
    proof -
      from inv that obtain i where "rb_len ?rb \<le> i" "i < rb_len ?rb + unat n" "i' = rb_slot ?rb i"
        "v' = fs_in s ! (fs_base s + i)" by (force simp: flip_inv_def flip_writes_ok_def counts)
      with len show ?thesis by (intro exI[of _ i]) (simp add: nth_append)
    qed
    moreover have "\<exists>i. rb_len ?rb \<le> i \<and> i < rb_len ?rb + (unat n + 1) \<and>
        idx = rb_slot ?rb i \<and> v = (fs_in s @ [v]) ! (fs_base s + i)"
      using room(2) len by (intro exI[of _ "rb_len ?rb + unat n"]) (simp add: nth_append add.assoc)
    moreover have "distinct (map fst (fs_writes s))" using inv by (simp add: flip_inv_def flip_writes_ok_def)
    ultimately show ?thesis unfolding flip_writes_ok_def counts by auto
  qed
  moreover have "flip_reads_ok fb (fs_reads s) (fs_base s)"
    using inv by (simp add: flip_inv_def flip_reads_ok_def counts)
  moreover have "flip_got_ok (fs_got s) (fs_reads s) (fs_in s @ [v]) (fs_base s + fb_pops fb)"
    using inv flip_got_snoc[OF _ flip_inv_length[OF inv]] unfolding flip_inv_def counts by blast
  ultimately show ?thesis by (simp add: flip_inv_def)
qed

lemma flip_push_refused:
  assumes inv: "flip_inv s" and res: "fb_push_reserve (fs_fb s) = (n, fb)" and count: "unat n + 1 < 2 ^ 64"
    and slot: "fb_push_slot n fb = Inr None"
  shows "flip_inv (s\<lparr>fs_fb := fb\<rparr>)"
proof -
  have fb: "fb = (fs_fb s)\<lparr>fb_pushed := n + 1\<rparr>" "n = fb_pushed (fs_fb s)"
    using res by (auto simp: fb_push_reserve_def)
  have "\<not> unat n < rb_cap (fb_buffer (fs_fb s)) - rb_len (fb_buffer (fs_fb s))"
    using slot flip_inv_rb[OF inv] by (auto simp: fb fb_push_slot_eq split: if_splits)
  then have "fb_pushes fb = fb_pushes (fs_fb s)" "fb_pops fb = fb_pops (fs_fb s)"
    "fb_buffer fb = fb_buffer (fs_fb s)"
    by (simp_all add: fb_pushes_def fb_pops_def fb(1) u64_incr[OF count] flip: fb(2))
  with inv show ?thesis
    by (simp add: flip_inv_def flip_cells_def flip_writes_ok_def flip_reads_ok_def)
qed

lemma flip_push_writes:
  assumes inv: "flip_inv s" and ws: "fs_writes s = xs @ (idx, v) # ys" and wr: "fb_write idx v (fs_fb s) = Inr fb"
  shows "flip_inv (s\<lparr>fs_fb := fb, fs_writes := xs @ ys\<rparr>)"
proof -
  let ?f = "fs_fb s"
  let ?rb = "fb_buffer ?f"
  note rbi = flip_inv_rb[OF inv]
  have fb: "fb = ?f\<lparr>fb_buffer := ?rb\<lparr>rb_array := (rb_array ?rb)[idx := Some v]\<rparr>\<rparr>"
    using wr by (auto simp: fb_write_def write_cell_def split: if_splits)
  obtain j where j: "rb_len ?rb \<le> j" "j < rb_len ?rb + fb_pushes ?f" "idx = rb_slot ?rb j"
    "v = fs_in s ! (fs_base s + j)"
    using inv ws by (auto simp: flip_inv_def flip_writes_ok_def)
  have jcap: "j < rb_cap ?rb" using j(2) fb_pushes_room[OF rbi] by simp
  have counts: "fb_pushes fb = fb_pushes ?f" "fb_pops fb = fb_pops ?f" "rb_len (fb_buffer fb) = rb_len ?rb"
    "rb_slot (fb_buffer fb) = rb_slot ?rb"
    by (auto simp: fb fb_pushes_def fb_pops_def rb_slot_def)
  have ne: "rb_slot ?rb i \<noteq> rb_slot ?rb j" if "i < rb_len ?rb + fb_pushes ?f" "i \<noteq> j" for i
    using rb_slot_inj[OF rbi _ jcap, of i] that fb_pushes_room[OF rbi] by simp
  have cell: "rb_array (fb_buffer fb) ! rb_slot ?rb i = (if i = j then Some v else rb_array ?rb ! rb_slot ?rb i)"
    if "i < rb_len ?rb + fb_pushes ?f" for i
    using ne[OF that] rb_slot_less_cap[OF rbi jcap] by (auto simp: fb j(3) nth_list_update)
  have "rb_inv (fb_buffer fb)" using rb_inv_write[OF rbi j(1) jcap, of v] by (simp add: fb j(3))
  moreover have "rb_array (fb_buffer fb) ! rb_slot ?rb i = Some (fs_in s ! (fs_base s + i)) \<or>
      rb_len ?rb \<le> i \<and> (rb_slot ?rb i, fs_in s ! (fs_base s + i)) \<in> set (xs @ ys)"
    if i: "i < rb_len ?rb + fb_pushes ?f" for i
  proof (cases "i = j")
    case True
    with cell[OF i] j(4) show ?thesis by simp
  next
    case False
    with cell[OF i] ne[OF i False] j(3) inv ws i show ?thesis by (auto simp: flip_inv_def flip_cells_def)
  qed
  ultimately have "flip_cells fb (xs @ ys) (fs_in s) (fs_base s)"
    using inv by (simp add: flip_inv_def flip_cells_def counts)
  moreover have "flip_writes_ok fb (xs @ ys) (fs_in s) (fs_base s)"
    using inv ws by (auto simp: flip_inv_def flip_writes_ok_def counts)
  moreover have "flip_reads_ok fb (fs_reads s) (fs_base s)"
    using inv by (simp add: flip_inv_def flip_reads_ok_def counts)
  ultimately show ?thesis using inv by (simp add: flip_inv_def counts)
qed

lemma flip_pop_granted_last:
  assumes inv: "flip_inv s" and res: "fb_pop_reserve (fs_fb s) = (n, fb)" and count: "unat n + 1 < 2 ^ 64"
    and slot: "fb_pop_slot n fb = Inr (Some idx)"
  shows "flip_inv (s\<lparr>fs_fb := fb, fs_reads := fs_reads s @ [(idx, fs_base s + unat n)]\<rparr>)"
proof -
  let ?f = "fs_fb s"
  have fb: "fb = ?f\<lparr>fb_popped := n + 1\<rparr>" "n = fb_popped ?f" using res by (auto simp: fb_pop_reserve_def)
  have room: "unat n < rb_len (fb_buffer ?f)" "idx = rb_slot (fb_buffer ?f) (unat n)"
    using slot flip_inv_rb[OF inv] by (auto simp: fb fb_pop_slot_eq split: if_splits)
  have counts: "fb_pops ?f = unat n" "fb_pops fb = unat n + 1" "fb_pushes fb = fb_pushes ?f"
    "fb_buffer fb = fb_buffer ?f"
    using room(1) by (simp_all add: fb_pushes_def fb_pops_def fb(1) u64_incr[OF count] flip: fb(2))
  have "flip_cells fb (fs_writes s) (fs_in s) (fs_base s)" "flip_writes_ok fb (fs_writes s) (fs_in s) (fs_base s)"
    using inv by (simp_all add: flip_inv_def flip_cells_def flip_writes_ok_def counts)
  moreover have "flip_reads_ok fb (fs_reads s @ [(idx, fs_base s + unat n)]) (fs_base s)"
    using inv room(2) by (auto simp: flip_inv_def flip_reads_ok_def counts)
  moreover have "flip_got_ok (fs_got s) (fs_reads s @ [(idx, fs_base s + unat n)]) (fs_in s) (fs_base s + fb_pops fb)"
  proof -
    have got: "flip_got_ok (fs_got s) (fs_reads s) (fs_in s) (fs_base s + unat n)"
      using inv by (simp add: flip_inv_def counts)
    have "set (map fst (fs_got s) @ map snd (fs_reads s)) = {..<fs_base s + unat n}"
      using got unfolding flip_got_ok_def by blast
    then have "fs_base s + unat n \<notin> set (map fst (fs_got s) @ map snd (fs_reads s))" by simp
    with got show ?thesis by (auto simp: flip_got_ok_def counts lessThan_Suc)
  qed
  ultimately show ?thesis by (simp add: flip_inv_def)
qed

lemma flip_pop_refused:
  assumes inv: "flip_inv s" and res: "fb_pop_reserve (fs_fb s) = (n, fb)" and count: "unat n + 1 < 2 ^ 64"
    and slot: "fb_pop_slot n fb = Inr None"
  shows "flip_inv (s\<lparr>fs_fb := fb\<rparr>)"
proof -
  have fb: "fb = (fs_fb s)\<lparr>fb_popped := n + 1\<rparr>" "n = fb_popped (fs_fb s)"
    using res by (auto simp: fb_pop_reserve_def)
  have "\<not> unat n < rb_len (fb_buffer (fs_fb s))"
    using slot flip_inv_rb[OF inv] by (auto simp: fb fb_pop_slot_eq split: if_splits)
  then have "fb_pushes fb = fb_pushes (fs_fb s)" "fb_pops fb = fb_pops (fs_fb s)"
    "fb_buffer fb = fb_buffer (fs_fb s)"
    by (simp_all add: fb_pushes_def fb_pops_def fb(1) u64_incr[OF count] flip: fb(2))
  with inv show ?thesis
    by (simp add: flip_inv_def flip_cells_def flip_writes_ok_def flip_reads_ok_def)
qed

text \<open>A granted write is in bounds, and a granted read finds the value of its position.\<close>

lemma flip_write_ok:
  assumes inv: "flip_inv s" and w: "(idx, v) \<in> set (fs_writes s)"
  shows "\<exists>fb. fb_write idx v (fs_fb s) = Inr fb"
proof -
  note rbi = flip_inv_rb[OF inv]
  from inv w obtain i where "i < rb_len (fb_buffer (fs_fb s)) + fb_pushes (fs_fb s)" "idx = rb_slot (fb_buffer (fs_fb s)) i"
    unfolding flip_inv_def flip_writes_ok_def by blast
  then have "idx < rb_cap (fb_buffer (fs_fb s))" using rb_slot_less_cap[OF rbi] fb_pushes_room[OF rbi] by simp
  then show ?thesis by (simp add: fb_write_def write_cell_def)
qed

lemma flip_read_value:
  assumes inv: "flip_inv s" and r: "(idx, p) \<in> set (fs_reads s)"
  shows "fb_read idx (fs_fb s) = Inr (fs_in s ! p)"
proof -
  let ?rb = "fb_buffer (fs_fb s)"
  from inv r have p: "fs_base s \<le> p" "p < fs_base s + fb_pops (fs_fb s)" "idx = rb_slot ?rb (p - fs_base s)"
    by (auto simp: flip_inv_def flip_reads_ok_def)
  then have i: "p - fs_base s < rb_len ?rb" using fb_pops_le[of "fs_fb s"] by linarith
  then have "rb_array ?rb ! idx = Some (fs_in s ! p)"
    using inv p(1,3) by (auto simp: flip_inv_def flip_cells_def dest!: spec[of _ "p - fs_base s"])
  then show ?thesis
    using rb_slot_less[OF flip_inv_rb[OF inv] i] p(3) by (simp add: fb_read_def read_cell_def rb_slot_def)
qed

lemma flip_pop_reads:
  assumes inv: "flip_inv s" and rs: "fs_reads s = xs @ (idx, p) # ys" and rd: "fb_read idx (fs_fb s) = Inr v"
  shows "flip_inv (s\<lparr>fs_reads := xs @ ys, fs_got := fs_got s @ [(p, v)]\<rparr>)"
proof -
  have "v = fs_in s ! p" using flip_read_value[OF inv, of idx p] rs rd by simp
  with inv rs show ?thesis by (auto simp: flip_inv_def flip_reads_ok_def flip_got_ok_def)
qed

text \<open>With nothing outstanding an exclusive operation finds the queue and leaves it flushed.\<close>

lemma flip_idle:
  assumes "flip_inv s" and "fs_writes s = []" and "fs_reads s = []"
  shows "fb_wf (fs_fb s)" "fb_contents (fs_fb s) = drop (fs_base s + fb_pops (fs_fb s)) (fs_in s)"
    "flip_got_ok (fs_got s) [] (fs_in s) (fs_base s + fb_pops (fs_fb s))"
  using assms flip_cells_wf by (fastforce simp: flip_inv_def)+

lemma flip_inv_flushed:
  assumes "fb_wf (fs_fb t)" and "fb_popped (fs_fb t) = 0" and "fb_pushed (fs_fb t) = 0"
    and "fb_contents (fs_fb t) = drop (fs_base t) (fs_in t)" and "fs_base t \<le> length (fs_in t)"
    and "fs_writes t = []" and "fs_reads t = []" and "flip_got_ok (fs_got t) [] (fs_in t) (fs_base t)"
  shows "flip_inv t"
proof -
  have "rb_inv (fb_buffer (fs_fb t))" "rb_contents (fb_buffer (fs_fb t)) = drop (fs_base t) (fs_in t)"
    using assms by (simp_all add: fb_wf_def flip: fb_contents_flushed)
  from flip_cells_flushed[OF this(1) assms(2,3) this(2) assms(5)] assms(6-8) show ?thesis
    by (simp add: flip_inv_def flip_writes_ok_def flip_reads_ok_def)
qed

text \<open>The rest of the values leave the queue, and others may come in.\<close>

lemma flip_got_append:
  assumes "flip_got_ok got rs vs k" and "k \<le> length vs"
  shows "flip_got_ok got rs (vs @ ws) k"
proof (induction ws rule: rev_induct)
  case (snoc w ws)
  from flip_got_snoc[OF snoc, of w] assms(2) show ?case by simp
qed (use assms in simp)

lemma flip_got_rest:
  assumes got: "flip_got_ok got [] vs k" and k: "k \<le> length vs"
  shows "flip_got_ok (got @ zip [k..<length vs] (drop k vs)) [] vs (length vs)"
proof -
  have "fst ` set got = {..<k}" using got by (simp add: flip_got_ok_def)
  moreover have "map fst (zip [k..<length vs] (drop k vs)) = [k..<length vs]" by simp
  moreover have "v = vs ! p" if "(p, v) \<in> set (zip [k..<length vs] (drop k vs))" for p v
    using that k by (auto simp: in_set_zip)
  ultimately show ?thesis using got k by (auto simp: flip_got_ok_def)
qed

lemma flip_inv_empties:
  assumes inv: "flip_inv s" and idle: "fs_writes s = []" "fs_reads s = []"
    and fb: "rb_inv (fb_buffer fb)" "fb_popped fb = 0" "fb_pushed fb = 0" "rb_contents (fb_buffer fb) = ws"
  shows "flip_inv (flip_empties (fb_contents (fs_fb s)) (s\<lparr>fs_fb := fb, fs_in := fs_in s @ ws\<rparr>)
    (fs_base s + fb_pops (fs_fb s)))"
proof -
  let ?k = "fs_base s + fb_pops (fs_fb s)"
  note f = flip_idle[OF inv idle] and k = flip_inv_length[OF inv]
  have "flip_got_ok (fs_got s @ zip [?k..<length (fs_in s)] (drop ?k (fs_in s))) [] (fs_in s @ ws) (length (fs_in s))"
    by (rule flip_got_append[OF flip_got_rest[OF f(3) k]]) simp
  moreover have "?k + length (fb_contents (fs_fb s)) = length (fs_in s)" using f(2) k by simp
  ultimately show ?thesis using f(2) fb idle
    by (intro flip_inv_flushed) (simp_all add: flip_empties_def fb_wf_flushed fb_contents_flushed)
qed

text \<open>In which order the outstanding calls are listed does not matter.\<close>

lemma flip_inv_mset:
  assumes "mset ws = mset (fs_writes s)" and "mset rs = mset (fs_reads s)"
  shows "flip_inv (s\<lparr>fs_writes := ws, fs_reads := rs\<rparr>) = flip_inv s"
proof -
  have "mset (map fst ws) = mset (map fst (fs_writes s))"
    "mset (map fst (fs_got s) @ map snd rs) = mset (map fst (fs_got s) @ map snd (fs_reads s))"
    using assms by simp_all
  note perm = this[THEN mset_eq_imp_distinct_iff] this[THEN mset_eq_setD] assms[THEN mset_eq_setD]
  show ?thesis
    unfolding flip_inv_def flip_cells_def flip_writes_ok_def flip_reads_ok_def flip_got_ok_def using perm by simp
qed

lemma flip_push_granted:
  assumes inv: "flip_inv s" and res: "fb_push_reserve (fs_fb s) = (n, fb)" "unat n + 1 < 2 ^ 64"
    "fb_push_slot n fb = Inr (Some idx)" and ws: "fs_writes s = xs @ ys"
  shows "flip_inv (s\<lparr>fs_fb := fb, fs_writes := xs @ (idx, v) # ys, fs_in := fs_in s @ [v]\<rparr>)"
proof -
  let ?t = "s\<lparr>fs_fb := fb, fs_writes := fs_writes s @ [(idx, v)], fs_in := fs_in s @ [v]\<rparr>"
  have "flip_inv (?t\<lparr>fs_writes := xs @ (idx, v) # ys, fs_reads := fs_reads ?t\<rparr>)"
    using flip_push_granted_last[OF inv res, of v] ws by (subst flip_inv_mset) simp_all
  then show ?thesis by (simp add: flip_inv_def)
qed

lemma flip_pop_granted:
  assumes inv: "flip_inv s" and res: "fb_pop_reserve (fs_fb s) = (n, fb)" "unat n + 1 < 2 ^ 64"
    "fb_pop_slot n fb = Inr (Some idx)" and rs: "fs_reads s = xs @ ys"
  shows "flip_inv (s\<lparr>fs_fb := fb, fs_reads := xs @ (idx, fs_base s + unat n) # ys\<rparr>)"
proof -
  let ?t = "s\<lparr>fs_fb := fb, fs_reads := fs_reads s @ [(idx, fs_base s + unat n)]\<rparr>"
  have "flip_inv (?t\<lparr>fs_writes := fs_writes ?t, fs_reads := xs @ (idx, fs_base s + unat n) # ys\<rparr>)"
    using flip_pop_granted_last[OF inv res] rs by (subst flip_inv_mset) simp_all
  then show ?thesis by (simp add: flip_inv_def)
qed

lemma flip_inv_step: "flip_step sz s t \<Longrightarrow> flip_inv s \<Longrightarrow> flip_inv t"
proof (erule flip_step_cases)
  fix v fb
  assume inv: "flip_inv s" and idle: "fs_writes s = []" "fs_reads s = []" and push: "fb_push sz v (fs_fb s) = Inr fb"
    and t: "t = s\<lparr>fs_fb := fb, fs_in := fs_in s @ [v], fs_base := fs_base s + fb_pops (fs_fb s)\<rparr>"
  note f = flip_idle[OF inv idle]
  from fb_push_ok[OF f(1) push] f(2) flip_inv_length[OF inv] flip_got_snoc[OF f(3), of v] idle
  show "flip_inv t" by (intro flip_inv_flushed) (simp_all add: t)
next
  fix v fb
  assume inv: "flip_inv s" and idle: "fs_writes s = []" "fs_reads s = []"
    and pop: "fb_pop (fs_fb s) = Inr (Some v, fb)"
    and t: "t = s\<lparr>fs_fb := fb, fs_base := Suc (fs_base s + fb_pops (fs_fb s)),
      fs_got := fs_got s @ [(fs_base s + fb_pops (fs_fb s), v)]\<rparr>"
  let ?k = "fs_base s + fb_pops (fs_fb s)"
  note f = flip_idle[OF inv idle]
  from fb_pop_ok[OF f(1)] pop have ne: "fb_contents (fs_fb s) \<noteq> []" "v = hd (fb_contents (fs_fb s))"
    and fb: "fb_wf fb" "fb_contents fb = tl (fb_contents (fs_fb s))" "fb_popped fb = 0" "fb_pushed fb = 0"
    by (auto split: if_splits)
  have k: "?k < length (fs_in s)" using ne(1) f(2) by simp
  with ne(2) f(2) have v: "v = fs_in s ! ?k" by (simp add: hd_drop_conv_nth)
  have "fst ` set (fs_got s) = {..<?k}" using f(3) by (simp add: flip_got_ok_def)
  with f(3) v have "flip_got_ok (fs_got s @ [(?k, v)]) [] (fs_in s) (Suc ?k)"
    by (auto simp: flip_got_ok_def lessThan_Suc)
  with fb f(2) k idle show "flip_inv t"
    by (intro flip_inv_flushed) (simp_all add: t tl_drop drop_Suc)
next
  fix fb
  assume inv: "flip_inv s" and idle: "fs_writes s = []" "fs_reads s = []"
    and pop: "fb_pop (fs_fb s) = Inr (None, fb)"
    and t: "t = s\<lparr>fs_fb := fb, fs_base := fs_base s + fb_pops (fs_fb s)\<rparr>"
  note f = flip_idle[OF inv idle]
  from fb_pop_ok[OF f(1)] pop have "fb_contents (fs_fb s) = []" "fb_wf fb" "fb_contents fb = []"
    "fb_popped fb = 0" "fb_pushed fb = 0" by (auto split: if_splits)
  with f flip_inv_length[OF inv] idle show "flip_inv t"
    by (intro flip_inv_flushed) (simp_all add: t)
next
  fix fb
  assume inv: "flip_inv s" and idle: "fs_writes s = []" "fs_reads s = []" and flush: "fb_flush (fs_fb s) = Inr fb"
    and t: "t = s\<lparr>fs_fb := fb, fs_base := fs_base s + fb_pops (fs_fb s)\<rparr>"
  note f = flip_idle[OF inv idle]
  from fb_flush_ok[OF f(1)] flush have "fb_popped fb = 0" "fb_pushed fb = 0" "rb_inv (fb_buffer fb)"
    "rb_contents (fb_buffer fb) = fb_contents (fs_fb s)" by auto
  with f flip_inv_length[OF inv] idle show "flip_inv t"
    by (intro flip_inv_flushed) (simp_all add: t fb_wf_flushed fb_contents_flushed)
next
  fix fb dp rb dropped
  assume inv: "flip_inv s" and idle: "fs_writes s = []" "fs_reads s = []" and flush: "fb_flush (fs_fb s) = Inr fb"
    and clear: "rb_clear dp (fb_buffer fb) = Inr (rb, dropped)"
    and t: "t = flip_empties (rb_contents (fb_buffer fb)) (s\<lparr>fs_fb := fb\<lparr>fb_buffer := rb\<rparr>\<rparr>) (fs_base s + fb_pops (fs_fb s))"
  from fb_flush_ok[OF flip_idle(1)[OF inv idle]] flush have fb: "fb_popped fb = 0" "fb_pushed fb = 0"
    "rb_inv (fb_buffer fb)" "rb_contents (fb_buffer fb) = fb_contents (fs_fb s)" by auto
  have "rb = (fb_buffer fb)\<lparr>rb_head := 0, rb_len := 0\<rparr>"
    using clear fb(3) by (auto simp: rb_clear_def rb_as_mut_slices_ok split: prod.splits)
  with fb flip_inv_empties[OF inv idle, of "fb\<lparr>fb_buffer := rb\<rparr>" "[]"] rb_inv_reset[OF fb(3)] show "flip_inv t"
    by (simp add: t)
next
  fix ring old fb
  assume inv: "flip_inv s" and idle: "fs_writes s = []" "fs_reads s = []" and ring: "rb_inv ring"
    and swap: "fb_swap_buffer ring (fs_fb s) = Inr (old, fb)"
    and t: "t = flip_empties (rb_contents old) (s\<lparr>fs_fb := fb, fs_in := fs_in s @ rb_contents ring\<rparr>)
      (fs_base s + fb_pops (fs_fb s))"
  from fb_flush_ok[OF flip_idle(1)[OF inv idle]] swap have "fb_popped fb = 0" "fb_pushed fb = 0" "fb_buffer fb = ring"
    "rb_contents old = fb_contents (fs_fb s)" by (auto simp: fb_swap_buffer_def)
  with ring flip_inv_empties[OF inv idle, of fb "rb_contents ring"] show "flip_inv t" by (simp add: t)
qed (auto intro: flip_push_granted flip_push_refused flip_push_writes flip_pop_granted flip_pop_refused flip_pop_reads)

text \<open>With nothing outstanding the history accounts for every value.\<close>

lemma flip_inv_conserves:
  assumes inv: "flip_inv s" and "fs_writes s = []" and "fs_reads s = []"
  shows "\<exists>k \<le> length (fs_in s). fb_contents (fs_fb s) = drop k (fs_in s) \<and>
    mset (map snd (fs_got s)) = mset (take k (fs_in s)) \<and>
    distinct (map fst (fs_got s)) \<and> (\<forall>(p, v) \<in> set (fs_got s). p < k \<and> v = fs_in s ! p)"
proof -
  let ?k = "fs_base s + fb_pops (fs_fb s)"
  note len = flip_inv_length[OF inv] and idle = flip_idle[OF inv assms(2,3)]
  have got: "distinct (map fst (fs_got s))" "set (map fst (fs_got s)) = {..<?k}"
    "\<forall>(p, v) \<in> set (fs_got s). v = fs_in s ! p"
    using idle(3) by (simp_all add: flip_got_ok_def)
  have "mset (map fst (fs_got s)) = mset [0..<?k]"
    using got(1,2) by (subst set_eq_iff_mset_eq_distinct[symmetric]) (simp_all add: atLeast0LessThan)
  then have "mset (map ((!) (fs_in s)) (map fst (fs_got s))) = mset (map ((!) (fs_in s)) [0..<?k])"
    by (metis mset_map)
  moreover have "map ((!) (fs_in s)) (map fst (fs_got s)) = map snd (fs_got s)"
    using got(3) by auto
  moreover have "map ((!) (fs_in s)) [0..<?k] = take ?k (fs_in s)"
    using map_upt_take_drop[of 0 ?k "fs_in s"] len by simp
  moreover have "\<forall>(p, v) \<in> set (fs_got s). p < ?k" using got(2) by force
  ultimately show ?thesis using len idle(2) got by (intro exI[of _ ?k]) (auto simp del: map_map)
qed

interpretation flip_sys: transition_system "flip_init sz" "flip_step sz" flip_inv for sz :: nat
  by unfold_locales (auto intro: flip_inv_init flip_inv_step)

text \<open>A queue of capacity 2 that holds 5, with a pop of it and a push of 6 outstanding.\<close>

definition flip_racing :: "nat flip_system" where
  "flip_racing = \<lparr>fs_fb = \<lparr>fb_buffer = \<lparr>rb_head = 0, rb_len = 1, rb_array = [Some 5, None]\<rparr>, fb_popped = 1, fb_pushed = 1\<rparr>,
     fs_writes = [(1, 6)], fs_reads = [(0, 0)], fs_in = [5, 6], fs_base = 0, fs_got = []\<rparr>"

text \<open>The same queue after both accesses.\<close>

definition flip_settled :: "nat flip_system" where
  "flip_settled = \<lparr>fs_fb = \<lparr>fb_buffer = \<lparr>rb_head = 0, rb_len = 1, rb_array = [Some 5, Some 6]\<rparr>, fb_popped = 1, fb_pushed = 1\<rparr>,
     fs_writes = [], fs_reads = [], fs_in = [5, 6], fs_base = 0, fs_got = [(0, 5)]\<rparr>"

lemma flip_racing_reachable: "reachable (flip_init 8) (flip_step 8) flip_racing"
proof -
  let ?empty = "\<lparr>fb_buffer = \<lparr>rb_head = 0, rb_len = 0, rb_array = [None, None]\<rparr>, fb_popped = 0, fb_pushed = 0\<rparr> :: nat flip_buffer"
  let ?s0 = "\<lparr>fs_fb = ?empty, fs_writes = [], fs_reads = [], fs_in = [], fs_base = 0, fs_got = []\<rparr>"
  let ?one = "\<lparr>fb_buffer = \<lparr>rb_head = 0, rb_len = 1, rb_array = [Some 5, None]\<rparr>, fb_popped = 0, fb_pushed = 0\<rparr> :: nat flip_buffer"
  let ?s1 = "\<lparr>fs_fb = ?one, fs_writes = [], fs_reads = [], fs_in = [5], fs_base = 0, fs_got = []\<rparr>"
  let ?s2 = "\<lparr>fs_fb = ?one\<lparr>fb_popped := 1\<rparr>, fs_writes = [], fs_reads = [(0, 0)], fs_in = [5], fs_base = 0, fs_got = []\<rparr>"
  have two: "replicate 2 None = [None, None :: nat option]" by (simp add: numeral_2_eq_2)
  have "flip_init 8 ?s0"
    by (auto simp: two flip_init_def fq_with_capacity_def fb_with_capacity_def rb_with_capacity_def vec_with_capacity_def
        isize_max_def usize_max_def intro!: exI[of _ 2])
  moreover have "flip_step 8 ?s0 ?s1"
    using push_exclusive[of ?s0 8 5 ?one]
    by (simp add: fb_push_def fb_flush_def rb_capacity_def clamp_count_min rb_push_def ring_index_def write_cell_def
        usize_max_def fb_pops_def Let_def)
  moreover have "flip_step 8 ?s1 ?s2"
    using pop_granted[of ?s1 0 "?one\<lparr>fb_popped := 1\<rparr>" 0 "[]" "[]" 8]
    by (simp add: fb_pop_reserve_def fb_pop_slot_def rb_capacity_def ring_index_def usize_max_def Let_def)
  moreover have "flip_step 8 ?s2 flip_racing"
    using push_granted[of ?s2 0 "?one\<lparr>fb_popped := 1, fb_pushed := 1\<rparr>" 1 "[]" "[]" 8 6]
    by (simp add: fb_push_reserve_def fb_push_slot_def rb_capacity_def ring_index_def usize_max_def Let_def
        flip_racing_def)
  ultimately show ?thesis by (blast intro: reach_init reach_step)
qed

lemma flip_settled_reachable: "reachable (flip_init 8) (flip_step 8) flip_settled"
proof -
  let ?s = "flip_racing\<lparr>fs_fb := fs_fb flip_settled, fs_writes := []\<rparr>"
  have "flip_step 8 flip_racing ?s"
    using push_writes[of flip_racing "[]" 1 6 "[]" "fs_fb flip_settled" 8]
    by (simp add: flip_racing_def flip_settled_def fb_write_def write_cell_def)
  moreover have "flip_step 8 ?s flip_settled"
    using pop_reads[of ?s "[]" 0 0 "[]" 5 8]
    by (simp add: flip_racing_def flip_settled_def fb_read_def read_cell_def)
  ultimately show ?thesis using flip_racing_reachable by (blast intro: reach_step)
qed

section \<open>Properties\<close>

text \<open>
  No data race and no invalid access: in every reachable state the slots that outstanding
  calls of \<open>push_sync\<close> will write and those that outstanding calls of \<open>pop_sync\<close> will read are all
  different and lie in the buffer, every outstanding write succeeds, and every outstanding read finds
  the value pushed at its position.
\<close>

theorem flip_slots_disjoint:
  assumes "reachable (flip_init sz) (flip_step sz) s"
  shows "distinct (map fst (fs_writes s) @ map fst (fs_reads s)) \<and>
    set (map fst (fs_writes s) @ map fst (fs_reads s)) \<subseteq> {..<rb_cap (fb_buffer (fs_fb s))} \<and>
    (\<forall>(idx, v) \<in> set (fs_writes s). \<exists>fb. fb_write idx v (fs_fb s) = Inr fb) \<and>
    (\<forall>(idx, p) \<in> set (fs_reads s). fb_read idx (fs_fb s) = Inr (fs_in s ! p))"
proof -
  let ?rb = "fb_buffer (fs_fb s)" and ?b = "fs_base s"
  note inv = flip_sys.reachable_inv[OF assms]
  note rbi = flip_inv_rb[OF inv] and top = fb_pushes_room[OF flip_inv_rb[OF inv]]
  have w: "\<exists>i. rb_len ?rb \<le> i \<and> i < rb_cap ?rb \<and> idx = rb_slot ?rb i" if "idx \<in> set (map fst (fs_writes s))" for idx
    using inv that top unfolding flip_inv_def flip_writes_ok_def by fastforce
  have r: "p - ?b < rb_len ?rb \<and> ?b \<le> p \<and> idx = rb_slot ?rb (p - ?b)" if "(idx, p) \<in> set (fs_reads s)" for idx p
    using inv that fb_pops_le[of "fs_fb s"] unfolding flip_inv_def flip_reads_ok_def by fastforce
  have "inj_on fst (set (fs_reads s))"
  proof (rule inj_onI, clarsimp)
    fix idx p q assume "(idx, p) \<in> set (fs_reads s)" "(idx, q) \<in> set (fs_reads s)"
    with r[of idx p] r[of idx q] rb_slot_inj[OF rbi, of "p - ?b" "q - ?b"] top show "p = q" by auto
  qed
  moreover have "distinct (fs_reads s)"
    using inv by (auto simp: flip_inv_def flip_got_ok_def distinct_map)
  ultimately have "distinct (map fst (fs_reads s))" by (simp add: distinct_map)
  moreover have "set (map fst (fs_writes s)) \<inter> set (map fst (fs_reads s)) = {}"
  proof -
    have "idx \<notin> set (map fst (fs_reads s))" if idx: "idx \<in> set (map fst (fs_writes s))" for idx
    proof
      assume "idx \<in> set (map fst (fs_reads s))"
      then obtain p where "(idx, p) \<in> set (fs_reads s)" by auto
      from r[OF this] w[OF idx] rb_slot_inj[OF rbi] top show False by (metis leD less_le_trans le_add1)
    qed
    then show ?thesis by blast
  qed
  moreover have slots: "set (map fst (fs_writes s)) \<union> set (map fst (fs_reads s)) \<subseteq> {..<rb_cap ?rb}"
    using w r rb_slot_less_cap[OF rbi] top by fastforce
  moreover have "\<forall>(idx, v) \<in> set (fs_writes s). \<exists>fb. fb_write idx v (fs_fb s) = Inr fb"
    using flip_write_ok[OF inv] by blast
  moreover have "\<forall>(idx, p) \<in> set (fs_reads s). fb_read idx (fs_fb s) = Inr (fs_in s ! p)"
    using flip_read_value[OF inv] by blast
  moreover have "distinct (map fst (fs_writes s))" using inv by (simp add: flip_inv_def flip_writes_ok_def)
  ultimately show ?thesis by simp
qed

theorem flip_slots_disjoint_witness:
  "distinct (map fst (fs_writes flip_racing) @ map fst (fs_reads flip_racing)) \<and>
   fb_read 0 (fs_fb flip_racing) = Inr (fs_in flip_racing ! 0)"
proof -
  have "(0, 0) \<in> set (fs_reads flip_racing)" by (simp add: flip_racing_def)
  with flip_slots_disjoint[OF flip_racing_reachable] show ?thesis by blast
qed

text \<open>
  Nothing is lost, duplicated or reordered: whenever no call is outstanding, there is a \<open>k\<close>
  such that exactly the first \<open>k\<close> accepted values have left the queue, each once, and the queue
  holds the others in the order in which they were accepted.
\<close>

theorem flip_queue_conserves:
  assumes "reachable (flip_init sz) (flip_step sz) s" and "fs_writes s = []" and "fs_reads s = []"
  shows "\<exists>k \<le> length (fs_in s). fb_contents (fs_fb s) = drop k (fs_in s) \<and>
    mset (map snd (fs_got s)) = mset (take k (fs_in s)) \<and>
    distinct (map fst (fs_got s)) \<and> (\<forall>(p, v) \<in> set (fs_got s). p < k \<and> v = fs_in s ! p)"
  using flip_inv_conserves[OF flip_sys.reachable_inv[OF assms(1)] assms(2,3)] .

theorem flip_queue_conserves_witness:
  "\<exists>k. fb_contents (fs_fb flip_settled) = drop k [5, 6] \<and> mset [5] = mset (take k [5, 6 :: nat])"
  using flip_queue_conserves[OF flip_settled_reachable] by (auto simp: flip_settled_def)

end
