(* ===== verification/Flip_Lock.thy ===== *)
theory Flip_Lock
  imports Flip_Race Ring_Type Rw_Spin Raw_Rw_Lock
begin

text \<open>
  A \<open>FlipQueue<T, L>\<close> of \<open>src/src/flip_queue.rs\<close> together with its lock: any number of threads in
  \<open>push_sync\<close>, \<open>try_push_sync\<close>, \<open>pop_sync\<close>, \<open>try_pop_sync\<close>, \<open>drain_locking\<close> and \<open>swap_buffer\<close>, interleaved
  at the accesses of the lock and at the accesses to the buffer. Nothing is assumed about the order of the calls; that a thread is
  alone under its write guard is derived from the contract of the lock, and with it that the system of
  \<open>Flip_Race\<close>, in which the operations under the write lock wait until no call is outstanding,
  describes the queue. The lock parameter is \<open>L\<close>; at the end it is \<open>RawRwSpin\<close> and \<open>RawRwLock\<close>. All accesses are
  sequentially consistent here: the results are about interleavings. With the orderings of the code they carry over to the queue
  over \<open>RawRwSpin\<close> (\<open>Flip_Order\<close>), but not over \<open>RawRwLock\<close> (\<open>Flip_Rwlock\<close>).
\<close>

section \<open>The threads\<close>

text \<open>
  The flag is true for \<open>push_sync\<close> and \<open>pop_sync\<close>, which go on to \<open>push_slow\<close> and \<open>pop_slow\<close>. The closure of
  \<open>drain_locking\<close> calls \<open>next\<close> of the \<open>Drain\<close> any number of times (\<open>nth\<close> is as many of them and one more), and
  returns or panics; then the \<open>Drain\<close> is dropped, with the destructors that panic, or it has been forgotten.
  \<open>swap_buffer\<close> is called with a ring buffer.
\<close>

datatype 'a fl_call = Fl_Push bool 'a | Fl_Pop bool | Fl_Drain nat "('a \<Rightarrow> bool) option" | Fl_Swap "'a ring_buffer"

datatype 'a fl_pc =
    Fl_Idle
  | Fl_Lock lock_mode "'a fl_call"              \<comment> \<open>in \<open>buffer.read()\<close> or \<open>buffer.write()\<close>\<close>
  | Fl_Reserve "'a fl_call"                     \<comment> \<open>has the read guard, before the \<open>fetch_add\<close>\<close>
  | Fl_Write_Slot nat 'a                        \<comment> \<open>before the write to the slot\<close>
  | Fl_Read_Slot nat u64                        \<comment> \<open>before the read of the slot; the value of \<open>popped\<close>\<close>
  | Fl_Check                                    \<comment> \<open>\<open>pop_sync\<close>, before the load of \<open>pushed\<close>\<close>
  | Fl_Flush "'a fl_call"                       \<comment> \<open>has the write guard, before \<open>flush\<close>\<close>
  | Fl_Apply "'a fl_call"                       \<comment> \<open>before the next operation on the ring buffer\<close>
  | Fl_Drop lock_mode "'a fl_call option"       \<comment> \<open>before the guard is dropped; the slow call that follows\<close>
  | Fl_Dropping "'a fl_call option"             \<comment> \<open>in the unlock method\<close>

text \<open>The next access to the buffer: where the thread is then, the values that leave the queue, and the buffer.\<close>

definition fl_opt :: "'a option \<Rightarrow> 'a list" where
  "fl_opt r = (case r of Some v \<Rightarrow> [v] | None \<Rightarrow> [])"

fun fl_access :: "nat \<Rightarrow> 'a fl_pc \<Rightarrow> 'a flip_buffer \<Rightarrow> ('a fl_pc \<times> 'a list \<times> 'a flip_buffer) res" where
  "fl_access sz (Fl_Reserve (Fl_Push slow v)) fb =
     (case fb_push_reserve fb of (n, fb1) \<Rightarrow>
        bind_res (fb_push_slot n fb1) (\<lambda>slot. Inr (case slot of
            Some idx \<Rightarrow> Fl_Write_Slot idx v
          | None \<Rightarrow> Fl_Drop Lk_Read (if slow then Some (Fl_Push slow v) else None), [], fb1)))"
| "fl_access sz (Fl_Write_Slot idx v) fb =
     bind_res (fb_write idx v fb) (\<lambda>fb1. Inr (Fl_Drop Lk_Read None, [], fb1))"
| "fl_access sz (Fl_Reserve (Fl_Pop slow)) fb =
     (case fb_pop_reserve fb of (n, fb1) \<Rightarrow>
        bind_res (fb_pop_slot n fb1) (\<lambda>slot. Inr (case slot of
            Some idx \<Rightarrow> Fl_Read_Slot idx n
          | None \<Rightarrow> if slow then Fl_Check else Fl_Drop Lk_Read None, [], fb1)))"
| "fl_access sz (Fl_Read_Slot idx n) fb =
     bind_res (fb_read idx fb) (\<lambda>v. Inr (Fl_Drop Lk_Read None, [v], fb))"
| "fl_access sz Fl_Check fb =
     Inr (Fl_Drop Lk_Read (if fb_pushed fb = 0 then None else Some (Fl_Pop True)), [], fb)"
| "fl_access sz (Fl_Flush c) fb = bind_res (fb_flush fb) (\<lambda>fb1. Inr (Fl_Apply c, [], fb1))"
| "fl_access sz (Fl_Apply (Fl_Push slow v)) fb =
     bind_res (rb_push sz v (fb_buffer fb)) (\<lambda>rb. Inr (Fl_Drop Lk_Write None, [], fb\<lparr>fb_buffer := rb\<rparr>))"
| "fl_access sz (Fl_Apply (Fl_Pop slow)) fb =
     bind_res (rb_pop (fb_buffer fb)) (\<lambda>(r, rb). Inr (Fl_Drop Lk_Write None, fl_opt r, fb\<lparr>fb_buffer := rb\<rparr>))"
| "fl_access sz (Fl_Apply (Fl_Drain (Suc n) d)) fb =
     bind_res (drain_next (fb_buffer fb)) (\<lambda>(r, rb). Inr (Fl_Apply (Fl_Drain n d), fl_opt r, fb\<lparr>fb_buffer := rb\<rparr>))"
| "fl_access sz (Fl_Apply (Fl_Drain 0 (Some dp))) fb =
     bind_res (drain_drop dp (fb_buffer fb)) (\<lambda>(rb, dropped).
       Inr (Fl_Drop Lk_Write None, rb_contents (fb_buffer fb), fb\<lparr>fb_buffer := rb\<rparr>))"
| "fl_access sz (Fl_Apply (Fl_Drain 0 None)) fb = Inr (Fl_Drop Lk_Write None, [], fb)"
| "fl_access sz (Fl_Apply (Fl_Swap ring)) fb =
     Inr (Fl_Drop Lk_Write None, rb_contents (fb_buffer fb), fb\<lparr>fb_buffer := ring\<rparr>)"
| "fl_access sz pc fb = Inr (pc, [], fb)"

text \<open>The guard a thread has.\<close>

fun fl_guard :: "'a fl_pc \<Rightarrow> lock_mode option" where
  "fl_guard (Fl_Reserve _) = Some Lk_Read"
| "fl_guard (Fl_Write_Slot _ _) = Some Lk_Read"
| "fl_guard (Fl_Read_Slot _ _) = Some Lk_Read"
| "fl_guard Fl_Check = Some Lk_Read"
| "fl_guard (Fl_Flush _) = Some Lk_Write"
| "fl_guard (Fl_Apply _) = Some Lk_Write"
| "fl_guard (Fl_Drop m _) = Some m"
| "fl_guard _ = None"

fun fl_in_lock :: "'a fl_pc \<Rightarrow> bool" where
  "fl_in_lock (Fl_Lock _ _) = True"
| "fl_in_lock (Fl_Dropping _) = True"
| "fl_in_lock _ = False"

text \<open>The guard that a call takes first.\<close>

fun fl_mode :: "'a fl_call \<Rightarrow> lock_mode" where
  "fl_mode (Fl_Push slow v) = Lk_Read"
| "fl_mode (Fl_Pop slow) = Lk_Read"
| "fl_mode _ = Lk_Write"

definition fl_locked :: "lock_mode \<Rightarrow> 'a fl_call \<Rightarrow> 'a fl_pc" where
  "fl_locked m c = (case m of Lk_Read \<Rightarrow> Fl_Reserve c | Lk_Write \<Rightarrow> Fl_Flush c)"

section \<open>The system\<close>

text \<open>The history is that of \<open>Flip_Race\<close>.\<close>

record ('l, 'a) fl_system =
  fl_lock :: 'l
  fl_buf :: "'a flip_buffer"
  fl_pcs :: "'a fl_pc list"
  fl_in :: "'a list"
  fl_base :: nat
  fl_got :: "(nat \<times> 'a) list"

fun fl_accepted :: "'a fl_pc \<Rightarrow> 'a fl_pc \<Rightarrow> 'a list" where
  "fl_accepted (Fl_Reserve (Fl_Push _ v)) (Fl_Write_Slot _ _) = [v]"
| "fl_accepted (Fl_Apply (Fl_Push _ v)) _ = [v]"
| "fl_accepted (Fl_Apply (Fl_Swap ring)) _ = rb_contents ring"
| "fl_accepted _ _ = []"

fun fl_moved :: "'a fl_pc \<Rightarrow> 'a list \<Rightarrow> 'a flip_buffer \<Rightarrow> nat" where
  "fl_moved (Fl_Flush _) vs fb = fb_pops fb"
| "fl_moved (Fl_Apply _) vs fb = length vs"
| "fl_moved _ vs fb = 0"

fun fl_returned :: "'a fl_pc \<Rightarrow> 'a list \<Rightarrow> nat \<Rightarrow> (nat \<times> 'a) list" where
  "fl_returned (Fl_Read_Slot _ n) vs base = map (Pair (base + unat n)) vs"
| "fl_returned (Fl_Apply _) vs base = zip [base..<base + length vs] vs"
| "fl_returned _ vs base = []"

text \<open>
  Fewer than \<open>2^64\<close> requests between two flushes. A buffer that is swapped in is well formed, which every
  \<open>RingBuffer\<close> is (\<open>Ring_Type\<close>).
\<close>

fun fl_room :: "'a fl_pc \<Rightarrow> 'a flip_buffer \<Rightarrow> bool" where
  "fl_room (Fl_Reserve (Fl_Push _ _)) fb = (unat (fb_pushed fb) + 1 < 2 ^ 64)"
| "fl_room (Fl_Reserve (Fl_Pop _)) fb = (unat (fb_popped fb) + 1 < 2 ^ 64)"
| "fl_room (Fl_Apply (Fl_Swap ring)) fb = rb_inv ring"
| "fl_room _ fb = True"

definition fl_init :: "nat \<Rightarrow> 'l raw_lock \<Rightarrow> ('l, 'a) fl_system \<Rightarrow> bool" where
  "fl_init sz L s \<longleftrightarrow> lk_init L (fl_lock s) \<and>
     (fq_new sz = Inr (fl_buf s) \<or> (\<exists>cap \<le> usize_max. fq_with_capacity sz cap = Inr (fl_buf s))) \<and>
     set (fl_pcs s) \<subseteq> {Fl_Idle} \<and> fl_in s = [] \<and> fl_base s = 0 \<and> fl_got s = []"

text \<open>The system after an access of thread \<open>i\<close>.\<close>

definition fl_after :: "nat \<Rightarrow> 'a fl_pc \<Rightarrow> 'a list \<Rightarrow> 'a flip_buffer \<Rightarrow> ('l, 'a) fl_system \<Rightarrow> ('l, 'a) fl_system" where
  "fl_after i pc r fb s = s\<lparr>fl_buf := fb, fl_pcs := (fl_pcs s)[i := pc],
     fl_in := fl_in s @ fl_accepted (fl_pcs s ! i) pc,
     fl_base := fl_base s + fl_moved (fl_pcs s ! i) r (fl_buf s),
     fl_got := fl_got s @ fl_returned (fl_pcs s ! i) r (fl_base s)\<rparr>"

text \<open>All values from position \<open>b\<close> on leave the queue.\<close>

definition fl_empties :: "'a list \<Rightarrow> ('l, 'a) fl_system \<Rightarrow> nat \<Rightarrow> ('l, 'a) fl_system" where
  "fl_empties vs s b = s\<lparr>fl_base := b + length vs, fl_got := fl_got s @ zip [b..<b + length vs] vs\<rparr>"

text \<open>
  A panic under the write guard (the capacity limit) unwinds and drops the guard. The methods that take
  \<open>&mut self\<close> need no lock; the borrow checker gives them the queue alone.
\<close>

inductive fl_step :: "nat \<Rightarrow> 'l raw_lock \<Rightarrow> ('l, 'a) fl_system \<Rightarrow> ('l, 'a) fl_system \<Rightarrow> bool" for sz L where
  fl_calls: "i < length (fl_pcs s) \<Longrightarrow> fl_pcs s ! i = Fl_Idle \<Longrightarrow> lk_call L (fl_mode c) i (fl_lock s) l \<Longrightarrow>
    fl_step sz L s (s\<lparr>fl_lock := l, fl_pcs := (fl_pcs s)[i := Fl_Lock (fl_mode c) c]\<rparr>)"
| fl_lock_runs: "i < length (fl_pcs s) \<Longrightarrow> fl_in_lock (fl_pcs s ! i) \<Longrightarrow> lk_run L i (fl_lock s) l \<Longrightarrow>
    fl_step sz L s (s\<lparr>fl_lock := l\<rparr>)"
| fl_locks: "i < length (fl_pcs s) \<Longrightarrow> fl_pcs s ! i = Fl_Lock m c \<Longrightarrow> lk_guard L m i (fl_lock s) \<Longrightarrow>
    fl_step sz L s (s\<lparr>fl_pcs := (fl_pcs s)[i := fl_locked m c]\<rparr>)"
| fl_accesses: "i < length (fl_pcs s) \<Longrightarrow> fl_room (fl_pcs s ! i) (fl_buf s) \<Longrightarrow>
    fl_access sz (fl_pcs s ! i) (fl_buf s) = Inr (pc, r, fb) \<Longrightarrow>
    fl_step sz L s (fl_after i pc r fb s)"
| fl_panics: "i < length (fl_pcs s) \<Longrightarrow> fl_pcs s ! i = Fl_Apply c \<Longrightarrow>
    fl_access sz (Fl_Apply c) (fl_buf s) = Inl e \<Longrightarrow>
    fl_step sz L s (s\<lparr>fl_pcs := (fl_pcs s)[i := Fl_Drop Lk_Write None]\<rparr>)"
| fl_unlocks: "i < length (fl_pcs s) \<Longrightarrow> fl_pcs s ! i = Fl_Drop m c \<Longrightarrow> lk_unlock L m i (fl_lock s) l \<Longrightarrow>
    fl_step sz L s (s\<lparr>fl_lock := l, fl_pcs := (fl_pcs s)[i := Fl_Dropping c]\<rparr>)"
| fl_returns: "i < length (fl_pcs s) \<Longrightarrow> fl_pcs s ! i = Fl_Dropping None \<Longrightarrow> lk_idle L i (fl_lock s) \<Longrightarrow>
    fl_step sz L s (s\<lparr>fl_pcs := (fl_pcs s)[i := Fl_Idle]\<rparr>)"
| fl_goes_slow: "i < length (fl_pcs s) \<Longrightarrow> fl_pcs s ! i = Fl_Dropping (Some c) \<Longrightarrow> lk_idle L i (fl_lock s) \<Longrightarrow>
    lk_call L Lk_Write i (fl_lock s) l \<Longrightarrow>
    fl_step sz L s (s\<lparr>fl_lock := l, fl_pcs := (fl_pcs s)[i := Fl_Lock Lk_Write c]\<rparr>)"
| fl_pushes_mut: "set (fl_pcs s) \<subseteq> {Fl_Idle} \<Longrightarrow> fq_push sz v (fl_buf s) = Inr fb \<Longrightarrow>
    fl_step sz L s (s\<lparr>fl_buf := fb, fl_in := fl_in s @ [v], fl_base := fl_base s + fb_pops (fl_buf s)\<rparr>)"
| fl_pops_mut: "set (fl_pcs s) \<subseteq> {Fl_Idle} \<Longrightarrow> fq_pop (fl_buf s) = Inr (r, fb) \<Longrightarrow>
    fl_step sz L s (s\<lparr>fl_buf := fb, fl_base := fl_base s + fb_pops (fl_buf s) + (case r of Some _ \<Rightarrow> 1 | None \<Rightarrow> 0),
      fl_got := fl_got s @ (case r of Some v \<Rightarrow> [(fl_base s + fb_pops (fl_buf s), v)] | None \<Rightarrow> [])\<rparr>)"

| fl_clears_mut: "set (fl_pcs s) \<subseteq> {Fl_Idle} \<Longrightarrow> fb_flush (fl_buf s) = Inr fb1 \<Longrightarrow> fq_clear dp (fl_buf s) = Inr (fb, dropped) \<Longrightarrow>
    fl_step sz L s (fl_empties (rb_contents (fb_buffer fb1)) (s\<lparr>fl_buf := fb\<rparr>) (fl_base s + fb_pops (fl_buf s)))"

inductive_cases fl_step_cases: "fl_step sz L s t"

section \<open>A writer is alone\<close>

text \<open>What a thread relies on: its guard, and after its \<open>flush\<close> that there is nothing more to flush.\<close>

definition fl_thread_ok :: "'l raw_lock \<Rightarrow> 'l \<Rightarrow> 'a flip_buffer \<Rightarrow> nat \<Rightarrow> 'a fl_pc \<Rightarrow> bool" where
  "fl_thread_ok L l fb i pc \<longleftrightarrow>
     (\<forall>m. fl_guard pc = Some m \<longrightarrow> lk_guard L m i l) \<and> (\<forall>c. pc = Fl_Apply c \<longrightarrow> fb_flush fb = Inr fb)"

definition fl_inv :: "('l \<Rightarrow> bool) \<Rightarrow> 'l raw_lock \<Rightarrow> ('l, 'a) fl_system \<Rightarrow> bool" where
  "fl_inv lock_inv L s \<longleftrightarrow> lock_inv (fl_lock s) \<and>
     (\<forall>i < length (fl_pcs s). fl_thread_ok L (fl_lock s) (fl_buf s) i (fl_pcs s ! i))"

lemma fb_flush_idem:
  assumes "fb_flush fb = Inr fb1"
  shows "fb_flush fb1 = Inr fb1" "fb_popped fb1 = 0" "fb_pushed fb1 = 0"
proof -
  have "rb_len (fb_buffer fb1) \<le> rb_cap (fb_buffer fb1) \<and> fb_popped fb1 = 0 \<and> fb_pushed fb1 = 0"
    using assms
    by (auto simp: fb_flush_def Let_def bind_res_Inr_conv usize_sub_def usize_add_def rb_capacity_def clamp_count_min
        rb_set_len_def rb_set_head_def split: if_splits)
  then show "fb_flush fb1 = Inr fb1" "fb_popped fb1 = 0" "fb_pushed fb1 = 0"
    by (simp_all add: fb_flush_def Let_def usize_sub_def rb_capacity_def clamp_count_min)
qed

lemma fl_access_guard: "fl_access sz pc fb = Inr (pc', r, fb') \<Longrightarrow> fl_guard pc' = fl_guard pc"
  by (cases "(sz, pc, fb)" rule: fl_access.cases)
    (auto simp: bind_res_Inr_conv fb_push_reserve_def fb_pop_reserve_def split: option.splits if_splits)

lemma fl_access_outside: "fl_access sz pc fb = Inr (pc', r, fb') \<Longrightarrow> fl_guard pc = None \<Longrightarrow> fb' = fb"
  by (cases "(sz, pc, fb)" rule: fl_access.cases) auto

lemma fb_flush_drained:
  assumes "fb_flush fb = Inr fb" and "drain_next (fb_buffer fb) = Inr (r, rb)"
  shows "fb_flush (fb\<lparr>fb_buffer := rb\<rparr>) = Inr (fb\<lparr>fb_buffer := rb\<rparr>)"
proof -
  have "rb_len (fb_buffer fb) \<le> rb_cap (fb_buffer fb)"
    using assms(1) by (auto simp: fb_flush_def Let_def bind_res_Inr_conv usize_sub_def rb_capacity_def split: if_splits)
  moreover have "rb_len rb \<le> rb_len (fb_buffer fb)" "rb_array rb = rb_array (fb_buffer fb)"
    using assms(2) by (auto simp: drain_next_def Let_def bind_res_Inr_conv split: if_splits)
  ultimately show ?thesis using fb_flush_idem(2,3)[OF assms(1)]
    by (simp add: fb_flush_def Let_def usize_sub_def rb_capacity_def clamp_count_min)
qed

lemma fl_access_applies:
  assumes "fl_access sz pc fb = Inr (Fl_Apply c, r, fb')" and "\<And>c. pc = Fl_Apply c \<Longrightarrow> fb_flush fb = Inr fb"
  shows "fb_flush fb' = Inr fb'"
  using assms
  by (cases "(sz, pc, fb)" rule: fl_access.cases)
    (auto simp: bind_res_Inr_conv fb_push_reserve_def fb_pop_reserve_def fb_flush_idem fb_flush_drained
      split: option.splits if_splits)

lemma fl_thread_ok_no_guard [simp]: "fl_guard pc = None \<Longrightarrow> fl_thread_ok L l fb i pc"
  by (auto simp: fl_thread_ok_def)

lemma fl_locked_guard [simp]: "fl_guard (fl_locked m c) = Some m" "fl_locked m c \<noteq> Fl_Apply c'"
  by (cases m; simp add: fl_locked_def)+

context rw_lock_contract begin

lemma fl_init_inv: "fl_init sz L s \<Longrightarrow> fl_inv lock_inv L s"
  by (force simp: fl_init_def fl_inv_def init_inv dest: nth_mem)

lemma fl_writer_alone:
  assumes "fl_inv lock_inv L s" and "i < length (fl_pcs s)" and "fl_guard (fl_pcs s ! i) = Some Lk_Write"
    and "j < length (fl_pcs s)" and "j \<noteq> i"
  shows "fl_guard (fl_pcs s ! j) = None"
proof (rule ccontr)
  assume "fl_guard (fl_pcs s ! j) \<noteq> None"
  then obtain m where "lk_guard L m j (fl_lock s)" using assms(1,4) by (auto simp: fl_inv_def fl_thread_ok_def)
  moreover have "lk_guard L Lk_Write i (fl_lock s)" using assms(1-3) by (auto simp: fl_inv_def fl_thread_ok_def)
  ultimately show False using assms(1,5) write_guard_alone by (auto simp: fl_inv_def)
qed

text \<open>A step of the lock by thread \<open>i\<close>, which has no guard or gives it up.\<close>

lemma fl_inv_lock_step:
  assumes inv: "fl_inv lock_inv L s" and i: "i < length (fl_pcs s)" and pc: "fl_guard pc = None"
    and l: "lk_thread L i (fl_lock s) l"
  shows "fl_inv lock_inv L (s\<lparr>fl_lock := l, fl_pcs := (fl_pcs s)[i := pc]\<rparr>)"
proof -
  have "fl_thread_ok L l (fl_buf s) j (fl_pcs s ! j)" if "j \<noteq> i" "j < length (fl_pcs s)" for j
    using inv that by (auto simp: fl_inv_def fl_thread_ok_def guard_frame[OF l that(1)])
  with inv i pc step_inv[OF lk_stepI[OF l]] show ?thesis by (simp add: fl_inv_def nth_list_update)
qed

lemma fl_inv_pc:
  assumes "fl_inv lock_inv L s" and "i < length (fl_pcs s)" and "fl_thread_ok L (fl_lock s) (fl_buf s) i pc"
  shows "fl_inv lock_inv L (s\<lparr>fl_pcs := (fl_pcs s)[i := pc]\<rparr>)"
  using assms by (auto simp: fl_inv_def nth_list_update)

lemma fl_inv_access:
  assumes inv: "fl_inv lock_inv L s" and i: "i < length (fl_pcs s)"
    and access: "fl_access sz (fl_pcs s ! i) (fl_buf s) = Inr (pc, r, fb)"
  shows "fl_inv lock_inv L (fl_after i pc r fb s)"
proof -
  have ok: "fl_thread_ok L (fl_lock s) (fl_buf s) i (fl_pcs s ! i)" using inv i by (simp add: fl_inv_def)
  have "fb_flush fb = Inr fb" if "pc = Fl_Apply c" for c
    using fl_access_applies[of sz "fl_pcs s ! i" "fl_buf s" c r fb] access ok that by (simp add: fl_thread_ok_def)
  with ok fl_access_guard[OF access] have "fl_thread_ok L (fl_lock s) fb i pc" by (simp add: fl_thread_ok_def)
  moreover have "fl_thread_ok L (fl_lock s) fb j (fl_pcs s ! j)" if j: "j \<noteq> i" "j < length (fl_pcs s)" for j
  proof (cases "\<exists>c. fl_pcs s ! j = Fl_Apply c")
    case True
    with fl_writer_alone[OF inv j(2) _ i] j(1) have "fl_guard (fl_pcs s ! i) = None" by auto
    from fl_access_outside[OF access this] inv j(2) show ?thesis by (simp add: fl_inv_def)
  next
    case False
    with inv j(2) show ?thesis by (auto simp: fl_inv_def fl_thread_ok_def)
  qed
  ultimately show ?thesis using inv i by (simp add: fl_inv_def fl_after_def nth_list_update)
qed

lemma fl_inv_idle:
  "lock_inv (fl_lock s) \<Longrightarrow> set (fl_pcs s) \<subseteq> {Fl_Idle} \<Longrightarrow> fl_inv lock_inv L s"
  by (force simp: fl_inv_def dest: nth_mem)

lemma fl_step_keeps: "fl_step sz L s t \<Longrightarrow> fl_inv lock_inv L s \<Longrightarrow> fl_inv lock_inv L t"
proof (induction rule: fl_step.induct)
  case (fl_calls i s l c)
  then show ?case by (intro fl_inv_lock_step) (auto intro: lk_threadI)
next
  case (fl_lock_runs i s l)
  have "fl_guard (fl_pcs s ! i) = None" using fl_lock_runs(2) by (cases "fl_pcs s ! i") auto
  with fl_lock_runs fl_inv_lock_step[of s i "fl_pcs s ! i" l] show ?case by (auto intro: lk_threadI)
next
  case (fl_locks i s m c)
  then show ?case by (intro fl_inv_pc) (auto simp: fl_thread_ok_def)
next
  case (fl_accesses i s pc r fb)
  then show ?case by (intro fl_inv_access)
next
  case (fl_panics i s c e)
  then have "lk_guard L Lk_Write i (fl_lock s)" by (auto simp: fl_inv_def fl_thread_ok_def)
  with fl_panics show ?case by (intro fl_inv_pc) (auto simp: fl_thread_ok_def)
next
  case (fl_unlocks i s m c l)
  then show ?case by (intro fl_inv_lock_step) (auto intro: lk_threadI)
next
  case (fl_returns i s)
  then show ?case by (intro fl_inv_pc) auto
next
  case (fl_goes_slow i s c l)
  then show ?case by (intro fl_inv_lock_step) (auto intro: lk_threadI)
next
  case (fl_pushes_mut s v fb)
  then show ?case by (intro fl_inv_idle) (simp_all add: fl_inv_def)
next
  case (fl_pops_mut s r fb)
  then show ?case by (intro fl_inv_idle) (simp_all add: fl_inv_def)
next
  case (fl_clears_mut s fb1 dp fb dropped)
  then show ?case by (intro fl_inv_idle) (simp_all add: fl_inv_def fl_empties_def)
qed

end

section \<open>The queue is the system of Flip_Race\<close>

text \<open>The outstanding calls are those of the threads that are about to access a slot.\<close>

fun fl_writes :: "'a fl_pc \<Rightarrow> (nat \<times> 'a) list" where
  "fl_writes (Fl_Write_Slot idx v) = [(idx, v)]"
| "fl_writes _ = []"

fun fl_reads :: "nat \<Rightarrow> 'a fl_pc \<Rightarrow> (nat \<times> nat) list" where
  "fl_reads base (Fl_Read_Slot idx n) = [(idx, base + unat n)]"
| "fl_reads base _ = []"

definition fl_abs :: "('l, 'a) fl_system \<Rightarrow> 'a flip_system" where
  "fl_abs s = \<lparr>fs_fb = fl_buf s, fs_writes = concat (map fl_writes (fl_pcs s)),
     fs_reads = concat (map (fl_reads (fl_base s)) (fl_pcs s)), fs_in = fl_in s, fs_base = fl_base s, fs_got = fl_got s\<rparr>"

lemma fl_no_guard_no_slot: "fl_guard pc = None \<Longrightarrow> fl_writes pc = [] \<and> fl_reads b pc = []"
  by (cases pc) simp_all

lemma fl_idle_no_slot:
  assumes "set (fl_pcs s) \<subseteq> {Fl_Idle}"
  shows "concat (map fl_writes (fl_pcs s)) = []" "concat (map (fl_reads b) (fl_pcs s)) = []"
  using assms by auto

lemma fl_outstanding:
  "i < length (fl_pcs s) \<Longrightarrow> x \<in> set (fl_writes (fl_pcs s ! i)) \<Longrightarrow> x \<in> set (fs_writes (fl_abs s))"
  "i < length (fl_pcs s) \<Longrightarrow> y \<in> set (fl_reads (fl_base s) (fl_pcs s ! i)) \<Longrightarrow> y \<in> set (fs_reads (fl_abs s))"
  by (auto simp: fl_abs_def intro!: bexI[of _ "fl_pcs s ! i"])

lemma fl_abs_same:
  assumes "i < length (fl_pcs s)" and "fl_writes pc = fl_writes (fl_pcs s ! i)"
    and "\<And>b. fl_reads b pc = fl_reads b (fl_pcs s ! i)"
  shows "fl_abs (s\<lparr>fl_pcs := (fl_pcs s)[i := pc]\<rparr>) = fl_abs s"
    and "fl_abs (s\<lparr>fl_lock := l, fl_pcs := (fl_pcs s)[i := pc]\<rparr>) = fl_abs s"
  using assms by (simp_all add: fl_abs_def map_update_same)

context rw_lock_contract begin

lemma fl_writer_no_slot:
  assumes "fl_inv lock_inv L s" and "i < length (fl_pcs s)" and "fl_guard (fl_pcs s ! i) = Some Lk_Write"
    and "fl_writes pc = []" and "\<And>b. fl_reads b pc = []"
  shows "concat (map fl_writes (fl_pcs s)) = []" "concat (map (fl_reads b) (fl_pcs s)) = []"
    "concat (map fl_writes ((fl_pcs s)[i := pc])) = []" "concat (map (fl_reads b) ((fl_pcs s)[i := pc])) = []"
proof -
  have "fl_writes (fl_pcs s ! i) = [] \<and> fl_reads b (fl_pcs s ! i) = []" for b
    using assms(3) by (cases "fl_pcs s ! i") simp_all
  then have none: "fl_writes q = [] \<and> fl_reads b q = []" if "q \<in> set (fl_pcs s)" for q b
    using that fl_writer_alone[OF assms(1-3)] fl_no_guard_no_slot by (metis in_set_conv_nth)
  then show "concat (map fl_writes (fl_pcs s)) = []" "concat (map (fl_reads b) (fl_pcs s)) = []" by simp_all
  have "q = pc \<or> q \<in> set (fl_pcs s)" if "q \<in> set ((fl_pcs s)[i := pc])" for q
    using set_update_subset_insert[of "fl_pcs s" i pc] that by auto
  with none assms(4,5) have "fl_writes q = [] \<and> fl_reads b q = []" if "q \<in> set ((fl_pcs s)[i := pc])" for q b
    using that by metis
  then show "concat (map fl_writes ((fl_pcs s)[i := pc])) = []" "concat (map (fl_reads b) ((fl_pcs s)[i := pc])) = []"
    by simp_all
qed

end

text \<open>A drain does not fail.\<close>

lemma fl_drain_total:
  assumes "rb_inv (fb_buffer fb)"
  shows "fl_access sz (Fl_Apply (Fl_Drain n d)) fb \<noteq> Inl e"
proof (cases n)
  case 0
  show ?thesis
  proof (cases d)
    case (Some dp)
    with 0 rb_clear_total[OF assms, of dp] show ?thesis by (auto simp: drain_drop_def)
  qed (simp add: 0)
next
  case (Suc m)
  with rb_pop_total[OF assms] show ?thesis by (auto simp: drain_next_eq_pop)
qed

text \<open>The other places access no slot.\<close>

lemma fl_access_silent:
  assumes "fl_access sz p fb = Inr (pc, r, fb')"
    and "p = Fl_Idle \<or> (\<exists>c. p = Fl_Reserve c \<and> fl_mode c = Lk_Write) \<or> p = Fl_Check \<or> (\<exists>m c. p = Fl_Lock m c) \<or> (\<exists>m c. p = Fl_Drop m c) \<or> (\<exists>c. p = Fl_Dropping c)"
  shows "fb' = fb \<and> fl_writes pc = fl_writes p \<and> (\<forall>b. fl_reads b pc = fl_reads b p) \<and> fl_accepted p pc = [] \<and>
    fl_moved p r fb = 0 \<and> (\<forall>b. fl_returned p r b = [])"
  using assms by (cases "(sz, p, fb)" rule: fl_access.cases) auto

text \<open>An access under the read guard is the step of \<open>Flip_Race\<close> with its name.\<close>

lemma fl_abs_after:
  assumes "i < length (fl_pcs s)" and "fl_moved (fl_pcs s ! i) r (fl_buf s) = 0"
  shows "\<exists>ws ws' rs rs'. fl_abs s = \<lparr>fs_fb = fl_buf s, fs_writes = ws @ fl_writes (fl_pcs s ! i) @ ws',
       fs_reads = rs @ fl_reads (fl_base s) (fl_pcs s ! i) @ rs', fs_in = fl_in s, fs_base = fl_base s, fs_got = fl_got s\<rparr> \<and>
     fl_abs (fl_after i pc r fb s) = \<lparr>fs_fb = fb, fs_writes = ws @ fl_writes pc @ ws',
       fs_reads = rs @ fl_reads (fl_base s) pc @ rs', fs_in = fl_in s @ fl_accepted (fl_pcs s ! i) pc,
       fs_base = fl_base s, fs_got = fl_got s @ fl_returned (fl_pcs s ! i) r (fl_base s)\<rparr>"
proof -
  obtain ws ws' rs rs' where "concat (map fl_writes (fl_pcs s)) = ws @ fl_writes (fl_pcs s ! i) @ ws'"
    "concat (map fl_writes ((fl_pcs s)[i := pc])) = ws @ fl_writes pc @ ws'"
    "concat (map (fl_reads (fl_base s)) (fl_pcs s)) = rs @ fl_reads (fl_base s) (fl_pcs s ! i) @ rs'"
    "concat (map (fl_reads (fl_base s)) ((fl_pcs s)[i := pc])) = rs @ fl_reads (fl_base s) pc @ rs'"
    using concat_map_frame[OF assms(1), of fl_writes] concat_map_frame[OF assms(1), of "fl_reads (fl_base s)"] by metis
  with assms(2) show ?thesis by (auto simp: fl_abs_def fl_after_def)
qed

lemma fl_push_reserve_abs:
  assumes i: "i < length (fl_pcs s)" and at: "fl_pcs s ! i = Fl_Reserve (Fl_Push slow v)"
    and room: "fl_room (fl_pcs s ! i) (fl_buf s)" and access: "fl_access sz (fl_pcs s ! i) (fl_buf s) = Inr (pc, r, fb)"
  shows "flip_step sz (fl_abs s) (fl_abs (fl_after i pc r fb s))"
proof -
  obtain n slot where res: "fb_push_reserve (fl_buf s) = (n, fb)" "fb_push_slot n fb = Inr slot"
    and pc: "pc = (case slot of Some idx \<Rightarrow> Fl_Write_Slot idx v
      | None \<Rightarrow> Fl_Drop Lk_Read (if slow then Some (Fl_Push slow v) else None))" "r = []"
    using access by (auto simp: at bind_res_Inr_conv split: prod.splits)
  have n: "unat n + 1 < 2 ^ 64" using room res by (auto simp: at fb_push_reserve_def)
  obtain ws ws' rs rs' where abs: "fl_abs s = \<lparr>fs_fb = fl_buf s, fs_writes = ws @ ws', fs_reads = rs @ rs',
      fs_in = fl_in s, fs_base = fl_base s, fs_got = fl_got s\<rparr>"
    "fl_abs (fl_after i pc r fb s) = \<lparr>fs_fb = fb, fs_writes = ws @ fl_writes pc @ ws',
       fs_reads = rs @ fl_reads (fl_base s) pc @ rs', fs_in = fl_in s @ fl_accepted (fl_pcs s ! i) pc,
       fs_base = fl_base s, fs_got = fl_got s\<rparr>"
    using fl_abs_after[OF i, of r pc fb] by (auto simp: at)
  show ?thesis
    using res n push_refused[of "fl_abs s" n fb sz] push_granted[of "fl_abs s" n fb _ ws ws' sz v]
    unfolding abs by (cases slot) (simp_all add: at pc)
qed

lemma fl_pop_reserve_abs:
  assumes i: "i < length (fl_pcs s)" and at: "fl_pcs s ! i = Fl_Reserve (Fl_Pop slow)"
    and room: "fl_room (fl_pcs s ! i) (fl_buf s)" and access: "fl_access sz (fl_pcs s ! i) (fl_buf s) = Inr (pc, r, fb)"
  shows "flip_step sz (fl_abs s) (fl_abs (fl_after i pc r fb s))"
proof -
  obtain n slot where res: "fb_pop_reserve (fl_buf s) = (n, fb)" "fb_pop_slot n fb = Inr slot"
    and pc: "pc = (case slot of Some idx \<Rightarrow> Fl_Read_Slot idx n
      | None \<Rightarrow> if slow then Fl_Check else Fl_Drop Lk_Read None)" "r = []"
    using access by (auto simp: at bind_res_Inr_conv split: prod.splits)
  have n: "unat n + 1 < 2 ^ 64" using room res by (auto simp: at fb_pop_reserve_def)
  obtain ws ws' rs rs' where abs: "fl_abs s = \<lparr>fs_fb = fl_buf s, fs_writes = ws @ ws', fs_reads = rs @ rs',
      fs_in = fl_in s, fs_base = fl_base s, fs_got = fl_got s\<rparr>"
    "fl_abs (fl_after i pc r fb s) = \<lparr>fs_fb = fb, fs_writes = ws @ fl_writes pc @ ws',
       fs_reads = rs @ fl_reads (fl_base s) pc @ rs', fs_in = fl_in s, fs_base = fl_base s, fs_got = fl_got s\<rparr>"
    using fl_abs_after[OF i, of r pc fb] by (auto simp: at)
  show ?thesis
    using res n pop_refused[of "fl_abs s" n fb sz] pop_granted[of "fl_abs s" n fb _ rs rs' sz]
    unfolding abs by (cases slot) (auto simp: at pc)
qed

lemma fl_slot_abs:
  assumes i: "i < length (fl_pcs s)" and access: "fl_access sz (fl_pcs s ! i) (fl_buf s) = Inr (pc, r, fb)"
  shows "fl_pcs s ! i = Fl_Write_Slot idx v \<Longrightarrow> flip_step sz (fl_abs s) (fl_abs (fl_after i pc r fb s))"
    and "fl_pcs s ! i = Fl_Read_Slot idx n \<Longrightarrow> flip_step sz (fl_abs s) (fl_abs (fl_after i pc r fb s))"
proof -
  assume at: "fl_pcs s ! i = Fl_Write_Slot idx v"
  with access have "fb_write idx v (fl_buf s) = Inr fb" "pc = Fl_Drop Lk_Read None" by (auto simp: bind_res_Inr_conv)
  with at fl_abs_after[OF i, of r pc fb] push_writes[of "fl_abs s" _ idx v _ fb sz]
  show "flip_step sz (fl_abs s) (fl_abs (fl_after i pc r fb s))" by fastforce
next
  assume at: "fl_pcs s ! i = Fl_Read_Slot idx n"
  with access obtain v where "fb_read idx (fl_buf s) = Inr v" "pc = Fl_Drop Lk_Read None" "r = [v]" "fb = fl_buf s"
    by (auto simp: bind_res_Inr_conv)
  with at fl_abs_after[OF i, of r pc fb] pop_reads[of "fl_abs s" _ idx "fl_base s + unat n" _ v sz]
  show "flip_step sz (fl_abs s) (fl_abs (fl_after i pc r fb s))" by fastforce
qed

lemma fl_apply_no_slot:
  assumes "fl_access sz p fb = Inr (pc, r, fb')" and "p = Fl_Apply c"
  shows "fl_writes pc = []" "fl_reads b pc = []"
  using assms by (cases "(sz, p, fb)" rule: fl_access.cases; auto simp: bind_res_Inr_conv)+

context rw_lock_contract begin

text \<open>An access under the write guard finds no outstanding call, so it is an exclusive step.\<close>

lemma fl_flush_abs:
  assumes inv: "fl_inv lock_inv L s" and i: "i < length (fl_pcs s)"
    and access: "fl_access sz (fl_pcs s ! i) (fl_buf s) = Inr (pc, r, fb)" and at: "fl_pcs s ! i = Fl_Flush c"
  shows "flip_step sz (fl_abs s) (fl_abs (fl_after i pc r fb s))"
proof -
  from access at have flush: "fb_flush (fl_buf s) = Inr fb" "pc = Fl_Apply c" by (auto simp: bind_res_Inr_conv)
  have "fl_guard (fl_pcs s ! i) = Some Lk_Write" using at by simp
  note none = fl_writer_no_slot[OF inv i this, of "Fl_Apply c"]
  from at flush flush_exclusive[of "fl_abs s" fb sz] show ?thesis by (simp add: fl_abs_def fl_after_def none)
qed

lemma fl_apply_facts:
  assumes inv: "fl_inv lock_inv L s" and i: "i < length (fl_pcs s)"
    and access: "fl_access sz (fl_pcs s ! i) (fl_buf s) = Inr (pc, r, fb)" and at: "fl_pcs s ! i = Fl_Apply c"
  shows "fb_flush (fl_buf s) = Inr (fl_buf s)" "fb_pops (fl_buf s) = 0"
    "fl_abs s = \<lparr>fs_fb = fl_buf s, fs_writes = [], fs_reads = [], fs_in = fl_in s, fs_base = fl_base s,
      fs_got = fl_got s\<rparr>"
    "fl_abs (fl_after i pc r fb s) = \<lparr>fs_fb = fb, fs_writes = [], fs_reads = [],
      fs_in = fl_in s @ fl_accepted (Fl_Apply c) pc, fs_base = fl_base s + length r,
      fs_got = fl_got s @ zip [fl_base s..<fl_base s + length r] r\<rparr>"
proof -
  show flushed: "fb_flush (fl_buf s) = Inr (fl_buf s)" using inv i at by (auto simp: fl_inv_def fl_thread_ok_def)
  show "fb_pops (fl_buf s) = 0" using fb_flush_idem(2)[OF flushed] by (simp add: fb_pops_def)
  have guard: "fl_guard (fl_pcs s ! i) = Some Lk_Write" using at by simp
  have "concat (map fl_writes (fl_pcs s)) = []" "\<And>b. concat (map (fl_reads b) (fl_pcs s)) = []"
    "concat (map fl_writes ((fl_pcs s)[i := pc])) = []" "\<And>b. concat (map (fl_reads b) ((fl_pcs s)[i := pc])) = []"
    using fl_writer_no_slot[OF inv i guard, of pc] fl_apply_no_slot[OF access at] by blast+
  then show "fl_abs s = \<lparr>fs_fb = fl_buf s, fs_writes = [], fs_reads = [], fs_in = fl_in s, fs_base = fl_base s,
      fs_got = fl_got s\<rparr>"
    "fl_abs (fl_after i pc r fb s) = \<lparr>fs_fb = fb, fs_writes = [], fs_reads = [],
      fs_in = fl_in s @ fl_accepted (Fl_Apply c) pc, fs_base = fl_base s + length r,
      fs_got = fl_got s @ zip [fl_base s..<fl_base s + length r] r\<rparr>"
    using at by (simp_all add: fl_abs_def fl_after_def)
qed

lemma fl_apply_abs:
  assumes inv: "fl_inv lock_inv L s" and i: "i < length (fl_pcs s)" and room: "fl_room (fl_pcs s ! i) (fl_buf s)"
    and access: "fl_access sz (fl_pcs s ! i) (fl_buf s) = Inr (pc, r, fb)" and at: "fl_pcs s ! i = Fl_Apply c"
  shows "flip_step sz (fl_abs s) (fl_abs (fl_after i pc r fb s))"
proof -
  note facts = fl_apply_facts[OF inv i access at]
  note flushed = facts(1) and pops = facts(2) and abs = facts(3,4)
  have pop_step: "flip_step sz (fl_abs s) (fl_abs (fl_after i pc r fb s))"
    if "fb_pop (fl_buf s) = Inr (x, fb)" "r = fl_opt x" "fl_accepted (Fl_Apply c) pc = []" for x
    using that pops pop_exclusive_empty[of "fl_abs s" fb sz] pop_exclusive[of "fl_abs s" _ fb sz]
    unfolding abs by (cases x) (simp_all add: fl_opt_def)
  consider (push) slow v where "c = Fl_Push slow v" | (pop) slow where "c = Fl_Pop slow"
    | (take) n d where "c = Fl_Drain (Suc n) d" | (leak) "c = Fl_Drain 0 None" | (rest) dp where "c = Fl_Drain 0 (Some dp)"
    | (swap) ring where "c = Fl_Swap ring" by (metis fl_call.exhaust not0_implies_Suc option.exhaust)
  then show ?thesis
  proof cases
    case (push slow v)
    with access at have "fb_push sz v (fl_buf s) = Inr fb" "r = []" by (auto simp: bind_res_Inr_conv fb_push_def flushed)
    with push pops push_exclusive[of "fl_abs s" sz v fb] show ?thesis unfolding abs by simp
  next
    case (pop slow)
    with access at obtain x where "fb_pop (fl_buf s) = Inr (x, fb)" "r = fl_opt x"
      by (auto simp: bind_res_Inr_conv fb_pop_def flushed)
    from pop_step[OF this] pop show ?thesis by simp
  next
    case (take n d)
    with access at obtain x where "fb_pop (fl_buf s) = Inr (x, fb)" "r = fl_opt x"
      by (auto simp: bind_res_Inr_conv drain_next_eq_pop fb_pop_def flushed)
    from pop_step[OF this] take show ?thesis by simp
  next
    case leak
    have "flip_step sz (fl_abs s) (fl_abs s)" using flush_exclusive[of "fl_abs s" "fl_buf s" sz] flushed pops
      unfolding abs by simp
    with leak access at show ?thesis unfolding abs by simp
  next
    case (rest dp)
    with access at obtain rb dropped where "rb_clear dp (fb_buffer (fl_buf s)) = Inr (rb, dropped)"
      "r = rb_contents (fb_buffer (fl_buf s))" "fb = (fl_buf s)\<lparr>fb_buffer := rb\<rparr>"
      by (auto simp: bind_res_Inr_conv drain_drop_def)
    with rest clear_exclusive[of "fl_abs s" "fl_buf s" dp rb dropped sz] show ?thesis
      unfolding abs by (simp add: pops flushed flip_empties_def)
  next
    case (swap ring)
    with access at have "fb_swap_buffer ring (fl_buf s) = Inr (fb_buffer (fl_buf s), fb)"
      "r = rb_contents (fb_buffer (fl_buf s))" by (auto simp: fb_swap_buffer_def flushed)
    with at swap room swap_exclusive[of "fl_abs s" ring "fb_buffer (fl_buf s)" fb sz] show ?thesis
      unfolding abs by (simp add: pops flip_empties_def)
  qed
qed

lemma fl_access_abs:
  assumes "fl_inv lock_inv L s" and i: "i < length (fl_pcs s)" and room: "fl_room (fl_pcs s ! i) (fl_buf s)"
    and access: "fl_access sz (fl_pcs s ! i) (fl_buf s) = Inr (pc, r, fb)"
  shows "(flip_step sz)\<^sup>*\<^sup>* (fl_abs s) (fl_abs (fl_after i pc r fb s))"
proof -
  have "flip_step sz (fl_abs s) (fl_abs (fl_after i pc r fb s)) \<or> fl_abs (fl_after i pc r fb s) = fl_abs s"
  proof (cases "fl_pcs s ! i")
    case (Fl_Reserve c)
    show ?thesis
    proof (cases "fl_mode c")
      case Lk_Read
      with Fl_Reserve fl_push_reserve_abs[OF i _ room access] fl_pop_reserve_abs[OF i _ room access] show ?thesis
        by (cases c) auto
    next
      case Lk_Write
      with Fl_Reserve fl_access_silent[OF access] i show ?thesis
        by (simp add: fl_after_def fl_abs_def map_update_same)
    qed
  next
    case (Fl_Write_Slot idx v)
    then show ?thesis using fl_slot_abs(1)[OF i access] by blast
  next
    case (Fl_Read_Slot idx n)
    then show ?thesis using fl_slot_abs(2)[OF i access] by blast
  next
    case (Fl_Flush c)
    then show ?thesis using fl_flush_abs[OF assms(1) i access] by blast
  next
    case (Fl_Apply c)
    then show ?thesis using fl_apply_abs[OF assms(1) i room access] by blast
  qed (use i fl_access_silent[OF access] in \<open>simp_all add: fl_after_def fl_abs_def map_update_same\<close>)
  then show ?thesis by (auto intro: r_into_rtranclp)
qed

lemma fl_step_abs: "fl_step sz L s t \<Longrightarrow> fl_inv lock_inv L s \<Longrightarrow> (flip_step sz)\<^sup>*\<^sup>* (fl_abs s) (fl_abs t)"
proof (induction rule: fl_step.induct)
  case (fl_accesses i s pc r fb)
  then show ?case by (intro fl_access_abs)
next
  case (fl_clears_mut s fb1 dp fb dropped)
  note none = fl_idle_no_slot[OF fl_clears_mut(1)]
  obtain rb where "rb_clear dp (fb_buffer fb1) = Inr (rb, dropped)" "fb = fb1\<lparr>fb_buffer := rb\<rparr>"
    using fl_clears_mut(2,3) by (auto simp: fq_clear_def fb_clear_def bind_res_Inr_conv)
  with fl_clears_mut(2) clear_exclusive[of "fl_abs s" fb1 dp rb dropped sz] show ?case
    by (intro r_into_rtranclp) (simp add: fl_abs_def none fl_empties_def flip_empties_def)
next
  case (fl_lock_runs i s l)
  then show ?case by (simp add: fl_abs_def)
next
  case (fl_locks i s m c)
  then show ?case by (cases m) (simp_all add: fl_abs_same fl_locked_def)
next
  case (fl_pushes_mut s v fb)
  note none = fl_idle_no_slot[OF fl_pushes_mut(1)]
  from fl_pushes_mut push_exclusive[of "fl_abs s" sz v fb] show ?case
    by (intro r_into_rtranclp) (simp add: fl_abs_def fq_push_def none)
next
  case (fl_pops_mut s r fb)
  note none = fl_idle_no_slot[OF fl_pops_mut(1)]
  from fl_pops_mut pop_exclusive_empty[of "fl_abs s" fb sz] pop_exclusive[of "fl_abs s" _ fb sz] show ?case
    by (intro r_into_rtranclp, cases r) (simp_all add: fl_abs_def fq_pop_def none)
qed (simp_all add: fl_abs_same)

lemma fl_init_abs: "fl_init sz L s \<Longrightarrow> flip_init sz (fl_abs s)"
  by (auto simp: fl_init_def flip_init_def fl_abs_def)

end

sublocale rw_lock_contract \<subseteq> fl: inv_simulation "fl_init sz L" "fl_step sz L" "fl_inv lock_inv L"
  "flip_init sz" "flip_step sz" fl_abs for sz
  by unfold_locales (auto intro: fl_init_inv fl_step_keeps fl_init_abs fl_step_abs)

context rw_lock_contract begin

text \<open>Reachable states satisfy the invariant of \<open>Flip_Race\<close> too, and then no access fails.\<close>

lemma fl_reachable_inv:
  "reachable (fl_init sz L) (fl_step sz L) s \<Longrightarrow> fl_inv lock_inv L s \<and> flip_inv (fl_abs s)"
  using fl.reachable_inv fl.reachable_abs flip_sys.reachable_inv by blast

lemma fl_inv_access_ok:
  assumes inv: "fl_inv lock_inv L s" and finv: "flip_inv (fl_abs s)" and i: "i < length (fl_pcs s)"
    and fault: "fl_access sz (fl_pcs s ! i) (fl_buf s) = Inl e"
  shows "e = Capacity_overflow \<and> (\<exists>slow v. fl_pcs s ! i = Fl_Apply (Fl_Push slow v))"
proof -
  have rbi: "rb_inv (fb_buffer (fl_buf s))" using flip_inv_rb[OF finv] by (simp add: fl_abs_def)
  have idle: "fb_wf (fl_buf s)" if "fl_guard (fl_pcs s ! i) = Some Lk_Write"
    using flip_idle(1)[OF finv] fl_writer_no_slot(1,2)[OF inv i that, of Fl_Idle] by (simp add: fl_abs_def)
  show ?thesis
  proof (cases "fl_pcs s ! i")
    case (Fl_Reserve c)
    with fault show ?thesis
      by (cases c) (auto simp: fb_push_reserve_def fb_pop_reserve_def fb_push_slot_eq fb_pop_slot_eq rbi split: if_splits)
  next
    case (Fl_Write_Slot idx v)
    with fl_outstanding(1)[OF i] have "(idx, v) \<in> set (fs_writes (fl_abs s))" by simp
    from flip_write_ok[OF finv this] fault Fl_Write_Slot show ?thesis by (auto simp: fl_abs_def)
  next
    case (Fl_Read_Slot idx n)
    with fl_outstanding(2)[OF i] have "(idx, fl_base s + unat n) \<in> set (fs_reads (fl_abs s))" by simp
    from flip_read_value[OF finv this] fault Fl_Read_Slot show ?thesis by (auto simp: fl_abs_def)
  next
    case (Fl_Flush c)
    with fault idle fb_flush_ok show ?thesis by fastforce
  next
    case (Fl_Apply c)
    then have flushed: "fb_flush (fl_buf s) = Inr (fl_buf s)" using inv i by (auto simp: fl_inv_def fl_thread_ok_def)
    have wf: "fb_wf (fl_buf s)" using idle Fl_Apply by simp
    show ?thesis
    proof (cases c)
      case (Fl_Push slow v)
      with fault Fl_Apply have "fb_push sz v (fl_buf s) = Inl e"
        by (cases "rb_push sz v (fb_buffer (fl_buf s))") (auto simp: fb_push_def flushed)
      with fb_push_fault[OF wf] Fl_Apply Fl_Push show ?thesis by blast
    next
      case (Fl_Pop slow)
      with fault Fl_Apply have "fb_pop (fl_buf s) = Inl e"
        by (cases "rb_pop (fb_buffer (fl_buf s))") (auto simp: fb_pop_def flushed)
      with fb_pop_ok[OF wf] show ?thesis by (auto split: if_splits)
    next
      case (Fl_Drain n d)
      with fault Fl_Apply fl_drain_total[OF rbi] show ?thesis by auto
    next
      case (Fl_Swap ring)
      with fault Fl_Apply show ?thesis by simp
    qed
  qed (use fault in auto)
qed

lemma fl_access_ok:
  "reachable (fl_init sz L) (fl_step sz L) s \<Longrightarrow> i < length (fl_pcs s) \<Longrightarrow>
    fl_access sz (fl_pcs s ! i) (fl_buf s) = Inl e \<Longrightarrow>
    e = Capacity_overflow \<and> (\<exists>slow v. fl_pcs s ! i = Fl_Apply (Fl_Push slow v))"
  using fl_inv_access_ok fl_reachable_inv by blast

lemma fl_refines:
  assumes "reachable (fl_init sz L) (fl_step sz L) s"
  shows "reachable (flip_init sz) (flip_step sz) (fl_abs s) \<and>
    (\<forall>i < length (fl_pcs s). \<forall>j < length (fl_pcs s).
      fl_guard (fl_pcs s ! i) = Some Lk_Write \<and> fl_guard (fl_pcs s ! j) \<noteq> None \<longrightarrow> j = i)"
proof (intro conjI allI impI)
  show "reachable (flip_init sz) (flip_step sz) (fl_abs s)" by (rule fl.reachable_abs[OF assms])
next
  fix i j
  assume "i < length (fl_pcs s)" "j < length (fl_pcs s)"
    and "fl_guard (fl_pcs s ! i) = Some Lk_Write \<and> fl_guard (fl_pcs s ! j) \<noteq> None"
  then show "j = i" using fl_writer_alone[OF fl.reachable_inv[OF assms], of i j] by (cases "j = i") simp_all
qed

lemma fl_idle_conserves:
  assumes "reachable (fl_init sz L) (fl_step sz L) s" and "set (fl_pcs s) \<subseteq> {Fl_Idle}"
  shows "\<exists>k \<le> length (fl_in s). fb_contents (fl_buf s) = drop k (fl_in s) \<and>
    mset (map snd (fl_got s)) = mset (take k (fl_in s)) \<and>
    distinct (map fst (fl_got s)) \<and> (\<forall>(p, v) \<in> set (fl_got s). p < k \<and> v = fl_in s ! p)"
  using flip_inv_conserves[of "fl_abs s"] fl_reachable_inv[OF assms(1)] fl_idle_no_slot[OF assms(2)]
  by (simp add: fl_abs_def)

end

section \<open>A run\<close>

text \<open>
  Two threads and a queue of capacity 2. Thread 0 calls \<open>push_sync(5)\<close>; \<open>fl_demo\<close> is the system with a
  lock, a cell, the counter of the pushes, the place of thread 0 and the history.
\<close>

definition fl_demo :: "'l \<Rightarrow> nat option \<Rightarrow> u64 \<Rightarrow> nat fl_pc \<Rightarrow> nat list \<Rightarrow> ('l, nat) fl_system" where
  "fl_demo l cell pushed pc vs = \<lparr>fl_lock = l,
     fl_buf = \<lparr>fb_buffer = \<lparr>rb_head = 0, rb_len = 0, rb_array = [cell, None]\<rparr>, fb_popped = 0, fb_pushed = pushed\<rparr>,
     fl_pcs = [pc, Fl_Idle], fl_in = vs, fl_base = 0, fl_got = []\<rparr>"

abbreviation fl_demo_reachable :: "'l raw_lock \<Rightarrow> 'l \<Rightarrow> nat option \<Rightarrow> u64 \<Rightarrow> nat fl_pc \<Rightarrow> nat list \<Rightarrow> bool" where
  "fl_demo_reachable L l cell pushed pc vs \<equiv> reachable (fl_init 8 L) (fl_step 8 L) (fl_demo l cell pushed pc vs)"

abbreviation fl_demo_call :: "nat fl_call" where
  "fl_demo_call \<equiv> Fl_Push True 5"

lemma fl_demo_init:
  assumes "lk_init L l"
  shows "fl_demo_reachable L l None 0 Fl_Idle []"
proof (rule reach_init)
  have "replicate 2 None = [None, None :: nat option]" by (simp add: numeral_2_eq_2)
  then have "fq_with_capacity 8 2 = Inr (fl_buf (fl_demo l None 0 Fl_Idle []))"
    by (simp add: fl_demo_def fq_with_capacity_def fb_with_capacity_def rb_with_capacity_def vec_with_capacity_def
        isize_max_def usize_max_def)
  moreover have "2 \<le> usize_max" by (simp add: usize_max_def)
  ultimately show "fl_init 8 L (fl_demo l None 0 Fl_Idle [])"
    using assms unfolding fl_init_def by (auto simp: fl_demo_def)
qed

text \<open>From the read guard to the granted slot, and to the written element.\<close>

lemma fl_demo_reserves:
  assumes "fl_demo_reachable L l None 0 (Fl_Lock Lk_Read fl_demo_call) []" and "lk_guard L Lk_Read 0 l"
  shows "fl_demo_reachable L l None 1 (Fl_Write_Slot 0 5) [5]"
proof -
  have "fl_demo_reachable L l None 0 (Fl_Reserve fl_demo_call) []"
    using reach_step[OF assms(1) fl_locks[of 0]] assms(2) by (simp add: fl_demo_def fl_locked_def)
  from reach_step[OF this fl_accesses[of 0]] show ?thesis
    by (simp add: fl_demo_def fl_after_def fb_push_reserve_def fb_push_slot_def rb_capacity_def ring_index_def
        usize_max_def Let_def)
qed

lemma fl_demo_writes:
  assumes "fl_demo_reachable L l None 1 (Fl_Write_Slot 0 5) [5]"
  shows "fl_demo_reachable L l (Some 5) 1 (Fl_Drop Lk_Read None) [5]"
  using reach_step[OF assms fl_accesses[of 0]] by (simp add: fl_demo_def fl_after_def fb_write_def write_cell_def)

abbreviation fl_demo_spin :: "usize \<Rightarrow> rw_pc \<Rightarrow> rw_system" where
  "fl_demo_spin w pc \<equiv> \<lparr>rw_word = w, rw_pcs = [pc, Rw_Idle]\<rparr>"

lemma fl_demo_spin_reserved: "fl_demo_reachable (rw_raw True True) (fl_demo_spin 1 Rw_Shared) None 1 (Fl_Write_Slot 0 5) [5]"
proof (rule fl_demo_reserves)
  have "fl_demo_reachable (rw_raw True True) (fl_demo_spin 0 Rw_Idle) None 0 Fl_Idle []"
    by (rule fl_demo_init) (simp add: rw_raw_def rw_init_def rw_new_def)
  from reach_step[OF this fl_calls[where i = 0 and l = "fl_demo_spin 1 Rw_Shared" and c = fl_demo_call]]
  show "fl_demo_reachable (rw_raw True True) (fl_demo_spin 1 Rw_Shared) None 0 (Fl_Lock Lk_Read fl_demo_call) []"
    by (simp add: fl_demo_def rw_raw_def rw_thread_def rw_lock_shared_start_def fetch_add_def rw_checked_def
        locks_count_check_def exclusive_pending_def shared_lock_threshold_def)
qed (simp add: rw_raw_def rw_holds_shared_def)

lemma fl_demo_spin_done: "fl_demo_reachable (rw_raw True True) (fl_demo_spin 0 Rw_Idle) (Some 5) 1 Fl_Idle [5]"
proof -
  have "fl_demo_reachable (rw_raw True True) (fl_demo_spin 0 Rw_Idle) (Some 5) 1 (Fl_Dropping None) [5]"
    using reach_step[OF fl_demo_writes[OF fl_demo_spin_reserved] fl_unlocks[where i = 0 and l = "fl_demo_spin 0 Rw_Idle"]]
    by (simp add: fl_demo_def rw_raw_def rw_thread_def rw_unlock_shared_def fetch_sub_def)
  from reach_step[OF this fl_returns[of 0]] show ?thesis by (simp add: fl_demo_def rw_raw_def)
qed

lemma fl_demo_rwlock_reserved:
  "fl_demo_reachable (rl_raw cv_hurry cv_hurry) (rl_demo (rl_demo_ptr None 1) (\<lambda>_. None) Rl_Shared Rl_Idle) None 1
    (Fl_Write_Slot 0 5) [5]"
proof (rule fl_demo_reserves)
  let ?L = "rl_raw cv_hurry cv_hurry"
  let ?l0 = "rl_demo null_mut (\<lambda>_. None) Rl_Idle Rl_Idle" and ?l1 = "rl_demo null_mut (\<lambda>_. None) (Rl_Fast Rl_S) Rl_Idle"
  let ?l2 = "rl_demo (rl_demo_ptr None 1) (\<lambda>_. None) Rl_Shared Rl_Idle"
  have "fl_demo_reachable ?L ?l0 None 0 Fl_Idle []"
    by (rule fl_demo_init) (simp add: rl_raw_def rl_init_def rl_demo_def rl_new_def cv_zero_def aps_null_zero_def)
  from reach_step[OF this fl_calls[where i = 0 and l = ?l1 and c = fl_demo_call]]
  have "fl_demo_reachable ?L ?l1 None 0 (Fl_Lock Lk_Read fl_demo_call) []"
    by (simp add: fl_demo_def rl_raw_def rl_at_def rl_mode_of_def rl_demo_def)
  moreover have "lk_run ?L 0 ?l1 ?l2"
    by (simp add: rl_raw_def rl_demo_def rl_demo_eval) (rule exI[of _ 256], simp)
  ultimately show "fl_demo_reachable ?L ?l2 None 0 (Fl_Lock Lk_Read fl_demo_call) []"
    using fl_lock_runs[of 0 "fl_demo ?l1 None 0 (Fl_Lock Lk_Read fl_demo_call) []" ?L ?l2 8]
    by (auto simp: fl_demo_def intro: reach_step)
qed (simp add: rl_raw_def rl_at_def rl_demo_def rl_mode_of_def rl_held_def)

section \<open>Properties\<close>

text \<open>
  Claim C3. A \<open>FlipQueue\<close> over any lock with the contract of a reader-writer lock behaves as the system of
  \<open>Flip_Race\<close>, however its threads, the accesses inside the lock and the accesses to the buffer interleave:
  each reachable state is a reachable state there, so the write guard makes \<open>push_slow\<close>, \<open>pop_slow\<close>,
  \<open>swap_buffer\<close> and each step of the closure of \<open>drain_locking\<close> atomic with respect to the calls under read guards; and a thread that has the write guard is the only
  one that has a guard.
\<close>

theorem flip_queue_locked_refines:
  assumes "rw_lock_contract L lock_inv" and "reachable (fl_init sz L) (fl_step sz L) s"
  shows "reachable (flip_init sz) (flip_step sz) (fl_abs s) \<and>
    (\<forall>i < length (fl_pcs s). \<forall>j < length (fl_pcs s).
      fl_guard (fl_pcs s ! i) = Some Lk_Write \<and> fl_guard (fl_pcs s ! j) \<noteq> None \<longrightarrow> j = i)"
  using rw_lock_contract.fl_refines[OF assms] .

theorem flip_queue_locked_refines_witness:
  "reachable (flip_init 8) (flip_step 8) (fl_abs (fl_demo (fl_demo_spin 1 Rw_Shared) None 1 (Fl_Write_Slot 0 5) [5])) \<and>
   reachable (flip_init 8) (flip_step 8)
     (fl_abs (fl_demo (rl_demo (rl_demo_ptr None 1) (\<lambda>_. None) Rl_Shared Rl_Idle) None 1 (Fl_Write_Slot 0 5) [5]))"
  using flip_queue_locked_refines[OF rw_lock.rw_lock_contract_axioms fl_demo_spin_reserved]
    flip_queue_locked_refines[OF rl_lock.rw_lock_contract_axioms fl_demo_rwlock_reserved] by blast

text \<open>
  Claim C6. A \<open>FlipQueue\<close> over its default lock \<open>RawRwSpin\<close> loses nothing: whenever every thread is between
  calls, exactly the first \<open>k\<close> accepted values have left the queue (by pops, drains and swaps), each once, and the
  queue holds the others in the order in which they were accepted, however the calls interleaved.
\<close>

theorem flip_queue_over_spin_conserves:
  assumes "reachable (fl_init sz (rw_raw dbg std)) (fl_step sz (rw_raw dbg std)) s" and "set (fl_pcs s) \<subseteq> {Fl_Idle}"
  shows "\<exists>k \<le> length (fl_in s). fb_contents (fl_buf s) = drop k (fl_in s) \<and>
    mset (map snd (fl_got s)) = mset (take k (fl_in s)) \<and>
    distinct (map fst (fl_got s)) \<and> (\<forall>(p, v) \<in> set (fl_got s). p < k \<and> v = fl_in s ! p)"
  using rw_lock.fl_idle_conserves[OF assms] .

theorem flip_queue_over_spin_conserves_witness:
  "\<exists>k. fb_contents (fl_buf (fl_demo (fl_demo_spin 0 Rw_Idle) (Some 5) 1 Fl_Idle [5])) = drop k [5] \<and>
    mset [] = mset (take k [5 :: nat])"
  using flip_queue_over_spin_conserves[OF fl_demo_spin_done] by (auto simp: fl_demo_def)

end
