(* ===== verification/Flip_Order.thy ===== *)
theory Flip_Order
  imports Flip_Lock Spin_Order
begin

text \<open>
  The memory orderings of a \<open>FlipQueue\<close> of \<open>src/src/flip_queue.rs\<close>: the system of \<open>Flip_Lock\<close> over a lock that
  runs on the memory of \<open>Mem_Order\<close>, in which every access to the buffer is recorded with the part of the buffer
  that it touches. The queue shares one read guard among threads that write different elements, so the
  freedom from races under a lock is not enough: the tickets of the two counters have to keep the elements apart, and
  what one thread did under a read guard has to reach the next thread with the write guard, and through it
  everyone after it.

  The counters are atomic and are changed by \<open>fetch_add\<close>, which reads the newest value, so the tickets are those of
  the interleaving. \<open>flush\<close> resets them without an atomic access, under the write guard; that no
  \<open>fetch_add\<close> can be concurrent with it is a part of what is shown. The relaxed load of \<open>pushed\<close> in \<open>pop_sync\<close> may read an old value:
  it can find 0 although there is a push. The methods that take \<open>&mut self\<close> are left out here; who has the mutable reference has
  synchronised with every earlier borrower by other means.
\<close>

section \<open>What is touched\<close>

text \<open>
  Under a read guard a thread reads the header (the pointer, head, length and capacity) and uses the counters
  atomically, and then reads or writes one element; under the write guard it may touch everything. Every access
  under a guard touches the header.
\<close>

datatype touch = Touch_Header | Touch_Read nat | Touch_Write nat | Touch_All

fun fl_touch :: "'a fl_pc \<Rightarrow> touch option" where
  "fl_touch (Fl_Reserve _) = Some Touch_Header"
| "fl_touch Fl_Check = Some Touch_Header"
| "fl_touch (Fl_Write_Slot idx _) = Some (Touch_Write idx)"
| "fl_touch (Fl_Read_Slot idx _) = Some (Touch_Read idx)"
| "fl_touch (Fl_Flush _) = Some Touch_All"
| "fl_touch (Fl_Apply _) = Some Touch_All"
| "fl_touch _ = None"

fun touch_conflict :: "touch \<Rightarrow> touch \<Rightarrow> bool" where
  "touch_conflict Touch_All _ = True"
| "touch_conflict _ Touch_All = True"
| "touch_conflict (Touch_Write i) (Touch_Write j) = (i = j)"
| "touch_conflict (Touch_Write i) (Touch_Read j) = (i = j)"
| "touch_conflict (Touch_Read i) (Touch_Write j) = (i = j)"
| "touch_conflict _ _ = False"

lemma fl_touch_guard:
  "fl_touch pc = Some k \<Longrightarrow> fl_guard pc = Some (if k = Touch_All then Lk_Write else Lk_Read)"
  by (cases pc) auto

lemma fl_untouched: "fl_touch pc = None \<Longrightarrow> fl_writes pc = []"
  by (cases pc) simp_all

section \<open>The system\<close>

text \<open>
  \<open>fo_log\<close> says of each access in the log of the memory what it touched. For the lock, an access
  under the write guard writes, and one under a read guard reads; what a reader does to its own element is only
  in \<open>fo_log\<close>.
\<close>

record ('p, 'w, 'a) fo_system =
  fo_fl :: "(('p, 'w) mem_system, 'a) fl_system"
  fo_log :: "touch list"

definition fo_init :: "nat \<Rightarrow> ('p, 'w) mem_system raw_lock \<Rightarrow> ('p, 'w, 'a) fo_system \<Rightarrow> bool" where
  "fo_init sz L s \<longleftrightarrow> fl_init sz L (fo_fl s) \<and> ms_log (fl_lock (fo_fl s)) = [] \<and> fo_log s = []"

abbreviation fo_mem :: "('p, 'w, 'a) fo_system \<Rightarrow> ('p, 'w) mem_system" where
  "fo_mem s \<equiv> fl_lock (fo_fl s)"

abbreviation fo_pcs :: "('p, 'w, 'a) fo_system \<Rightarrow> 'a fl_pc list" where
  "fo_pcs s \<equiv> fl_pcs (fo_fl s)"

definition fl_logs :: "nat \<Rightarrow> touch \<Rightarrow> (('p, 'w) mem_system, 'a) fl_system \<Rightarrow> (('p, 'w) mem_system, 'a) fl_system" where
  "fl_logs i k s = s\<lparr>fl_lock := mem_logs i (k = Touch_All) 0 (fl_lock s)\<rparr>"

text \<open>
  The steps of \<open>Flip_Lock\<close>: those that are no access to the buffer change the lock and the place of one thread, the others
  are recorded. The \<open>fetch_add\<close> and the read of the header after it are one access.
\<close>

inductive fo_step :: "nat \<Rightarrow> ('p, 'w) mem_system raw_lock \<Rightarrow> ('p, 'w, 'a) fo_system \<Rightarrow> ('p, 'w, 'a) fo_system \<Rightarrow> bool"
  for sz L where
  fo_moves: "i < length (fo_pcs s) \<Longrightarrow> fl_touch (fo_pcs s ! i) = None \<Longrightarrow>
    t = (fo_fl s)\<lparr>fl_lock := l, fl_pcs := (fo_pcs s)[i := pc]\<rparr> \<Longrightarrow> fl_step sz L (fo_fl s) t \<Longrightarrow>
    fo_step sz L s (s\<lparr>fo_fl := t\<rparr>)"
| fo_accesses: "i < length (fo_pcs s) \<Longrightarrow> fl_touch (fo_pcs s ! i) = Some k \<Longrightarrow>
    fl_room (fo_pcs s ! i) (fl_buf (fo_fl s)) \<Longrightarrow>
    fl_access sz (fo_pcs s ! i) (fl_buf (fo_fl s)) = Inr (pc, r, fb) \<Longrightarrow>
    fo_step sz L s \<lparr>fo_fl = fl_after i pc r fb (fl_logs i k (fo_fl s)), fo_log = fo_log s @ [k]\<rparr>"
| fo_checks_stale: "i < length (fo_pcs s) \<Longrightarrow> fo_pcs s ! i = Fl_Check \<Longrightarrow>
    fo_step sz L s \<lparr>fo_fl = (fl_logs i Touch_Header (fo_fl s))\<lparr>fl_pcs := (fo_pcs s)[i := Fl_Drop Lk_Read None]\<rparr>,
      fo_log = fo_log s @ [Touch_Header]\<rparr>"
| fo_panics: "i < length (fo_pcs s) \<Longrightarrow> fo_pcs s ! i = Fl_Apply c \<Longrightarrow>
    fl_access sz (Fl_Apply c) (fl_buf (fo_fl s)) = Inl e \<Longrightarrow>
    fo_step sz L s \<lparr>fo_fl = (fl_logs i Touch_All (fo_fl s))\<lparr>fl_pcs := (fo_pcs s)[i := Fl_Drop Lk_Write None]\<rparr>,
      fo_log = fo_log s @ [Touch_All]\<rparr>"

text \<open>
  No data race: what a thread touches next happens after every earlier access to the same, unless both read.
\<close>

definition fo_race_free :: "('p, 'w, 'a) fo_system \<Rightarrow> bool" where
  "fo_race_free s \<longleftrightarrow> (\<forall>i < length (fo_pcs s). \<forall>k. fl_touch (fo_pcs s ! i) = Some k \<longrightarrow>
     (\<forall>e < length (fo_log s). touch_conflict k (fo_log s ! e) \<longrightarrow> e \<in> ms_seen (fo_mem s) ! i))"

section \<open>The invariant\<close>

definition touch_logged :: "touch list \<Rightarrow> data_access list \<Rightarrow> bool" where
  "touch_logged ks log \<longleftrightarrow> map (\<lambda>k. k = Touch_All) ks = map da_write log"

text \<open>Who knows of an access under the write guard knows of everything before it.\<close>

definition touch_closed :: "touch list \<Rightarrow> nat set \<Rightarrow> bool" where
  "touch_closed ks V \<longleftrightarrow> V \<subseteq> {..<length ks} \<and> (\<forall>e \<in> V. ks ! e = Touch_All \<longrightarrow> {..<e} \<subseteq> V)"

text \<open>
  Since the last access under the write guard the slots that were written are those of granted pushes that are not
  outstanding any more, and the slots that were read are behind none of them.
\<close>

fun touch_ok :: "'a flip_buffer \<Rightarrow> (nat \<times> 'a) list \<Rightarrow> touch \<Rightarrow> bool" where
  "touch_ok fb ws (Touch_Write idx) \<longleftrightarrow> idx \<notin> fst ` set ws \<and>
     (\<exists>j. rb_len (fb_buffer fb) \<le> j \<and> j < rb_len (fb_buffer fb) + fb_pushes fb \<and> idx = rb_slot (fb_buffer fb) j)"
| "touch_ok fb ws (Touch_Read idx) \<longleftrightarrow> (\<exists>j < rb_len (fb_buffer fb). idx = rb_slot (fb_buffer fb) j)"
| "touch_ok fb ws _ \<longleftrightarrow> True"

definition touch_epoch :: "touch list \<Rightarrow> 'a flip_buffer \<Rightarrow> (nat \<times> 'a) list \<Rightarrow> bool" where
  "touch_epoch ks fb ws \<longleftrightarrow> (\<forall>k \<in> set (takeWhile (\<lambda>k. k \<noteq> Touch_All) (rev ks)). touch_ok fb ws k)"

definition fo_inv :: "(('p, 'w) mem_system \<Rightarrow> bool) \<Rightarrow> ('p, 'w) mem_system raw_lock \<Rightarrow> ('p, 'w, 'a) fo_system \<Rightarrow> bool" where
  "fo_inv lock_inv L s \<longleftrightarrow> fl_inv lock_inv L (fo_fl s) \<and> flip_inv (fl_abs (fo_fl s)) \<and>
     touch_logged (fo_log s) (ms_log (fo_mem s)) \<and> (\<forall>V \<in> mem_views (fo_mem s). touch_closed (fo_log s) V) \<and>
     touch_epoch (fo_log s) (fl_buf (fo_fl s)) (fs_writes (fl_abs (fo_fl s)))"

lemma touch_logged_length: "touch_logged ks log \<Longrightarrow> length ks = length log"
  unfolding touch_logged_def by (metis length_map)

lemma touch_logged_nth:
  assumes "touch_logged ks log" and "e < length ks"
  shows "ks ! e = Touch_All \<longleftrightarrow> da_write (log ! e)"
proof -
  have "map (\<lambda>k. k = Touch_All) ks ! e = map da_write log ! e" using assms(1) by (simp add: touch_logged_def)
  then show ?thesis using assms(2) touch_logged_length[OF assms(1)] by simp
qed

lemma touch_closed_empty: "touch_closed ks {}"
  by (simp add: touch_closed_def)

lemma touch_closed_Un: "touch_closed ks A \<Longrightarrow> touch_closed ks B \<Longrightarrow> touch_closed ks (A \<union> B)"
  by (auto simp: touch_closed_def)

lemma touch_closed_snoc: "touch_closed ks V \<Longrightarrow> touch_closed (ks @ [k]) V"
  by (auto simp: touch_closed_def nth_append subset_iff)

lemma touch_closed_insert:
  assumes V: "touch_closed ks V" and k: "k = Touch_All \<Longrightarrow> {..<length ks} \<subseteq> V"
  shows "touch_closed (ks @ [k]) (insert (length ks) V)"
proof -
  have "{..<e} \<subseteq> insert (length ks) V" if e: "e \<in> insert (length ks) V" and all: "(ks @ [k]) ! e = Touch_All" for e
  proof (cases "e = length ks")
    case True
    with all k show ?thesis by auto
  next
    case False
    with e V have "e \<in> V" "e < length ks" by (auto simp: touch_closed_def)
    with all V show ?thesis by (auto simp: touch_closed_def nth_append)
  qed
  moreover have "insert (length ks) V \<subseteq> {..<length (ks @ [k])}" using V by (auto simp: touch_closed_def)
  ultimately show ?thesis unfolding touch_closed_def by blast
qed

lemma touch_epoch_snoc:
  "touch_epoch (ks @ [k]) fb ws \<longleftrightarrow> k = Touch_All \<or> touch_ok fb ws k \<and> touch_epoch ks fb ws"
  by (auto simp: touch_epoch_def)

lemma in_last_stretch:
  "e < length ks \<Longrightarrow> ks ! e \<in> set (takeWhile P (rev ks)) \<or> (\<exists>k. e \<le> k \<and> k < length ks \<and> \<not> P (ks ! k))"
proof (induction ks rule: rev_induct)
  case (snoc x ks)
  consider "\<not> P x" | "P x" "e = length ks" | "P x" "e < length ks"
    using less_SucE[of e "length ks"] snoc.prems by (metis length_append_singleton)
  then show ?case
  proof cases
    case 1
    with snoc.prems have "e \<le> length ks \<and> length ks < length (ks @ [x]) \<and> \<not> P ((ks @ [x]) ! length ks)" by simp
    then show ?thesis by blast
  next
    case 3
    from snoc.IH[OF 3(2)] show ?thesis
    proof
      assume "\<exists>k. e \<le> k \<and> k < length ks \<and> \<not> P (ks ! k)"
      then obtain k where "e \<le> k" "k < length ks" "\<not> P (ks ! k)" by blast
      then have "e \<le> k \<and> k < length (ks @ [x]) \<and> \<not> P ((ks @ [x]) ! k)" by (simp add: nth_append)
      then show ?thesis by blast
    qed (use 3 in \<open>simp add: nth_append\<close>)
  qed simp
qed simp

text \<open>An access under a read guard leaves the header, and the slots stay where they are.\<close>

definition fb_same_header :: "'a flip_buffer \<Rightarrow> 'a flip_buffer \<Rightarrow> bool" where
  "fb_same_header fb fb' \<longleftrightarrow> rb_len (fb_buffer fb') = rb_len (fb_buffer fb) \<and>
     rb_slot (fb_buffer fb') = rb_slot (fb_buffer fb) \<and> fb_pushes fb \<le> fb_pushes fb'"

lemma fb_same_header_counts:
  "fb_same_header fb fb" "fb_same_header fb (fb\<lparr>fb_popped := n\<rparr>)"
  "unat (fb_pushed fb) + 1 < 2 ^ 64 \<Longrightarrow> fb_same_header fb (fb\<lparr>fb_pushed := fb_pushed fb + 1\<rparr>)"
  using u64_incr[of "fb_pushed fb"] by (auto simp: fb_same_header_def fb_pushes_def)

lemma fb_same_header_write:
  assumes "fb_write idx v fb = Inr fb'"
  shows "fb_same_header fb fb'"
proof -
  have "fb' = fb\<lparr>fb_buffer := (fb_buffer fb)\<lparr>rb_array := (rb_array (fb_buffer fb))[idx := Some v]\<rparr>\<rparr>"
    using assms by (auto simp: fb_write_def write_cell_def split: if_splits)
  then show ?thesis by (simp add: fb_same_header_def fb_pushes_def rb_slot_def fun_eq_iff)
qed

lemma fl_shared_frame:
  assumes access: "fl_access sz pc fb = Inr (pc', r, fb')" and "fl_guard pc = Some Lk_Read" and room: "fl_room pc fb"
  shows "fb_same_header fb fb'"
proof (cases pc)
  case (Fl_Reserve c)
  show ?thesis
  proof (cases c)
    case (Fl_Push slow v)
    with access Fl_Reserve have "fb' = fb\<lparr>fb_pushed := fb_pushed fb + 1\<rparr>"
      by (auto simp: bind_res_Inr_conv fb_push_reserve_def)
    with room Fl_Reserve Fl_Push show ?thesis by (simp add: fb_same_header_counts)
  next
    case (Fl_Pop slow)
    with access Fl_Reserve have "fb' = fb\<lparr>fb_popped := fb_popped fb + 1\<rparr>"
      by (auto simp: bind_res_Inr_conv fb_pop_reserve_def)
    then show ?thesis by (simp add: fb_same_header_counts)
  qed (use access Fl_Reserve in \<open>simp_all add: fb_same_header_counts\<close>)
next
  case (Fl_Write_Slot idx v)
  with access show ?thesis by (auto simp: bind_res_Inr_conv intro: fb_same_header_write)
qed (use assms in \<open>auto simp: bind_res_Inr_conv fb_same_header_counts\<close>)

lemma touch_epoch_mono:
  assumes "touch_epoch ks fb ws" and "fb_same_header fb fb'"
    and "\<And>j. rb_len (fb_buffer fb) \<le> j \<Longrightarrow> j < rb_len (fb_buffer fb) + fb_pushes fb \<Longrightarrow>
      rb_slot (fb_buffer fb) j \<in> fst ` set ws' \<Longrightarrow> rb_slot (fb_buffer fb) j \<in> fst ` set ws"
  shows "touch_epoch ks fb' ws'"
proof -
  have "touch_ok fb' ws' k" if "touch_ok fb ws k" for k
  proof (cases k)
    case (Touch_Write idx)
    with that obtain j where j: "idx \<notin> fst ` set ws" "rb_len (fb_buffer fb) \<le> j"
      "j < rb_len (fb_buffer fb) + fb_pushes fb" "idx = rb_slot (fb_buffer fb) j" by auto
    with assms(2,3) have "idx \<notin> fst ` set ws' \<and> rb_len (fb_buffer fb') \<le> j \<and>
        j < rb_len (fb_buffer fb') + fb_pushes fb' \<and> idx = rb_slot (fb_buffer fb') j"
      by (auto simp: fb_same_header_def)
    with Touch_Write show ?thesis by auto
  qed (use that assms(2) in \<open>auto simp: fb_same_header_def\<close>)
  with assms(1) show ?thesis by (simp add: touch_epoch_def)
qed

text \<open>A granted push gets the slot behind those of all the pushes before it.\<close>

lemma fl_new_write:
  assumes "fl_access sz pc fb = Inr (pc', r, fb')" and "fl_guard pc = Some Lk_Read" and rbi: "rb_inv (fb_buffer fb)"
  shows "fl_writes pc' = [] \<or> (\<exists>v. fl_writes pc' = [(rb_slot (fb_buffer fb) (rb_len (fb_buffer fb) + fb_pushes fb), v)] \<and>
    rb_len (fb_buffer fb) + fb_pushes fb < rb_cap (fb_buffer fb))"
proof (cases pc)
  case (Fl_Reserve c)
  show ?thesis
  proof (cases c)
    case (Fl_Push slow v)
    with assms(1) Fl_Reserve have pc': "pc' = (if unat (fb_pushed fb) < rb_cap (fb_buffer fb) - rb_len (fb_buffer fb)
        then Fl_Write_Slot (rb_slot (fb_buffer fb) (rb_len (fb_buffer fb) + unat (fb_pushed fb))) v
        else Fl_Drop Lk_Read (if slow then Some c else None))"
      by (auto simp: fb_push_reserve_def fb_push_slot_eq rbi)
    then show ?thesis by (auto simp: fb_pushes_def min_def)
  qed (use assms Fl_Reserve in \<open>auto simp: bind_res_Inr_conv split: prod.splits option.splits if_splits\<close>)
qed (use assms in \<open>auto simp: bind_res_Inr_conv\<close>)

lemma touch_epoch_shared:
  assumes inv: "flip_inv (fl_abs s)" and i: "i < length (fl_pcs s)" and guard: "fl_guard (fl_pcs s ! i) = Some Lk_Read"
    and room: "fl_room (fl_pcs s ! i) (fl_buf s)" and access: "fl_access sz (fl_pcs s ! i) (fl_buf s) = Inr (pc, r, fb)"
    and touch: "fl_touch (fl_pcs s ! i) = Some k" and epoch: "touch_epoch ks (fl_buf s) (fs_writes (fl_abs s))"
  shows "touch_epoch (ks @ [k]) fb (fs_writes (fl_abs (fl_after i pc r fb s)))"
proof -
  let ?rb = "fb_buffer (fl_buf s)"
  have moved: "fl_moved (fl_pcs s ! i) r (fl_buf s) = 0" using guard by (cases "fl_pcs s ! i") auto
  obtain ws ws' where old: "fs_writes (fl_abs s) = ws @ fl_writes (fl_pcs s ! i) @ ws'"
    and new: "fs_writes (fl_abs (fl_after i pc r fb s)) = ws @ fl_writes pc @ ws'"
    using fl_abs_after[OF i moved, of pc fb] by auto
  note same = fl_shared_frame[OF access guard room]
  have rbi: "rb_inv ?rb" using flip_inv_rb[OF inv] by (simp add: fl_abs_def)
  have "rb_slot ?rb j \<notin> fst ` set (fl_writes pc)" if "j < rb_len ?rb + fb_pushes (fl_buf s)" for j
    using fl_new_write[OF access guard rbi] that rb_slot_inj[OF rbi, of j "rb_len ?rb + fb_pushes (fl_buf s)"] by auto
  then have "touch_epoch ks fb (ws @ fl_writes pc @ ws')"
    by (intro touch_epoch_mono[OF epoch same]) (auto simp: old)
  moreover have "touch_ok fb (ws @ fl_writes pc @ ws') k"
  proof (cases "fl_pcs s ! i")
    case (Fl_Write_Slot idx v)
    then have k: "k = Touch_Write idx" "fl_writes pc = []" using touch access by (auto simp: bind_res_Inr_conv)
    have "flip_writes_ok (fl_buf s) (ws @ (idx, v) # ws') (fl_in s) (fl_base s)"
      using inv old Fl_Write_Slot by (simp add: flip_inv_def fl_abs_def)
    then obtain j where "idx \<notin> fst ` set (ws @ ws')" "rb_len ?rb \<le> j" "j < rb_len ?rb + fb_pushes (fl_buf s)"
      "idx = rb_slot ?rb j" by (auto simp: flip_writes_ok_def)
    with k same show ?thesis by (auto simp: fb_same_header_def)
  next
    case (Fl_Read_Slot idx n)
    with fl_outstanding(2)[OF i] have "(idx, fl_base s + unat n) \<in> set (fs_reads (fl_abs s))" by simp
    moreover have "flip_reads_ok (fl_buf s) (fs_reads (fl_abs s)) (fl_base s)"
      using inv by (simp add: flip_inv_def fl_abs_def)
    ultimately have "unat n < fb_pops (fl_buf s)" "idx = rb_slot ?rb (unat n)" by (auto simp: flip_reads_ok_def)
    with touch Fl_Read_Slot same fb_pops_le[of "fl_buf s"] show ?thesis
      by (auto simp: fb_same_header_def intro!: exI[of _ "unat n"])
  qed (use touch guard in auto)
  ultimately show ?thesis by (simp add: touch_epoch_snoc new)
qed

section \<open>Every step keeps the invariant\<close>

lemma flip_steps_keep: "(flip_step sz)\<^sup>*\<^sup>* a b \<Longrightarrow> flip_inv a \<Longrightarrow> flip_inv b"
  by (induction rule: rtranclp_induct) (auto intro: flip_sys.step_inv)

lemma fl_logs_simps [simp]:
  "fl_buf (fl_logs i k s) = fl_buf s" "fl_pcs (fl_logs i k s) = fl_pcs s" "fl_abs (fl_logs i k s) = fl_abs s"
  "fl_lock (fl_logs i k s) = mem_logs i (k = Touch_All) 0 (fl_lock s)"
  by (simp_all add: fl_logs_def fl_abs_def)

lemma fl_lock_after [simp]: "fl_lock (fl_after i pc r fb s) = fl_lock s" "fl_buf (fl_after i pc r fb s) = fb"
  by (simp_all add: fl_after_def)

text \<open>What a step does to the lock, and that the place to which it goes has no slot yet.\<close>

lemma fl_step_lock:
  "fl_step sz L s t \<Longrightarrow> fl_lock t = fl_lock s \<or> (\<exists>i. lk_thread L i (fl_lock s) (fl_lock t))"
  by (induction rule: fl_step.induct) (auto simp: fl_after_def fl_empties_def intro: lk_threadI)

lemma fl_step_untouched:
  assumes "fl_step sz L s t" and "i < length (fl_pcs s)" and "fl_touch (fl_pcs s ! i) = None"
  shows "fl_writes (fl_pcs t ! i) = []"
  using assms
proof (induction rule: fl_step.induct)
  case (fl_accesses j s pc r fb)
  then show ?case
  proof (cases "i = j")
    case True
    with fl_accesses have "pc = fl_pcs s ! i" by (cases "fl_pcs s ! i") auto
    with fl_accesses True show ?thesis by (simp add: fl_after_def fl_untouched)
  qed (simp add: fl_after_def fl_untouched)
next
  case (fl_locks j s m c)
  then show ?case by (cases m) (auto simp: nth_list_update fl_locked_def fl_untouched)
qed (auto simp: nth_list_update fl_untouched fl_empties_def)

lemma mem_views_logs:
  "V \<in> mem_views (mem_logs i wr loc s) \<Longrightarrow> V = insert (length (ms_log s)) (ms_seen s ! i) \<or> V \<in> mem_views s"
  using set_update_subset_insert[of "ms_seen s" i "insert (length (ms_log s)) (ms_seen s ! i)"]
  by (auto simp: mem_views_def)

context ordered_lock begin

text \<open>Who is about to touch the buffer holds the lock in the mode for it.\<close>

lemma fo_holder:
  assumes "fl_inv order_inv (raw idle calls runs unlocks) s" and "i < length (fl_pcs s)" and "fl_touch (fl_pcs s ! i) = Some k"
  shows "i < length (ms_pcs (fl_lock s)) \<and>
    (if k = Touch_All then excl (ms_pcs (fl_lock s) ! i) else shared (ms_pcs (fl_lock s) ! i))"
proof -
  have "lk_guard (raw idle calls runs unlocks) (if k = Touch_All then Lk_Write else Lk_Read) i (fl_lock s)"
    using assms(1,2) fl_touch_guard[OF assms(3)] by (simp add: fl_inv_def fl_thread_ok_def)
  then show ?thesis by (auto simp: mem_raw_def)
qed

lemma fl_inv_logs:
  assumes inv: "fl_inv order_inv (raw idle calls runs unlocks) s" and i: "i < length (fl_pcs s)"
    and k: "fl_touch (fl_pcs s ! i) = Some k"
  shows "fl_inv order_inv (raw idle calls runs unlocks) (fl_logs i k s)"
proof -
  have "order_inv (fl_lock s)" using inv by (simp add: fl_inv_def)
  from order_inv_log[OF this] fo_holder[OF assms] have "order_inv (mem_logs i (k = Touch_All) 0 (fl_lock s))"
    by (auto split: if_splits)
  moreover have "lk_guard (raw idle calls runs unlocks) m j (mem_logs i wr loc (fl_lock s)) =
      lk_guard (raw idle calls runs unlocks) m j (fl_lock s)" for m j wr loc
    by (cases m) (simp_all add: mem_raw_def)
  ultimately show ?thesis using inv by (simp add: fl_inv_def fl_thread_ok_def)
qed

lemma fo_logs_recorded:
  assumes inv: "fo_inv order_inv (raw idle calls runs unlocks) s" and i: "i < length (fo_pcs s)"
    and k: "fl_touch (fo_pcs s ! i) = Some k"
  shows "touch_logged (fo_log s @ [k]) (ms_log (fl_lock (fl_logs i k (fo_fl s))))"
    and "V \<in> mem_views (fl_lock (fl_logs i k (fo_fl s))) \<Longrightarrow> touch_closed (fo_log s @ [k]) V"
proof -
  have logged: "touch_logged (fo_log s) (ms_log (fo_mem s))" and closed: "\<forall>V \<in> mem_views (fo_mem s). touch_closed (fo_log s) V"
    and fl: "fl_inv order_inv (raw idle calls runs unlocks) (fo_fl s)" using inv by (auto simp: fo_inv_def)
  then show "touch_logged (fo_log s @ [k]) (ms_log (fl_lock (fl_logs i k (fo_fl s))))"
    by (simp add: touch_logged_def)
  note n = touch_logged_length[OF logged] and holder = fo_holder[OF fl i k]
  have know: "holders_know excl shared (fo_mem s)" and wf: "mem_wf (fo_mem s)"
    using fl by (auto simp: fl_inv_def lock_order_inv_def)
  have "touch_closed (fo_log s) (ms_seen (fo_mem s) ! i)" using closed mem_views_nth[OF wf] holder by blast
  moreover have "{..<length (fo_log s)} \<subseteq> ms_seen (fo_mem s) ! i" if "k = Touch_All"
    using know holder that n by (simp add: holders_know_def)
  ultimately have "touch_closed (fo_log s @ [k]) (insert (length (fo_log s)) (ms_seen (fo_mem s) ! i))"
    by (intro touch_closed_insert)
  moreover assume "V \<in> mem_views (fl_lock (fl_logs i k (fo_fl s)))"
  ultimately show "touch_closed (fo_log s @ [k]) V"
    using closed n by (auto dest!: mem_views_logs intro: touch_closed_snoc)
qed

text \<open>The steps.\<close>

lemma fo_inv_moves:
  assumes inv: "fo_inv order_inv (raw idle calls runs unlocks) s" and i: "i < length (fo_pcs s)"
    and none: "fl_touch (fo_pcs s ! i) = None" and t: "t = (fo_fl s)\<lparr>fl_lock := l, fl_pcs := (fo_pcs s)[i := pc]\<rparr>"
    and step: "fl_step sz (raw idle calls runs unlocks) (fo_fl s) t"
  shows "fo_inv order_inv (raw idle calls runs unlocks) (s\<lparr>fo_fl := t\<rparr>)"
proof -
  let ?L = "raw idle calls runs unlocks"
  have fl: "fl_inv order_inv ?L (fo_fl s)" and flip: "flip_inv (fl_abs (fo_fl s))"
    and logged: "touch_logged (fo_log s) (ms_log (fo_mem s))" and closed: "\<forall>V \<in> mem_views (fo_mem s). touch_closed (fo_log s) V"
    and epoch: "touch_epoch (fo_log s) (fl_buf (fo_fl s)) (fs_writes (fl_abs (fo_fl s)))"
    using inv by (auto simp: fo_inv_def)
  have wf: "mem_wf (fo_mem s)" using fl by (auto simp: fl_inv_def lock_order_inv_def)
  have lock: "ms_log (fl_lock t) = ms_log (fo_mem s) \<and> (\<forall>V \<in> mem_views (fl_lock t). touch_closed (fo_log s) V)"
  proof (cases "fl_lock t = fo_mem s")
    case False
    with fl_step_lock[OF step] obtain j where "lk_thread ?L j (fo_mem s) (fl_lock t)" by blast
    then obtain ev k where exec: "mem_exec P (Act_Step j ev k) (fo_mem s) = Some (fl_lock t)" using mem_raw_thread by metis
    note log = mem_exec_frame(1)[OF exec]
    have "touch_closed (fo_log s) V" if "V \<in> mem_views (fl_lock t)" for V
      by (rule mem_views_step[OF mem_exec_step[OF exec] log wf, where Q = "touch_closed (fo_log s)"])
        (use that closed in \<open>auto intro: touch_closed_empty touch_closed_Un\<close>)
    with log show ?thesis by blast
  qed (use closed in simp)
  have "fl_writes pc = []" using fl_step_untouched[OF step i none] i by (simp add: t)
  then have "fs_writes (fl_abs t) = fs_writes (fl_abs (fo_fl s))"
    using i none by (simp add: t fl_abs_def map_update_same fl_untouched)
  with epoch have "touch_epoch (fo_log s) (fl_buf t) (fs_writes (fl_abs t))" by (simp add: t)
  with weak.fl_step_keeps[OF step fl] flip_steps_keep[OF weak.fl_step_abs[OF step fl] flip] logged lock show ?thesis
    by (simp add: fo_inv_def)
qed

text \<open>After an access that is recorded; its effect on the buffer is that in \<open>Flip_Lock\<close>.\<close>

lemma fo_inv_recorded:
  assumes inv: "fo_inv order_inv (raw idle calls runs unlocks) s" and i: "i < length (fo_pcs s)"
    and k: "fl_touch (fo_pcs s ! i) = Some k" and lock: "fl_lock u = fl_lock (fl_logs i k (fo_fl s))"
    and "fl_inv order_inv (raw idle calls runs unlocks) u" and "flip_inv (fl_abs u)"
    and "touch_epoch (fo_log s @ [k]) (fl_buf u) (fs_writes (fl_abs u))"
  shows "fo_inv order_inv (raw idle calls runs unlocks) \<lparr>fo_fl = u, fo_log = fo_log s @ [k]\<rparr>"
  using assms fo_logs_recorded[OF inv i k] unfolding fo_inv_def by simp

lemma fo_inv_accesses:
  assumes inv: "fo_inv order_inv (raw idle calls runs unlocks) s" and i: "i < length (fo_pcs s)"
    and k: "fl_touch (fo_pcs s ! i) = Some k" and room: "fl_room (fo_pcs s ! i) (fl_buf (fo_fl s))"
    and access: "fl_access sz (fo_pcs s ! i) (fl_buf (fo_fl s)) = Inr (pc, r, fb)"
  shows "fo_inv order_inv (raw idle calls runs unlocks)
    \<lparr>fo_fl = fl_after i pc r fb (fl_logs i k (fo_fl s)), fo_log = fo_log s @ [k]\<rparr>"
proof (rule fo_inv_recorded[OF inv i k])
  let ?u = "fl_logs i k (fo_fl s)"
  have fl: "fl_inv order_inv (raw idle calls runs unlocks) ?u" and flip: "flip_inv (fl_abs ?u)"
    using fl_inv_logs[OF _ i k] inv by (auto simp: fo_inv_def)
  have at: "i < length (fl_pcs ?u)" "fl_room (fl_pcs ?u ! i) (fl_buf ?u)"
    "fl_access sz (fl_pcs ?u ! i) (fl_buf ?u) = Inr (pc, r, fb)" "fl_touch (fl_pcs ?u ! i) = Some k"
    using i room access k by simp_all
  show "fl_inv order_inv (raw idle calls runs unlocks) (fl_after i pc r fb ?u)" by (rule weak.fl_inv_access[OF fl at(1,3)])
  show "flip_inv (fl_abs (fl_after i pc r fb ?u))" by (rule flip_steps_keep[OF weak.fl_access_abs[OF fl at(1-3)] flip])
  have "touch_epoch (fo_log s) (fl_buf ?u) (fs_writes (fl_abs ?u))" using inv by (simp add: fo_inv_def)
  from touch_epoch_shared[OF flip at(1) _ at(2-4) this] fl_touch_guard[OF at(4)]
  show "touch_epoch (fo_log s @ [k]) (fl_buf (fl_after i pc r fb ?u)) (fs_writes (fl_abs (fl_after i pc r fb ?u)))"
    by (cases "k = Touch_All") (simp_all add: touch_epoch_snoc)
qed simp

text \<open>An access that leaves the buffer, and of which only the next place matters.\<close>

lemma fo_inv_leaves:
  assumes inv: "fo_inv order_inv (raw idle calls runs unlocks) s" and i: "i < length (fo_pcs s)"
    and k: "fl_touch (fo_pcs s ! i) = Some k" "k = Touch_Header \<or> k = Touch_All"
    and pc: "pc = Fl_Drop (if k = Touch_All then Lk_Write else Lk_Read) None"
  shows "fo_inv order_inv (raw idle calls runs unlocks)
    \<lparr>fo_fl = (fl_logs i k (fo_fl s))\<lparr>fl_pcs := (fo_pcs s)[i := pc]\<rparr>, fo_log = fo_log s @ [k]\<rparr>"
proof (rule fo_inv_recorded[OF inv i k(1)])
  let ?L = "raw idle calls runs unlocks" and ?u = "fl_logs i k (fo_fl s)"
  let ?t = "?u\<lparr>fl_pcs := (fl_pcs ?u)[i := pc]\<rparr>"
  have fl: "fl_inv order_inv ?L ?u" using fl_inv_logs[OF _ i k(1)] inv by (simp add: fo_inv_def)
  have at: "i < length (fl_pcs ?u)" using i by simp
  have "fl_thread_ok ?L (fl_lock ?u) (fl_buf ?u) i (fl_pcs ?u ! i)" using fl at by (simp add: fl_inv_def)
  then have "fl_thread_ok ?L (fl_lock ?u) (fl_buf ?u) i pc"
    using fl_touch_guard[OF k(1)] by (simp add: fl_thread_ok_def pc)
  from weak.fl_inv_pc[OF fl at this] show "fl_inv order_inv ?L (?u\<lparr>fl_pcs := (fo_pcs s)[i := pc]\<rparr>)" by simp
  have slots: "fl_writes (fl_pcs ?u ! i) = []" "fl_reads b (fl_pcs ?u ! i) = []" for b
    using k by (cases "fo_pcs s ! i"; auto)+
  then have abs: "fl_abs ?t = fl_abs (fo_fl s)" using fl_abs_same(1)[OF at, of pc] by (simp add: pc)
  show "flip_inv (fl_abs (?u\<lparr>fl_pcs := (fo_pcs s)[i := pc]\<rparr>))" using abs inv by (simp add: fo_inv_def)
  show "touch_epoch (fo_log s @ [k]) (fl_buf (?u\<lparr>fl_pcs := (fo_pcs s)[i := pc]\<rparr>))
      (fs_writes (fl_abs (?u\<lparr>fl_pcs := (fo_pcs s)[i := pc]\<rparr>)))"
    using abs inv k(2) by (auto simp: touch_epoch_snoc fo_inv_def)
qed simp

lemma fo_step_keeps:
  "fo_step sz (raw idle calls runs unlocks) s t \<Longrightarrow> fo_inv order_inv (raw idle calls runs unlocks) s \<Longrightarrow>
    fo_inv order_inv (raw idle calls runs unlocks) t"
proof (induction rule: fo_step.induct)
  case (fo_moves i s t l pc)
  then show ?case using fo_inv_moves by blast
next
  case (fo_accesses i s k pc r fb)
  then show ?case using fo_inv_accesses by blast
next
  case (fo_checks_stale i s)
  then show ?case using fo_inv_leaves[of idle calls runs unlocks s i Touch_Header] by simp
next
  case (fo_panics i s c e)
  then show ?case using fo_inv_leaves[of idle calls runs unlocks s i Touch_All] by simp
qed

lemma fo_init_inv:
  assumes "fo_init sz (raw idle calls runs unlocks) s"
  shows "fo_inv order_inv (raw idle calls runs unlocks) s"
proof -
  have init: "fl_init sz (raw idle calls runs unlocks) (fo_fl s)" and log: "ms_log (fo_mem s) = []" "fo_log s = []"
    using assms by (auto simp: fo_init_def)
  then have "mem_starts start_value start (fo_mem s)" by (simp add: fl_init_def mem_raw_def)
  then have "\<forall>V \<in> mem_views (fo_mem s). V = {}"
    by (auto elim!: mem_startsE simp: mem_views_def) (auto simp: mem_init_def)
  with log weak.fl_init_inv[OF init] flip_inv_init[OF weak.fl_init_abs[OF init]] show ?thesis
    by (auto simp: fo_inv_def touch_logged_def touch_closed_def touch_epoch_def)
qed

text \<open>A touch after the last access under the write guard conflicts with none that came before it.\<close>

lemma touch_ok_no_conflict:
  assumes inv: "flip_inv (fl_abs s)" and i: "i < length (fl_pcs s)" and k: "fl_touch (fl_pcs s ! i) = Some k" "k \<noteq> Touch_All"
    and e: "touch_ok (fl_buf s) (fs_writes (fl_abs s)) e" "e \<noteq> Touch_All"
  shows "\<not> touch_conflict k e"
proof (cases "fl_pcs s ! i")
  case (Fl_Write_Slot idx v)
  let ?rb = "fb_buffer (fl_buf s)"
  have w: "(idx, v) \<in> set (fs_writes (fl_abs s))" using fl_outstanding(1)[OF i] Fl_Write_Slot by simp
  moreover have ok: "flip_writes_ok (fl_buf s) (fs_writes (fl_abs s)) (fl_in s) (fl_base s)" "rb_inv ?rb"
    using inv flip_inv_rb[OF inv] by (simp_all add: flip_inv_def fl_abs_def)
  ultimately obtain j where "rb_len ?rb \<le> j" "j < rb_len ?rb + fb_pushes (fl_buf s)" "idx = rb_slot ?rb j"
    by (auto simp: flip_writes_ok_def)
  then have "idx \<noteq> rb_slot ?rb j'" if "j' < rb_len ?rb" for j'
    using that rb_slot_inj[OF ok(2), of j j'] fb_pushes_room[OF ok(2)] by simp
  with Fl_Write_Slot k e w show ?thesis by (cases e) force+
next
  case (Fl_Read_Slot idx n)
  let ?rb = "fb_buffer (fl_buf s)"
  have "(idx, fl_base s + unat n) \<in> set (fs_reads (fl_abs s))" using fl_outstanding(2)[OF i] Fl_Read_Slot by simp
  moreover have ok: "flip_reads_ok (fl_buf s) (fs_reads (fl_abs s)) (fl_base s)" "rb_inv ?rb"
    using inv flip_inv_rb[OF inv] by (simp_all add: flip_inv_def fl_abs_def)
  ultimately have n: "unat n < rb_len ?rb" "idx = rb_slot ?rb (unat n)"
    using fb_pops_le[of "fl_buf s"] by (auto simp: flip_reads_ok_def)
  then have "idx \<noteq> rb_slot ?rb j" if "rb_len ?rb \<le> j" "j < rb_len ?rb + fb_pushes (fl_buf s)" for j
    using that rb_slot_inj[OF ok(2), of j "unat n"] fb_pushes_room[OF ok(2)] by simp
  with Fl_Read_Slot k e show ?thesis by (cases e) auto
qed (use k e in \<open>cases e; auto\<close>)+

lemma fo_inv_race_free:
  assumes inv: "fo_inv order_inv (raw idle calls runs unlocks) s"
  shows "fo_race_free s"
  unfolding fo_race_free_def
proof (intro allI impI)
  fix i k e
  assume i: "i < length (fo_pcs s)" and k: "fl_touch (fo_pcs s ! i) = Some k" and e: "e < length (fo_log s)"
    and conflict: "touch_conflict k (fo_log s ! e)"
  let ?V = "ms_seen (fo_mem s) ! i"
  have fl: "fl_inv order_inv (raw idle calls runs unlocks) (fo_fl s)" and flip: "flip_inv (fl_abs (fo_fl s))"
    and logged: "touch_logged (fo_log s) (ms_log (fo_mem s))" and closed: "\<forall>V \<in> mem_views (fo_mem s). touch_closed (fo_log s) V"
    and epoch: "touch_epoch (fo_log s) (fl_buf (fo_fl s)) (fs_writes (fl_abs (fo_fl s)))"
    using inv by (auto simp: fo_inv_def)
  have know: "holders_know excl shared (fo_mem s)" and wf: "mem_wf (fo_mem s)"
    using fl by (auto simp: fl_inv_def lock_order_inv_def)
  note n = touch_logged_length[OF logged] and holder = fo_holder[OF fl i k]
  show "e \<in> ?V"
  proof (cases "k = Touch_All")
    case True
    with know holder e n show ?thesis by (auto simp: holders_know_def)
  next
    case False
    have all: "e' \<in> ?V" if "e' < length (fo_log s)" "fo_log s ! e' = Touch_All" for e'
    proof -
      have "e' \<in> written (fo_mem s)" using that touch_logged_nth[OF logged that(1)] n by (simp add: written_def)
      with know holder False show ?thesis by (auto simp: holders_know_def)
    qed
    have "\<not> touch_conflict k (fo_log s ! e)" if "fo_log s ! e \<in> set (takeWhile (\<lambda>k. k \<noteq> Touch_All) (rev (fo_log s)))"
      using touch_ok_no_conflict[OF flip i k False, of "fo_log s ! e"] epoch that
      by (auto simp: touch_epoch_def dest: set_takeWhileD)
    with in_last_stretch[OF e, of "\<lambda>k. k \<noteq> Touch_All"] conflict
    obtain e' where e': "e \<le> e'" "e' < length (fo_log s)" "fo_log s ! e' = Touch_All" by blast
    have "touch_closed (fo_log s) ?V" using closed mem_views_nth[OF wf] holder by blast
    with all[OF e'(2,3)] e'(3) have "{..<e'} \<subseteq> ?V" by (simp add: touch_closed_def)
    with all[OF e'(2,3)] e'(1) show ?thesis by (cases "e = e'") auto
  qed
qed

text \<open>And the values are those of the interleaving, so the queue keeps what \<open>Flip_Lock\<close> says of it.\<close>

lemma fo_inv_conserves:
  assumes "fo_inv order_inv (raw idle calls runs unlocks) s"
  shows "i < length (fo_pcs s) \<Longrightarrow> fl_access sz (fo_pcs s ! i) (fl_buf (fo_fl s)) = Inl e \<Longrightarrow> e = Capacity_overflow"
    and "set (fo_pcs s) \<subseteq> {Fl_Idle} \<Longrightarrow> \<exists>n \<le> length (fl_in (fo_fl s)).
      fb_contents (fl_buf (fo_fl s)) = drop n (fl_in (fo_fl s)) \<and>
      mset (map snd (fl_got (fo_fl s))) = mset (take n (fl_in (fo_fl s)))"
proof -
  have fl: "fl_inv order_inv (raw idle calls runs unlocks) (fo_fl s)" and flip: "flip_inv (fl_abs (fo_fl s))"
    using assms by (auto simp: fo_inv_def)
  show "i < length (fo_pcs s) \<Longrightarrow> fl_access sz (fo_pcs s ! i) (fl_buf (fo_fl s)) = Inl e \<Longrightarrow> e = Capacity_overflow"
    using weak.fl_inv_access_ok[OF fl flip] by blast
  assume "set (fo_pcs s) \<subseteq> {Fl_Idle}"
  from flip_inv_conserves[OF flip] fl_idle_no_slot[OF this]
  show "\<exists>n \<le> length (fl_in (fo_fl s)). fb_contents (fl_buf (fo_fl s)) = drop n (fl_in (fo_fl s)) \<and>
      mset (map snd (fl_got (fo_fl s))) = mset (take n (fl_in (fo_fl s)))"
    by (fastforce simp: fl_abs_def)
qed

end

sublocale ordered_lock \<subseteq> fo: transition_system "fo_init sz (mem_raw P start_value start excl shared idle calls runs unlocks)"
  "fo_step sz (mem_raw P start_value start excl shared idle calls runs unlocks)"
  "fo_inv (lock_order_inv lock_inv value_ok free excl shared claims) (mem_raw P start_value start excl shared idle calls runs unlocks)"
  for sz idle calls runs unlocks
  by unfold_locales (auto intro: fo_init_inv fo_step_keeps)

context ordered_lock begin

lemma fo_reachable_race_free:
  "reachable (fo_init sz (raw idle calls runs unlocks)) (fo_step sz (raw idle calls runs unlocks)) s \<Longrightarrow> fo_race_free s"
  using fo_inv_race_free fo.reachable_inv by blast

end

section \<open>Runs\<close>

text \<open>Reachable states with what no \<open>&mut self\<close> method has touched, step by step, over any lock on the memory.\<close>

definition fo_at :: "'a flip_buffer \<Rightarrow> 'a list \<Rightarrow> ('p, 'w) mem_system \<Rightarrow> 'a fl_pc list \<Rightarrow> touch list \<Rightarrow> ('p, 'w, 'a) fo_system" where
  "fo_at fb vs m pcs ks = \<lparr>fo_fl = \<lparr>fl_lock = m, fl_buf = fb, fl_pcs = pcs, fl_in = vs, fl_base = 0, fl_got = []\<rparr>, fo_log = ks\<rparr>"

abbreviation fo_reaches :: "nat \<Rightarrow> ('p, 'w) mem_system raw_lock \<Rightarrow> 'a flip_buffer \<Rightarrow> 'a list \<Rightarrow> ('p, 'w) mem_system
    \<Rightarrow> 'a fl_pc list \<Rightarrow> touch list \<Rightarrow> bool" where
  "fo_reaches sz L fb vs m pcs ks \<equiv> reachable (fo_init sz L) (fo_step sz L) (fo_at fb vs m pcs ks)"

lemma fo_at_init:
  assumes "lk_init L m" and "ms_log m = []" and "fq_with_capacity sz cap = Inr fb" and "cap \<le> usize_max" and "set pcs \<subseteq> {Fl_Idle}"
  shows "fo_reaches sz L fb [] m pcs []"
  by (rule reach_init) (use assms in \<open>auto simp: fo_init_def fl_init_def fo_at_def\<close>)

lemma fo_at_moves:
  assumes "fo_reaches sz L fb vs m pcs ks" and "i < length pcs" and "fl_touch (pcs ! i) = None"
    and "fl_step sz L (fo_fl (fo_at fb vs m pcs ks)) (fo_fl (fo_at fb vs m' (pcs[i := pc]) ks))"
  shows "fo_reaches sz L fb vs m' (pcs[i := pc]) ks"
  using reach_step[OF assms(1) fo_moves[OF _ _ _ assms(4), where i = i and l = m' and pc = pc]] assms(2,3)
  by (simp add: fo_at_def)

lemma fo_at_calls:
  assumes "fo_reaches sz L fb vs m pcs ks" and "i < length pcs" and "pcs ! i = Fl_Idle" and "lk_call L (fl_mode c) i m m'"
  shows "fo_reaches sz L fb vs m' (pcs[i := Fl_Lock (fl_mode c) c]) ks"
proof (rule fo_at_moves[OF assms(1,2)])
  show "fl_step sz L (fo_fl (fo_at fb vs m pcs ks)) (fo_fl (fo_at fb vs m' (pcs[i := Fl_Lock (fl_mode c) c]) ks))"
    using fl_calls[of i "fo_fl (fo_at fb vs m pcs ks)" L c m' sz] assms(2-4) by (simp add: fo_at_def)
qed (simp add: assms(3))

lemma fo_at_locks:
  assumes "fo_reaches sz L fb vs m pcs ks" and "i < length pcs" and "pcs ! i = Fl_Lock mode c" and "lk_guard L mode i m"
  shows "fo_reaches sz L fb vs m (pcs[i := fl_locked mode c]) ks"
proof (rule fo_at_moves[OF assms(1,2)])
  show "fl_step sz L (fo_fl (fo_at fb vs m pcs ks)) (fo_fl (fo_at fb vs m (pcs[i := fl_locked mode c]) ks))"
    using fl_locks[of i "fo_fl (fo_at fb vs m pcs ks)" mode c L sz] assms(2-4) by (simp add: fo_at_def)
qed (simp add: assms(3))

lemma fo_at_runs:
  assumes "fo_reaches sz L fb vs m pcs ks" and "i < length pcs" and "fl_in_lock (pcs ! i)" and "lk_run L i m m'"
  shows "fo_reaches sz L fb vs m' pcs ks"
proof -
  have "fl_step sz L (fo_fl (fo_at fb vs m pcs ks)) (fo_fl (fo_at fb vs m' (pcs[i := pcs ! i]) ks))"
    using fl_lock_runs[of i "fo_fl (fo_at fb vs m pcs ks)" L m' sz] assms(2-4) by (simp add: fo_at_def)
  moreover have "fl_touch (pcs ! i) = None" using assms(3) by (cases "pcs ! i") simp_all
  ultimately show ?thesis using fo_at_moves[OF assms(1,2), of m' "pcs ! i"] by simp
qed

lemma fo_at_unlocks:
  assumes "fo_reaches sz L fb vs m pcs ks" and "i < length pcs" and "pcs ! i = Fl_Drop mode c" and "lk_unlock L mode i m m'"
  shows "fo_reaches sz L fb vs m' (pcs[i := Fl_Dropping c]) ks"
proof (rule fo_at_moves[OF assms(1,2)])
  show "fl_step sz L (fo_fl (fo_at fb vs m pcs ks)) (fo_fl (fo_at fb vs m' (pcs[i := Fl_Dropping c]) ks))"
    using fl_unlocks[of i "fo_fl (fo_at fb vs m pcs ks)" mode c L m' sz] assms(2-4) by (simp add: fo_at_def)
qed (simp add: assms(3))

lemma fo_at_accesses:
  assumes "fo_reaches sz L fb vs m pcs ks" and "i < length pcs" and "fl_touch (pcs ! i) = Some k" and "fl_room (pcs ! i) fb"
    and "fl_access sz (pcs ! i) fb = Inr (pc, [], fb')" and "fl_moved (pcs ! i) [] fb = 0" and "fl_returned (pcs ! i) [] 0 = []"
  shows "fo_reaches sz L fb' (vs @ fl_accepted (pcs ! i) pc) (mem_logs i (k = Touch_All) 0 m) (pcs[i := pc]) (ks @ [k])"
  using reach_step[OF assms(1) fo_accesses[of i "fo_at fb vs m pcs ks" k sz pc "[]" fb']] assms(2-)
  by (simp add: fo_at_def fl_after_def fl_logs_def)

text \<open>A new queue with room for two elements.\<close>

definition fb_two :: "'a flip_buffer" where
  "fb_two = \<lparr>fb_buffer = \<lparr>rb_head = 0, rb_len = 0, rb_array = [None, None]\<rparr>, fb_popped = 0, fb_pushed = 0\<rparr>"

lemma fb_two_new: "fq_with_capacity 8 2 = Inr fb_two" "2 \<le> usize_max"
proof -
  have "replicate 2 None = [None, None :: 'a option]" by (simp add: numeral_2_eq_2)
  then show "fq_with_capacity 8 2 = Inr (fb_two :: 'a flip_buffer)"
    by (simp add: fb_two_def fq_with_capacity_def fb_with_capacity_def rb_with_capacity_def vec_with_capacity_def
        isize_max_def usize_max_def)
qed (simp add: usize_max_def)

section \<open>Over RawRwSpin\<close>

text \<open>
  A run: thread 0 calls \<open>drain_locking\<close> with a closure that forgets the \<open>Drain\<close>, and when it has unlocked thread 1 calls
  \<open>push_sync\<close>.
\<close>

abbreviation fo_demo_reachable :: "(rw_pc, usize) mem_system \<Rightarrow> nat fl_pc list \<Rightarrow> touch list \<Rightarrow> bool" where
  "fo_demo_reachable m pcs ks \<equiv> fo_reaches 8 (rw_weak False True) fb_two [] m pcs ks"

lemma rw_weak_calls:
  "mem_exec (rw_program dbg std) (Act_Step i (Call_Lock_Shared True True) k) m = Some m' \<Longrightarrow> lk_call (rw_weak dbg std) Lk_Read i m m'"
  "mem_exec (rw_program dbg std) (Act_Step i (Call_Lock_Excl True) k) m = Some m' \<Longrightarrow> lk_call (rw_weak dbg std) Lk_Write i m m'"
  "mem_exec (rw_program dbg std) (Act_Step i (Excl_Continue True False) k) m = Some m' \<Longrightarrow> lk_run (rw_weak dbg std) i m m'"
  "mem_exec (rw_program dbg std) (Act_Step i Unlock_Excl k) m = Some m' \<Longrightarrow> lk_unlock (rw_weak dbg std) Lk_Write i m m'"
  by (auto simp: rw_weak_def mem_raw_def simp del: mem_exec.simps)

lemma rw_weak_guard:
  "lk_guard (rw_weak dbg std) mode i m \<longleftrightarrow>
    i < length (ms_pcs m) \<and> ms_pcs m ! i = (case mode of Lk_Read \<Rightarrow> Rw_Shared | Lk_Write \<Rightarrow> Rw_Excl)"
  by (cases mode) (simp_all add: rw_weak_def mem_raw_def)

lemma fo_demo_accesses:
  assumes "fo_demo_reachable m pcs ks" and "i < length pcs"
    and "pcs ! i = Fl_Flush (Fl_Drain 0 None) \<and> pc = Fl_Apply (Fl_Drain 0 None) \<or>
      pcs ! i = Fl_Apply (Fl_Drain 0 None) \<and> pc = Fl_Drop Lk_Write None"
  shows "fo_demo_reachable (mem_logs i True 0 m) (pcs[i := pc]) (ks @ [Touch_All])"
proof -
  have "fb_flush fb_two = Inr (fb_two :: nat flip_buffer)"
    by (simp add: fb_two_def fb_flush_def Let_def usize_sub_def rb_capacity_def clamp_count_min)
  then have "fl_access 8 (pcs ! i) fb_two = Inr (pc, [], fb_two)" using assms(3) by auto
  moreover have "fl_touch (pcs ! i) = Some Touch_All"
    "fl_room (pcs ! i) fb_two" "fl_accepted (pcs ! i) pc = []" "fl_moved (pcs ! i) [] fb_two = 0" "fl_returned (pcs ! i) [] 0 = []"
    using assms(3) by (auto simp: fb_two_def fb_pops_def)
  ultimately show ?thesis using fo_at_accesses[OF assms(1,2), of Touch_All pc fb_two] by simp
qed

text \<open>The memory on the way: a write of thread 0 in the log, and a second one, are the accesses of its call.\<close>

definition fo_demo_mem :: "(usize \<times> nat set) list \<Rightarrow> rw_pc list \<Rightarrow> nat list \<Rightarrow> nat set list \<Rightarrow> unit list \<Rightarrow> (rw_pc, usize) mem_system" where
  "fo_demo_mem order pcs pos seen writes = \<lparr>ms_order = map (\<lambda>(w, V). \<lparr>msg_value = w, msg_view = V\<rparr>) order, ms_pcs = pcs,
     ms_pos = pos, ms_seen = seen, ms_log = map (\<lambda>_. \<lparr>da_thread = 0, da_write = True, da_loc = 0\<rparr>) writes\<rparr>"

lemma fo_demo_mem_steps:
  "mem_exec (rw_program False True) (Act_Step 0 (Call_Lock_Excl True) 0) (fo_demo_mem [(0, {})] [Rw_Idle, Rw_Idle] [0, 0] [{}, {}] [])
    = Some (fo_demo_mem [(0, {})] [Excl_Cas True False backoff_new, Rw_Idle] [0, 0] [{}, {}] [])"
  "mem_exec (rw_program False True) (Act_Step 0 (Excl_Continue True False) 0)
      (fo_demo_mem [(0, {})] [Excl_Cas True False backoff_new, Rw_Idle] [0, 0] [{}, {}] [])
    = Some (fo_demo_mem [(0, {}), (exclusive_locked, {})] [Rw_Excl, Rw_Idle] [1, 0] [{}, {}] [])"
  "mem_logs 0 True 0 (fo_demo_mem order [Rw_Excl, Rw_Idle] pos [V, {}] us)
    = fo_demo_mem order [Rw_Excl, Rw_Idle] pos [insert (length us) V, {}] (us @ [()])"
  "mem_exec (rw_program False True) (Act_Step 0 Unlock_Excl 0)
      (fo_demo_mem [(0, {}), (exclusive_locked, {})] [Rw_Excl, Rw_Idle] [1, 0] [V, {}] us)
    = Some (fo_demo_mem [(0, {}), (exclusive_locked, {}), (0, V)] [Rw_Idle, Rw_Idle] [2, 0] [V, {}] us)"
  "mem_exec (rw_program False True) (Act_Step 1 (Call_Lock_Shared True True) 0)
      (fo_demo_mem [(0, {}), (exclusive_locked, {}), (0, V)] [Rw_Idle, Rw_Idle] [2, 0] [V, {}] us)
    = Some (fo_demo_mem [(0, {}), (exclusive_locked, {}), (0, V), (1, V)] [Rw_Idle, Rw_Shared] [2, 3] [V, V] us)"
  by (simp_all add: fo_demo_mem_def mem_last_def mem_goes_def mem_adds_def mem_logs_def rw_program_def Let_def
    compare_exchange_weak_def rw_excl_expected_def rw_unlock_exclusive_def fetch_sub_def fetch_add_def
    rw_lock_shared_start_def rw_checked_def mem_learns_def mem_publishes_def exclusive_pending_def)

lemma fo_demo_starts: "fo_demo_reachable (fo_demo_mem [(0, {})] [Rw_Idle, Rw_Idle] [0, 0] [{}, {}] []) [Fl_Idle, Fl_Idle] []"
proof (rule fo_at_init[OF _ _ fb_two_new])
  show "lk_init (rw_weak False True) (fo_demo_mem [(0, {})] [Rw_Idle, Rw_Idle] [0, 0] [{}, {}] [])"
    by (simp add: rw_weak_def mem_raw_def mem_starts_def rw_starts_def fo_demo_mem_def mem_init_def rw_new_def)
qed (simp_all add: fo_demo_mem_def)

lemma fo_demo_run:
  "fo_demo_reachable
     (fo_demo_mem [(0, {}), (exclusive_locked, {}), (0, {1, 0}), (1, {1, 0})] [Rw_Idle, Rw_Shared] [2, 3] [{1, 0}, {1, 0}] [(), ()])
     [Fl_Dropping None, Fl_Reserve (Fl_Push True 5)] [Touch_All, Touch_All]"
proof -
  let ?d = "Fl_Drain 0 None :: nat fl_call" and ?w = "(exclusive_locked, {})"
  note calls = rw_weak_calls(2)[OF fo_demo_mem_steps(1)] rw_weak_calls(3)[OF fo_demo_mem_steps(2)]
    rw_weak_calls(4)[OF fo_demo_mem_steps(4)] rw_weak_calls(1)[OF fo_demo_mem_steps(5)]
    and logs = fo_demo_mem_steps(3) and guard = rw_weak_guard fo_demo_mem_def fl_locked_def
  from fo_at_calls[OF fo_demo_starts, of 0 ?d] calls(1)
  have "fo_demo_reachable (fo_demo_mem [(0, {})] [Excl_Cas True False backoff_new, Rw_Idle] [0, 0] [{}, {}] [])
      [Fl_Lock Lk_Write ?d, Fl_Idle] []" by simp
  from fo_at_runs[OF this _ _ calls(2)]
  have "fo_demo_reachable (fo_demo_mem [(0, {}), ?w] [Rw_Excl, Rw_Idle] [1, 0] [{}, {}] []) [Fl_Lock Lk_Write ?d, Fl_Idle] []"
    by simp
  from fo_at_locks[OF this, of 0]
  have "fo_demo_reachable (fo_demo_mem [(0, {}), ?w] [Rw_Excl, Rw_Idle] [1, 0] [{}, {}] []) [Fl_Flush ?d, Fl_Idle] []"
    by (simp add: guard)
  from fo_demo_accesses[OF this, where i = 0 and pc = "Fl_Apply ?d"]
  have "fo_demo_reachable (fo_demo_mem [(0, {}), ?w] [Rw_Excl, Rw_Idle] [1, 0] [{0}, {}] [()]) [Fl_Apply ?d, Fl_Idle] [Touch_All]"
    by (simp add: logs)
  from fo_demo_accesses[OF this, where i = 0 and pc = "Fl_Drop Lk_Write None"]
  have "fo_demo_reachable (fo_demo_mem [(0, {}), ?w] [Rw_Excl, Rw_Idle] [1, 0] [{1, 0}, {}] [(), ()])
      [Fl_Drop Lk_Write None, Fl_Idle] [Touch_All, Touch_All]" by (simp add: logs)
  from fo_at_unlocks[OF this _ _ calls(3)]
  have "fo_demo_reachable (fo_demo_mem [(0, {}), ?w, (0, {1, 0})] [Rw_Idle, Rw_Idle] [2, 0] [{1, 0}, {}] [(), ()])
      [Fl_Dropping None, Fl_Idle] [Touch_All, Touch_All]" by simp
  from fo_at_calls[OF this, of 1 "Fl_Push True 5"] calls(4)
  have "fo_demo_reachable
      (fo_demo_mem [(0, {}), ?w, (0, {1, 0}), (1, {1, 0})] [Rw_Idle, Rw_Shared] [2, 3] [{1, 0}, {1, 0}] [(), ()])
      [Fl_Dropping None, Fl_Lock Lk_Read (Fl_Push True 5)] [Touch_All, Touch_All]" by simp
  from fo_at_locks[OF this, of 1] show ?thesis by (simp add: guard)
qed

section \<open>Properties\<close>

text \<open>
  Claim C7. A \<open>FlipQueue\<close> over \<open>RawRwSpin\<close> is free of data races with the orderings of the code, on a memory in which loads
  may read old values: whatever a thread in \<open>push_sync\<close>, \<open>try_push_sync\<close>, \<open>pop_sync\<close>, \<open>try_pop_sync\<close>, \<open>drain_locking\<close> or
  \<open>swap_buffer\<close> touches next happens after every earlier access that conflicts with it. So the elements, of which many are
  written under the shared lock at once, are kept apart by the tickets, and reach their readers through the lock. No access fails but
  for the capacity limit, and whenever every thread is between calls the first \<open>n\<close> accepted values have left the queue and
  it holds the others.
\<close>

theorem flip_queue_data_race_free:
  assumes "reachable (fo_init sz (rw_weak dbg std)) (fo_step sz (rw_weak dbg std)) s"
  shows "fo_race_free s \<and>
    (\<forall>i < length (fo_pcs s). \<forall>e. fl_access sz (fo_pcs s ! i) (fl_buf (fo_fl s)) = Inl e \<longrightarrow> e = Capacity_overflow) \<and>
    (set (fo_pcs s) \<subseteq> {Fl_Idle} \<longrightarrow> (\<exists>n \<le> length (fl_in (fo_fl s)).
       fb_contents (fl_buf (fo_fl s)) = drop n (fl_in (fo_fl s)) \<and>
       mset (map snd (fl_got (fo_fl s))) = mset (take n (fl_in (fo_fl s)))))"
proof -
  note inv = rw_order.fo.reachable_inv[OF assms[unfolded rw_weak_def]]
  from rw_order.fo_inv_race_free[OF inv] rw_order.fo_inv_conserves[OF inv] show ?thesis by blast
qed

theorem flip_queue_data_race_free_witness:
  "\<exists>s. reachable (fo_init 8 (rw_weak False True)) (fo_step 8 (rw_weak False True)) s \<and>
     fo_pcs s ! 1 = Fl_Reserve (Fl_Push True (5 :: nat)) \<and> fo_log s = [Touch_All, Touch_All] \<and> {0, 1} \<subseteq> ms_seen (fo_mem s) ! 1"
proof -
  note run = fo_demo_run
  have "0 \<in> ms_seen (fo_mem s) ! 1 \<and> 1 \<in> ms_seen (fo_mem s) ! 1"
    if "fo_race_free s" "length (fo_pcs s) = 2" "fo_pcs s ! 1 = Fl_Reserve c" "fo_log s = [Touch_All, Touch_All]"
    for s :: "(rw_pc, usize, nat) fo_system" and c
    using that unfolding fo_race_free_def by (auto dest!: spec[of _ 1])
  from this[OF conjunct1[OF flip_queue_data_race_free[OF run]]] run show ?thesis
    by (intro exI[of _ "fo_at fb_two [] (fo_demo_mem [(0, {}), (exclusive_locked, {}), (0, {1, 0}), (1, {1, 0})]
      [Rw_Idle, Rw_Shared] [2, 3] [{1, 0}, {1, 0}] [(), ()]) [Fl_Dropping None, Fl_Reserve (Fl_Push True 5)] [Touch_All, Touch_All]"])
      (simp add: fo_at_def)
qed

end
