(* ===== verification/Raw_Mutex.thy ===== *)
theory Raw_Mutex
  imports Cond_Var_Client
begin

text \<open>
  The raw mutex of \<open>src/src/mutex.rs\<close>: a condition variable whose state is 0 (unlocked) or 1 (locked).
  \<open>lock\<close> and \<open>lock_park\<close> differ in the parking primitive only. A thread inside a call of the condition
  variable is at a \<open>cv_pc\<close>, so every access of the two files is one step.
\<close>

section \<open>Operations\<close>

definition mx_unlocked :: u8 where
  "mx_unlocked = 0"

definition mx_locked :: u8 where
  "mx_locked = 1"

definition mx_new :: cv_shared where
  "mx_new = cv_zero"

definition mx_is_locked :: "cv_shared \<Rightarrow> bool" where
  "mx_is_locked sh \<longleftrightarrow> cv_load sh = mx_locked"

definition mx_try_lock :: "cv_shared \<Rightarrow> bool \<times> cv_shared" where
  "mx_try_lock sh = cv_optimistic_update mx_unlocked mx_locked sh"

text \<open>The closure of \<open>lock_park\<close> and \<open>lock\<close>, and where their loop starts.\<close>

definition mx_lock_choice :: "u8 \<Rightarrow> u8 option res" where
  "mx_lock_choice st = Inr (if st = mx_unlocked then Some mx_locked else None)"

definition mx_lock_loop :: cv_pc where
  "mx_lock_loop = cv_update_wait_park Wake_None mx_lock_choice"

definition mx_unlock :: cv_pc where
  "mx_unlock = cv_set Wake_One 0"

text \<open>\<open>unlock\<close> as the trait \<open>lock_api::RawMutex\<close> implements it has an empty body.\<close>

definition mx_api_unlock :: "cv_shared \<Rightarrow> cv_shared" where
  "mx_api_unlock sh = sh"

section \<open>Any number of threads\<close>

datatype mx_pc =
    Mx_Idle
  | Mx_Fast          \<comment> \<open>\<open>lock\<close>, before its \<open>optimistic_update\<close>\<close>
  | Mx_Lock cv_pc    \<comment> \<open>\<open>lock\<close>, in \<open>update_wait_park\<close>\<close>
  | Mx_Held
  | Mx_Unlock cv_pc  \<comment> \<open>\<open>unlock\<close>, in \<open>set\<close>\<close>

type_synonym mx_system = "mx_pc cl_system"

definition mx_init :: "mx_system \<Rightarrow> bool" where
  "mx_init s \<longleftrightarrow> cl_shared s = mx_new \<and> set (cl_pcs s) \<subseteq> {Mx_Idle}"

text \<open>The steps of one thread. \<open>addr\<close> is where a node can be placed.\<close>

fun mx_next :: "(back_off \<Rightarrow> back_off) \<Rightarrow> (back_off \<Rightarrow> back_off) \<Rightarrow> usize \<Rightarrow> nat \<Rightarrow> bool \<Rightarrow> mx_pc \<Rightarrow> cv_shared
    \<Rightarrow> (mx_pc \<times> cv_shared) res" where
  "mx_next lfw blw addr thread spurious Mx_Fast sh =
     (case mx_try_lock sh of (ok, sh') \<Rightarrow> Inr (if ok then Mx_Held else Mx_Lock mx_lock_loop, sh'))"
| "mx_next lfw blw addr thread spurious (Mx_Lock (Cv_Done r)) sh =
     bind_res (cv_result_ok r) (\<lambda>_. Inr (Mx_Held, sh))"
| "mx_next lfw blw addr thread spurious (Mx_Lock pc) sh =
     bind_res (cv_next lfw blw addr thread spurious pc sh) (\<lambda>(pc', sh'). Inr (Mx_Lock pc', sh'))"
| "mx_next lfw blw addr thread spurious (Mx_Unlock (Cv_Done r)) sh = Inr (Mx_Idle, sh)"
| "mx_next lfw blw addr thread spurious (Mx_Unlock pc) sh =
     bind_res (cv_next lfw blw addr thread spurious pc sh) (\<lambda>(pc', sh'). Inr (Mx_Unlock pc', sh'))"
| "mx_next lfw blw addr thread spurious Mx_Idle sh = Inr (Mx_Idle, sh)"
| "mx_next lfw blw addr thread spurious Mx_Held sh = Inr (Mx_Held, sh)"

text \<open>The call of the condition variable that a thread is in.\<close>

fun mx_cv :: "mx_pc \<Rightarrow> cv_pc" where
  "mx_cv (Mx_Lock pc) = pc"
| "mx_cv (Mx_Unlock pc) = pc"
| "mx_cv _ = Cv_Idle"

inductive mx_step :: "(back_off \<Rightarrow> back_off) \<Rightarrow> (back_off \<Rightarrow> back_off) \<Rightarrow> mx_system \<Rightarrow> mx_system \<Rightarrow> bool"
  for lfw blw where
  mx_tries: "i < length (cl_pcs s) \<Longrightarrow> cl_pcs s ! i = Mx_Idle \<Longrightarrow> mx_try_lock (cl_shared s) = (ok, sh) \<Longrightarrow>
    mx_step lfw blw s (s\<lparr>cl_shared := sh, cl_pcs := (cl_pcs s)[i := if ok then Mx_Held else Mx_Idle]\<rparr>)"
| mx_locks: "i < length (cl_pcs s) \<Longrightarrow> cl_pcs s ! i = Mx_Idle \<Longrightarrow>
    mx_step lfw blw s (s\<lparr>cl_pcs := (cl_pcs s)[i := Mx_Fast]\<rparr>)"
| mx_unlocks: "i < length (cl_pcs s) \<Longrightarrow> cl_pcs s ! i = Mx_Held \<Longrightarrow>
    mx_step lfw blw s (s\<lparr>cl_pcs := (cl_pcs s)[i := Mx_Unlock mx_unlock]\<rparr>)"
| mx_runs: "i < length (cl_pcs s) \<Longrightarrow> cv_fresh addr (cv_leave (mx_cv (cl_pcs s ! i)) (cl_shared s)) \<Longrightarrow>
    mx_next lfw blw addr i spurious (cl_pcs s ! i) (cl_shared s) = Inr (pc, sh) \<Longrightarrow>
    mx_step lfw blw s (s\<lparr>cl_shared := sh, cl_pcs := (cl_pcs s)[i := pc]\<rparr>)"

section \<open>The mutex as a client of the condition variable\<close>

abbreviation mx_abs :: "mx_system \<Rightarrow> cv_system" where
  "mx_abs \<equiv> cl_abs mx_cv"

text \<open>The loop of \<open>lock\<close> with its closure.\<close>

definition mx_lock_lp :: cv_loop where
  "mx_lock_lp = \<lparr>lp_f = (\<lambda>st. bind_res (mx_lock_choice st)
     (\<lambda>r. Inr (case r of Some s' \<Rightarrow> Cv_Update s' | None \<Rightarrow> Cv_Wait))), lp_wake = Wake_None, lp_backoff = True\<rparr>"

lemma mx_unlock_swap: "mx_unlock = Cv_Swap mx_unlocked"
  by (simp add: mx_unlock_def cv_set_def mx_unlocked_def)

lemma mx_lock_loop_load: "mx_lock_loop = Cv_Load mx_lock_lp backoff_new"
  by (simp add: mx_lock_loop_def cv_update_wait_park_def cv_update_wait_break_park_def mx_lock_lp_def)

lemma mx_next_call:
  assumes "\<And>r. pc \<noteq> Cv_Done r"
  shows "mx_next lfw blw addr i spurious (Mx_Lock pc) sh =
      bind_res (cv_next lfw blw addr i spurious pc sh) (\<lambda>(pc', sh'). Inr (Mx_Lock pc', sh'))"
    and "mx_next lfw blw addr i spurious (Mx_Unlock pc) sh =
      bind_res (cv_next lfw blw addr i spurious pc sh) (\<lambda>(pc', sh'). Inr (Mx_Unlock pc', sh'))"
  using assms by (cases pc; simp)+

text \<open>What a step of a thread can be.\<close>

lemma mx_next_cases:
  assumes "mx_next lfw blw addr i spurious pc sh = Inr (pc', sh')"
  obtains (rests) "pc' = pc" "sh' = sh" "pc = Mx_Idle \<or> pc = Mx_Held"
    | (fast) ok where "pc = Mx_Fast" "mx_try_lock sh = (ok, sh')" "pc' = (if ok then Mx_Held else Mx_Lock mx_lock_loop)"
    | (locked) st where "pc = Mx_Lock (Cv_Done (Inr st))" "pc' = Mx_Held" "sh' = sh"
    | (unlocked) r where "pc = Mx_Unlock (Cv_Done r)" "pc' = Mx_Idle" "sh' = sh"
    | (locking) c c' where "pc = Mx_Lock c" "pc' = Mx_Lock c'" "cv_next lfw blw addr i spurious c sh = Inr (c', sh')"
    | (unlocking) c c' where "pc = Mx_Unlock c" "pc' = Mx_Unlock c'" "cv_next lfw blw addr i spurious c sh = Inr (c', sh')"
proof (cases pc)
  case (Mx_Lock c)
  show thesis
  proof (cases "\<exists>r. c = Cv_Done r")
    case True
    with assms Mx_Lock locked show thesis by (auto simp: cv_result_ok_def split: sum.splits)
  next
    case False
    with assms Mx_Lock locking mx_next_call(1)[of c] show thesis by (auto simp: bind_res_Inr_conv)
  qed
next
  case (Mx_Unlock c)
  show thesis
  proof (cases "\<exists>r. c = Cv_Done r")
    case True
    with assms Mx_Unlock unlocked show thesis by auto
  next
    case False
    with assms Mx_Unlock unlocking mx_next_call(2)[of c] show thesis by (auto simp: bind_res_Inr_conv)
  qed
qed (use assms rests fast in \<open>auto split: prod.splits\<close>)

text \<open>Every step of the mutex is a sequence of steps of the condition variable.\<close>

lemma mx_simulates: "mx_step lfw blw s t \<Longrightarrow> (cv_step lfw blw)\<^sup>*\<^sup>* (mx_abs s) (mx_abs t)"
proof (induction rule: mx_step.induct)
  case (mx_tries i s ok sh)
  then show ?case by (intro r_into_rtranclp cl_abs_try) (auto simp: mx_try_lock_def)
next
  case (mx_locks i s)
  then show ?case by (simp add: cl_abs_stays)
next
  case (mx_unlocks i s)
  then show ?case by (intro r_into_rtranclp cl_abs_starts) (auto simp: mx_unlock_swap)
next
  case (mx_runs i s addr spurious pc sh)
  let ?t = "s\<lparr>cl_shared := sh, cl_pcs := (cl_pcs s)[i := pc]\<rparr>"
  from mx_runs(3) show ?case
  proof (cases rule: mx_next_cases)
    case rests
    then show ?thesis using cl_abs_stays[of i s mx_cv pc] mx_runs(1) by simp
  next
    case (fast ok)
    let ?m = "s\<lparr>cl_shared := sh, cl_pcs := (cl_pcs s)[i := Mx_Idle]\<rparr>"
    have "cv_step lfw blw (mx_abs s) (mx_abs ?m)"
      using mx_runs(1) fast by (intro cl_abs_try) (auto simp: mx_try_lock_def)
    moreover have "(cv_step lfw blw)\<^sup>*\<^sup>* (mx_abs ?m) (mx_abs ?t)"
    proof (cases ok)
      case True
      with fast mx_runs(1) cl_abs_stays[of i ?m mx_cv pc] show ?thesis by simp
    next
      case False
      with fast cl_abs_starts[of i ?m mx_cv pc mx_lock_lp undefined lfw blw] mx_runs(1) show ?thesis
        by (auto simp: mx_lock_loop_load)
    qed
    ultimately show ?thesis by (rule converse_rtranclp_into_rtranclp)
  next
    case (locked st)
    with mx_runs(1) cl_abs_returns[of i s mx_cv "Inr st" pc] show ?thesis by auto
  next
    case (unlocked r)
    with mx_runs(1) cl_abs_returns[of i s mx_cv r pc] show ?thesis by auto
  next
    case (locking c c')
    with mx_runs(1,2) cl_abs_cv[of i s addr mx_cv lfw blw spurious pc sh] show ?thesis by auto
  next
    case (unlocking c c')
    with mx_runs(1,2) cl_abs_cv[of i s addr mx_cv lfw blw spurious pc sh] show ?thesis by auto
  qed
qed

lemma mx_init_abs: "mx_init s \<Longrightarrow> cv_init (mx_abs s)"
  using cv_zero_new by (auto simp: mx_init_def cv_init_def cl_abs_def mx_new_def)

interpretation mx_sim: simulation mx_init "mx_step lfw blw" cv_init "cv_step lfw blw" mx_abs for lfw blw
  by unfold_locales (auto intro: mx_init_abs mx_simulates)


section \<open>The invariant\<close>

text \<open>A thread holds the mutex from the access that locks it to the access that unlocks it.\<close>

fun mx_holds :: "mx_pc \<Rightarrow> bool" where
  "mx_holds Mx_Held = True"
| "mx_holds (Mx_Lock pc) = (\<exists>st. cv_phase_of pc = Cv_Answered (Inr st))"
| "mx_holds (Mx_Unlock pc) = (\<exists>st. cv_phase_of pc = Cv_Setting st)"
| "mx_holds _ = False"

fun mx_ok :: "mx_pc \<Rightarrow> bool" where
  "mx_ok (Mx_Lock pc) \<longleftrightarrow> cv_phase_of pc = Cv_Asking mx_lock_lp \<or> pc = Cv_Done (Inr mx_unlocked)"
| "mx_ok (Mx_Unlock pc) \<longleftrightarrow> cv_phase_of pc = Cv_Setting mx_unlocked \<or> cv_phase_of pc = Cv_Answered (Inr mx_locked)"
| "mx_ok _ = True"

definition mx_holders :: "mx_system \<Rightarrow> nat" where
  "mx_holders s = sum_list (map (\<lambda>pc. of_bool (mx_holds pc)) (cl_pcs s))"

text \<open>The state is the number of holders, and a thread is in the list on the word only while it is one.\<close>

definition mx_counts :: "mx_system \<Rightarrow> bool" where
  "mx_counts s \<longleftrightarrow> (\<forall>i < length (cl_pcs s). mx_ok (cl_pcs s ! i) \<and> cv_asked (mx_cv (cl_pcs s ! i))) \<and>
     mx_holders s = unat (cv_load (cl_shared s)) \<and> mx_holders s \<le> 1 \<and>
     (cv_head (cl_shared s) \<noteq> 0 \<longrightarrow> cv_load (cl_shared s) = mx_locked)"

definition mx_inv :: "mx_system \<Rightarrow> bool" where
  "mx_inv s \<longleftrightarrow> cv_inv_asked (mx_abs s) \<and> mx_counts s"

lemma mx_inv_counts: "mx_inv s \<Longrightarrow> mx_counts s"
  by (simp add: mx_inv_def)

lemma mx_choice [simp]:
  "lp_f mx_lock_lp st = Inr (Cv_Update st') \<longleftrightarrow> st = mx_unlocked \<and> st' = mx_locked"
  "lp_f mx_lock_lp st \<noteq> Inr Cv_Break"
  "lp_f mx_lock_lp st = Inr Cv_Wait \<longleftrightarrow> st \<noteq> mx_unlocked"
  by (auto simp: mx_lock_lp_def mx_lock_choice_def)

lemma mx_choice_unlocked: "lp_f mx_lock_lp mx_unlocked = Inr (Cv_Update mx_locked)"
  by simp

lemma mx_holders_frame:
  assumes "i < length (cl_pcs s)"
  obtains n where "mx_holders s = n + of_bool (mx_holds (cl_pcs s ! i))"
    "\<And>pc sh. mx_holders (s\<lparr>cl_shared := sh, cl_pcs := (cl_pcs s)[i := pc]\<rparr>) = n + of_bool (mx_holds pc)"
  using sum_list_map_frame[OF assms, of "\<lambda>pc. of_bool (mx_holds pc)"] unfolding mx_holders_def by auto

lemma mx_counts_update:
  assumes inv: "mx_counts s" and i: "i < length (cl_pcs s)"
    and asked: "cv_asked (mx_cv pc)" and pc: "mx_ok pc"
    and count: "unat (cv_load sh) + of_bool (mx_holds (cl_pcs s ! i)) = unat (cv_load (cl_shared s)) + of_bool (mx_holds pc)"
    and le: "unat (cv_load sh) \<le> 1" and head: "cv_head sh \<noteq> 0 \<Longrightarrow> cv_load sh = mx_locked"
  shows "mx_counts (s\<lparr>cl_shared := sh, cl_pcs := (cl_pcs s)[i := pc]\<rparr>)"
proof -
  let ?t = "s\<lparr>cl_shared := sh, cl_pcs := (cl_pcs s)[i := pc]\<rparr>"
  obtain n where n: "mx_holders s = n + of_bool (mx_holds (cl_pcs s ! i))" "mx_holders ?t = n + of_bool (mx_holds pc)"
    using mx_holders_frame[OF i] by metis
  show ?thesis using inv i asked pc count le head n by (auto simp: mx_counts_def nth_list_update)
qed

text \<open>The state counts the holders, so a holder finds the state locked.\<close>

lemma mx_holder_locked:
  assumes "mx_counts s" and "i < length (cl_pcs s)" and "mx_holds (cl_pcs s ! i)"
  shows "cv_load (cl_shared s) = mx_locked"
proof -
  have "1 \<le> mx_holders s"
    using sum_list_map_ge[OF assms(2), of "\<lambda>pc. of_bool (mx_holds pc)"] assms(3) by (simp add: mx_holders_def)
  with assms(1) have "unat (cv_load (cl_shared s)) = 1" by (simp add: mx_counts_def)
  then show ?thesis by (simp add: mx_locked_def word_unat_eq_iff)
qed

lemma mx_states: "mx_counts s \<Longrightarrow> cv_load (cl_shared s) = mx_unlocked \<or> cv_load (cl_shared s) = mx_locked"
  by (auto simp: mx_counts_def mx_unlocked_def mx_locked_def word_unat_eq_iff le_Suc_eq)

lemma mx_words [simp]: "unat mx_unlocked = 0" "unat mx_locked = 1" "mx_unlocked \<noteq> mx_locked" "mx_locked \<noteq> mx_unlocked"
  by (simp_all add: mx_unlocked_def mx_locked_def)

text \<open>A step of a thread, whatever the nodes are.\<close>

lemma mx_counts_next:
  assumes inv: "mx_counts s" and i: "i < length (cl_pcs s)" and addr: "addr AND 255 = 0"
    and step: "mx_next lfw blw addr thread spurious (cl_pcs s ! i) (cl_shared s) = Inr (pc, sh)"
  shows "mx_counts (s\<lparr>cl_shared := sh, cl_pcs := (cl_pcs s)[i := pc]\<rparr>)"
proof -
  note update = mx_counts_update[OF inv i]
  have asked: "cv_asked (mx_cv (cl_pcs s ! i))" "mx_ok (cl_pcs s ! i)"
    using inv i by (auto simp: mx_counts_def)
  have le: "unat (cv_load (cl_shared s)) \<le> 1" and head: "cv_head (cl_shared s) \<noteq> 0 \<Longrightarrow> cv_load (cl_shared s) = mx_locked"
    using inv by (auto simp: mx_counts_def)
  from step show ?thesis
  proof (cases rule: mx_next_cases)
    case rests
    with asked le head show ?thesis by (intro update) auto
  next
    case (fast ok)
    note spec = cv_optimistic_spec[OF fast(2)[unfolded mx_try_lock_def]]
    show ?thesis by (intro update) (use fast spec le head in \<open>cases ok; auto simp: mx_lock_loop_load\<close>)+
  next
    case (locked st)
    with asked le head show ?thesis by (intro update) auto
  next
    case (unlocked r)
    with asked le head show ?thesis by (intro update) auto
  next
    case (locking c c')
    from locking asked have c: "cv_asked c" by simp
    have asked': "cv_asked c'" using cv_next_spec[OF locking(3) c addr] by simp
    note spec = cv_next_spec[OF locking(3) c addr] and nhead = cv_next_head[OF locking(3) c]
    show ?thesis
    proof (cases "cv_phase_of c = Cv_Asking mx_lock_lp")
      case False
      with locking asked have "c' = c" "sh = cl_shared s" "c = Cv_Done (Inr mx_unlocked)" by auto
      with locking le head show ?thesis by (intro update) simp_all
    next
      case True
      have c': "cv_phase_of c' = Cv_Asking mx_lock_lp \<or> (\<exists>r. c' = Cv_Done r)"
        using True cv_next_no_wake[OF locking(3), of mx_lock_lp] by (auto simp: mx_lock_lp_def)
      from spec have "cv_spec (cv_load (cl_shared s)) (Cv_Asking mx_lock_lp) (cv_load sh) (cv_phase_of c')"
        using True by simp
      then show ?thesis
      proof cases
        case spec_stays
        with True locking asked' le head nhead mx_states[OF inv] show ?thesis by (intro update) auto
      next
        case spec_updates
        with True locking c' show ?thesis by (intro update) auto
      qed simp_all
    qed
  next
    case (unlocking c c')
    from unlocking asked have c: "cv_asked c" by simp
    have asked': "cv_asked c'" using cv_next_spec[OF unlocking(3) c addr] by simp
    note spec = cv_next_spec[OF unlocking(3) c addr] and nhead = cv_next_head[OF unlocking(3) c]
    from spec have "cv_spec (cv_load (cl_shared s)) (cv_phase_of c) (cv_load sh) (cv_phase_of c')" by simp
    then show ?thesis
    proof cases
      case spec_sets
      with unlocking mx_holder_locked[OF inv i] asked asked' nhead show ?thesis by (intro update) auto
    qed (use unlocking asked asked' le head nhead mx_states[OF inv] in \<open>intro update; auto\<close>)+
  qed
qed

text \<open>The start of a call, and \<open>try_lock\<close>.\<close>

lemma mx_counts_start:
  assumes "mx_counts s" and "i < length (cl_pcs s)" and "cl_pcs s ! i = pc"
    and "pc = Mx_Idle \<and> pc' = Mx_Fast \<or> pc = Mx_Held \<and> pc' = Mx_Unlock mx_unlock"
  shows "mx_counts (s\<lparr>cl_pcs := (cl_pcs s)[i := pc']\<rparr>)"
proof -
  have "mx_counts (s\<lparr>cl_shared := cl_shared s, cl_pcs := (cl_pcs s)[i := pc']\<rparr>)"
    by (rule mx_counts_update[OF assms(1,2)]) (use assms in \<open>auto simp: mx_counts_def mx_unlock_swap\<close>)
  then show ?thesis by simp
qed

lemma mx_counts_try:
  assumes "mx_counts s" and "i < length (cl_pcs s)" and "cl_pcs s ! i = Mx_Idle"
    and "mx_try_lock (cl_shared s) = (ok, sh)"
  shows "mx_counts (s\<lparr>cl_shared := sh, cl_pcs := (cl_pcs s)[i := if ok then Mx_Held else Mx_Idle]\<rparr>)"
  by (rule mx_counts_update[OF assms(1,2)])
    (use assms cv_optimistic_spec[OF assms(4)[unfolded mx_try_lock_def]] in \<open>cases ok; auto simp: mx_counts_def\<close>)+

lemma mx_step_counts: "mx_step lfw blw s t \<Longrightarrow> mx_counts s \<Longrightarrow> mx_counts t"
proof (induction rule: mx_step.induct)
  case (mx_tries i s ok sh)
  then show ?case by (intro mx_counts_try)
next
  case (mx_runs i s addr spurious pc sh)
  then show ?case using cv_fresh_aligned by (intro mx_counts_next)
qed (auto intro: mx_counts_start)

lemma mx_step_keeps: "mx_step lfw blw s t \<Longrightarrow> mx_inv s \<Longrightarrow> mx_inv t"
  using mx_sim.step_keeps[of lfw blw s t cv_inv_asked] cv_asked_step mx_step_counts unfolding mx_inv_def by blast

lemma mx_init_inv: "mx_init s \<Longrightarrow> mx_inv s"
proof -
  assume init: "mx_init s"
  then have idle: "cl_pcs s ! i = Mx_Idle" if "i < length (cl_pcs s)" for i
    using nth_mem[OF that] init unfolding mx_init_def by blast
  have "mx_holders s = 0" using init by (auto simp: mx_init_def mx_holders_def sum_list_eq_0_iff)
  moreover have "cv_load (cl_shared s) = 0" "cv_head (cl_shared s) = 0"
    using init by (simp_all add: mx_init_def mx_new_def cv_zero_def cv_load_def cv_head_def aps_load_def aps_null_zero_def
        cv_state_def ps_state_def ps_ptr_def state_value_def null_mut_def wrapping_sub_def Let_def)
  ultimately show ?thesis using idle cv_init_asked[OF mx_init_abs[OF init]] by (simp add: mx_inv_def mx_counts_def)
qed

definition mx_holding :: "mx_system \<Rightarrow> nat \<Rightarrow> bool" where
  "mx_holding s i \<longleftrightarrow> i < length (cl_pcs s) \<and> mx_holds (cl_pcs s ! i)"

lemma mx_counts_exclusive: "mx_counts s \<Longrightarrow> mx_holding s i \<Longrightarrow> mx_holding s j \<Longrightarrow> i = j"
  using sum_list_map_two_le[of i "cl_pcs s" j "\<lambda>pc. of_bool (mx_holds pc)"]
  by (auto simp: mx_counts_def mx_holders_def mx_holding_def)

interpretation mx: exclusion_system mx_init "mx_step lfw blw" mx_inv mx_holding mx_holding for lfw blw
  by unfold_locales (auto intro: mx_init_inv mx_step_keeps mx_counts_exclusive[OF mx_inv_counts])

section \<open>A thread alone\<close>

text \<open>A woken thread that runs alone finds the mutex unlocked and takes it.\<close>

lemma mx_woken_locks:
  assumes "cv_nodes sh a = Some n" and "cn_ready n" and "cv_load sh = mx_unlocked"
  shows "\<exists>sh'. cv_alone lfw blw addr i 3 (Cv_Parked mx_lock_lp b a) sh = Inr (Cv_Done (Inr mx_unlocked), sh') \<and>
    cv_load sh' = mx_locked"
proof -
  let ?sh = "cv_free a sh" and ?cur = "aps_load (cv_atomic sh)"
  have parked: "cv_next lfw blw addr i False (Cv_Parked mx_lock_lp b a) sh = Inr (Cv_Load mx_lock_lp b, ?sh)"
    using assms by simp
  have load: "cv_next lfw blw addr i False (Cv_Load mx_lock_lp b) ?sh = Inr (Cv_Cas mx_lock_lp b ?cur mx_locked, ?sh)"
    using assms(3) by (simp add: cv_decide_def cv_free_def cv_load_def mx_choice_unlocked)
  have "lp_wake mx_lock_lp = Wake_None" by (simp add: mx_lock_lp_def)
  then obtain sh' where cas: "cv_next lfw blw addr i False (Cv_Cas mx_lock_lp b ?cur mx_locked) ?sh =
      Inr (Cv_Done (Inr mx_unlocked), sh')" and locked: "cv_load sh' = mx_locked" using assms(3)
    by (simp add: aps_compare_exchange_weak_def ptr_eq_def aps_load_def[of "cv_atomic sh"] cv_free_def cv_load_def aps_load_def)
  have "cv_alone lfw blw addr i 3 (Cv_Parked mx_lock_lp b a) sh = Inr (Cv_Done (Inr mx_unlocked), sh')"
    unfolding numeral_3_eq_3 cv_alone.simps parked load cas bind_res_simps prod.case by (rule refl)
  with locked show ?thesis by blast
qed

text \<open>While the state stays locked, a thread in \<open>lock\<close> that runs alone does not leave its loop.\<close>

lemma mx_blocked:
  assumes "cv_alone lfw blw addr i n pc sh = Inr (pc', sh')" and "addr AND 255 = 0"
    and "cv_phase_of pc = Cv_Asking mx_lock_lp" and "cv_asked pc" and "cv_load sh = mx_locked"
  shows "cv_phase_of pc' = Cv_Asking mx_lock_lp \<and> cv_load sh' = mx_locked"
  using assms
proof (induction n arbitrary: pc sh)
  case 0
  then show ?case by simp
next
  case (Suc n)
  then obtain c sh1 where step: "cv_next lfw blw addr i False pc sh = Inr (c, sh1)"
    and rest: "cv_alone lfw blw addr i n c sh1 = Inr (pc', sh')" by (auto simp: bind_res_Inr_conv)
  from cv_next_spec[OF step Suc.prems(4,2)] have c: "cv_asked c"
    and spec: "cv_spec (cv_load sh) (cv_phase_of pc) (cv_load sh1) (cv_phase_of c)" by simp_all
  from spec have "cv_phase_of c = Cv_Asking mx_lock_lp \<and> cv_load sh1 = mx_locked"
    by cases (use Suc.prems in auto)
  with Suc.IH[OF rest Suc.prems(2) _ c] show ?case by simp
qed


section \<open>A run\<close>

text \<open>Thread 0 locks the mutex; thread 1 calls \<open>lock\<close> and parks.\<close>

definition mx_demo :: "rust_ptr \<Rightarrow> (usize \<Rightarrow> cv_node option) \<Rightarrow> mx_pc \<Rightarrow> mx_pc \<Rightarrow> mx_system" where
  "mx_demo word nodes pc0 pc1 =
     \<lparr>cl_shared = \<lparr>cv_atomic = \<lparr>aps_cell = word\<rparr>, cv_nodes = nodes, cv_unparks = []\<rparr>, cl_pcs = [pc0, pc1]\<rparr>"

definition mx_demo_word :: rust_ptr where
  "mx_demo_word = \<lparr>ptr_prov = None, ptr_addr = 1\<rparr>"

definition mx_demo_nodes :: "usize \<Rightarrow> cv_node option" where
  "mx_demo_nodes = [256 \<mapsto> \<lparr>cn_unpark = 1, cn_next = null_mut, cn_ready = False\<rparr>]"

abbreviation mx_demo_reachable :: "rust_ptr \<Rightarrow> (usize \<Rightarrow> cv_node option) \<Rightarrow> mx_pc \<Rightarrow> mx_pc \<Rightarrow> bool" where
  "mx_demo_reachable word nodes pc0 pc1 \<equiv> reachable mx_init (mx_step cv_hurry cv_hurry) (mx_demo word nodes pc0 pc1)"

lemma mx_demo_runs:
  assumes "mx_demo_reachable word nodes pc0 pc1"
    and "mx_next cv_hurry cv_hurry 256 1 False pc1 \<lparr>cv_atomic = \<lparr>aps_cell = word\<rparr>, cv_nodes = nodes, cv_unparks = []\<rparr>
      = Inr (pc, \<lparr>cv_atomic = \<lparr>aps_cell = word'\<rparr>, cv_nodes = nodes', cv_unparks = []\<rparr>)"
    and "cv_fresh 256 (cv_leave (mx_cv pc1) \<lparr>cv_atomic = \<lparr>aps_cell = word\<rparr>, cv_nodes = nodes, cv_unparks = []\<rparr>)"
  shows "mx_demo_reachable word' nodes' pc0 pc"
proof -
  have "mx_step cv_hurry cv_hurry (mx_demo word nodes pc0 pc1) (mx_demo word' nodes' pc0 pc)"
    using mx_runs[of 1 "mx_demo word nodes pc0 pc1" 256 cv_hurry cv_hurry False pc] assms(2,3)
    by (auto simp: mx_demo_def)
  with assms(1) show ?thesis by (rule reach_step)
qed

lemma mx_demo_held: "mx_demo_reachable mx_demo_word (\<lambda>_. None) Mx_Held Mx_Idle"
proof -
  have init: "mx_demo_reachable null_mut (\<lambda>_. None) Mx_Idle Mx_Idle"
    by (rule reach_init) (simp add: mx_init_def mx_demo_def mx_new_def cv_zero_def aps_null_zero_def)
  have "mx_try_lock (cl_shared (mx_demo null_mut (\<lambda>_. None) Mx_Idle Mx_Idle)) =
      (True, cl_shared (mx_demo mx_demo_word (\<lambda>_. None) Mx_Held Mx_Idle))"
    by (simp add: mx_try_lock_def cv_optimistic_update_def aps_compare_exchange_def mx_demo_def mx_demo_word_def
        mx_unlocked_def mx_locked_def cv_word_eval)
  from reach_step[OF init mx_tries[OF _ _ this, of 0]] show ?thesis by (simp add: mx_demo_def)
qed

lemma mx_demo_parked:
  "mx_demo_reachable \<lparr>ptr_prov = Some 1, ptr_addr = 257\<rparr> mx_demo_nodes Mx_Held
    (Mx_Lock (Cv_Parked mx_lock_lp \<lparr>spin_count = 15\<rparr> 256))"
proof -
  let ?b = "\<lparr>spin_count = 15\<rparr>"
  have locked: "lp_f mx_lock_lp 1 = Inr Cv_Wait" by (simp add: mx_unlocked_def)
  have "mx_demo_reachable mx_demo_word (\<lambda>_. None) Mx_Held Mx_Fast"
    using reach_step[OF mx_demo_held mx_locks[of 1]] by (simp add: mx_demo_def)
  from mx_demo_runs[OF this, of "Mx_Lock mx_lock_loop" mx_demo_word "\<lambda>_. None"]
  have "mx_demo_reachable mx_demo_word (\<lambda>_. None) Mx_Held (Mx_Lock (Cv_Load mx_lock_lp backoff_new))"
    by (simp add: mx_try_lock_def cv_optimistic_update_def aps_compare_exchange_def mx_demo_word_def cv_leave_def
        cv_fresh_def mx_unlocked_def mx_locked_def cv_word_eval mx_lock_loop_load)
  from mx_demo_runs[OF this, of "Mx_Lock (Cv_Load mx_lock_lp ?b)" mx_demo_word "\<lambda>_. None"]
  have "mx_demo_reachable mx_demo_word (\<lambda>_. None) Mx_Held (Mx_Lock (Cv_Load mx_lock_lp ?b))"
    by (simp add: cv_decide_def locked mx_demo_word_def cv_leave_def cv_fresh_def cv_word_eval backoff_should_block_def
        backoff_new_def yield_threshold_def cv_hurry_def)
  from mx_demo_runs[OF this, of "Mx_Lock (Cv_Enqueue mx_lock_lp ?b \<lparr>ps_raw = mx_demo_word\<rparr> 256)" mx_demo_word mx_demo_nodes]
  have "mx_demo_reachable mx_demo_word mx_demo_nodes Mx_Held (Mx_Lock (Cv_Enqueue mx_lock_lp ?b \<lparr>ps_raw = mx_demo_word\<rparr> 256))"
    by (simp add: cv_decide_def locked mx_demo_word_def cv_leave_def cv_fresh_def cv_word_eval backoff_should_block_def
        yield_threshold_def mx_demo_nodes_def)
  from mx_demo_runs[OF this, of "Mx_Lock (Cv_Parked mx_lock_lp ?b 256)" "\<lparr>ptr_prov = Some 1, ptr_addr = 257\<rparr>" mx_demo_nodes]
  show ?thesis
    by (simp add: aps_compare_exchange_weak_def mx_demo_word_def cv_word_eval cv_leave_def cv_free_def cv_fresh_def
        mx_demo_nodes_def)
qed

section \<open>Properties\<close>

text \<open>
  Mutual exclusion: whatever the interleaving of any number of calls, at most one thread is
  between the access that locked the mutex and the one that unlocks it, and the mutex is then locked.
\<close>

theorem raw_mutex_exclusion:
  assumes "reachable mx_init (mx_step lfw blw) s" and "i < length (cl_pcs s)" and "j < length (cl_pcs s)"
    and "mx_holds (cl_pcs s ! i)" and "mx_holds (cl_pcs s ! j)"
  shows "i = j \<and> mx_is_locked (cl_shared s)"
  using mx.reachable_exclusive[OF assms(1), of i j] mx_holder_locked[OF mx_inv_counts[OF mx.reachable_inv[OF assms(1)]] assms(2,4)] assms
  by (auto simp: mx_holding_def mx_is_locked_def)

theorem raw_mutex_exclusion_witness:
  "mx_is_locked (cl_shared (mx_demo mx_demo_word (\<lambda>_. None) Mx_Held Mx_Idle))"
  using raw_mutex_exclusion[OF mx_demo_held, of 0 0] by (simp add: mx_demo_def)

text \<open>Where the node of a thread that is parked in \<open>lock\<close> can be.\<close>

lemma mx_parked_listed:
  assumes inv: "mx_inv s" and i: "i < length (cl_pcs s)" and pc: "cl_pcs s ! i = Mx_Lock (Cv_Parked lp b a)"
  obtains n xs where "cv_nodes (cl_shared s) a = Some n"
    "cv_chain (cv_nodes (cl_shared s)) (cv_head (cl_shared s)) xs"
    "cn_ready n \<or> a \<in> set xs \<or>
      (\<exists>j c. j < length (cl_pcs s) \<and> cl_pcs s ! j = Mx_Unlock c \<and> cv_taken (cv_nodes (cl_shared s)) c a)"
proof -
  have asked: "cv_inv (mx_abs s)" using inv by (simp add: mx_inv_def mx_counts_def cv_inv_asked_def)
  from i pc have "i < length (cs_pcs (mx_abs s))" "cs_pcs (mx_abs s) ! i = Cv_Parked lp b a" by simp_all
  let ?taken = "\<lambda>j. j < length (cl_pcs s) \<and> cv_taken (cv_nodes (cl_shared s)) (map mx_cv (cl_pcs s) ! j) a"
  obtain n xs where n: "cv_nodes (cl_shared s) a = Some n"
    "cv_chain (cv_nodes (cl_shared s)) (cv_head (cl_shared s)) xs"
    and "cn_ready n \<or> (a \<in> set xs \<and> (\<forall>j < length (cl_pcs s). \<not> cv_taken (cv_nodes (cl_shared s)) (map mx_cv (cl_pcs s) ! j) a)) \<or>
      (a \<notin> set xs \<and> (\<exists>!j. ?taken j))"
    by (rule cv_parked_listed[OF asked \<open>i < length (cs_pcs (mx_abs s))\<close> \<open>cs_pcs (mx_abs s) ! i = Cv_Parked lp b a\<close>,
        unfolded cl_abs_simps length_map])
  then have "cn_ready n \<or> a \<in> set xs \<or> (\<exists>j. ?taken j)" by blast
  then have place: "cn_ready n \<or> a \<in> set xs \<or> (\<exists>j < length (cl_pcs s). cv_taken (cv_nodes (cl_shared s)) (mx_cv (cl_pcs s ! j)) a)"
    by auto
  have "\<exists>c. cl_pcs s ! j = Mx_Unlock c \<and> cv_taken (cv_nodes (cl_shared s)) c a"
    if j: "j < length (cl_pcs s)" and taken: "cv_taken (cv_nodes (cl_shared s)) (mx_cv (cl_pcs s ! j)) a" for j
  proof -
    have "mx_ok (cl_pcs s ! j)" using inv j by (simp add: mx_inv_def mx_counts_def)
    moreover have "\<not> cv_taken m c a" if "cv_phase_of c = Cv_Asking lp'" for m c lp'
      using that by (cases c) (simp_all add: cv_taken_def)
    ultimately show ?thesis using taken by (cases "cl_pcs s ! j") (auto simp: cv_taken_def)
  qed
  with n place that show thesis by blast
qed

text \<open>
  Claim C18. No thread sleeps in \<open>lock\<close> while the mutex is free for good: the node of a parked thread is
  ready, or a thread in \<open>unlock\<close> is about to make it ready, or some thread holds the mutex.
\<close>

theorem raw_mutex_parked_has_holder:
  assumes "reachable mx_init (mx_step lfw blw) s" and "i < length (cl_pcs s)"
    and "cl_pcs s ! i = Mx_Lock (Cv_Parked lp b a)"
  shows "\<exists>n. cv_nodes (cl_shared s) a = Some n \<and> (cn_ready n \<or>
    (\<exists>j c. j < length (cl_pcs s) \<and> cl_pcs s ! j = Mx_Unlock c \<and> cv_taken (cv_nodes (cl_shared s)) c a) \<or>
    (\<exists>j < length (cl_pcs s). mx_holds (cl_pcs s ! j)))"
proof -
  note inv = mx.reachable_inv[OF assms(1)]
  obtain n xs where n: "cv_nodes (cl_shared s) a = Some n"
    "cv_chain (cv_nodes (cl_shared s)) (cv_head (cl_shared s)) xs"
    and cases: "cn_ready n \<or> a \<in> set xs \<or>
      (\<exists>j c. j < length (cl_pcs s) \<and> cl_pcs s ! j = Mx_Unlock c \<and> cv_taken (cv_nodes (cl_shared s)) c a)"
    by (rule mx_parked_listed[OF inv assms(2,3)])
  have "\<exists>j < length (cl_pcs s). mx_holds (cl_pcs s ! j)" if "a \<in> set xs"
  proof -
    have "cv_head (cl_shared s) \<noteq> 0" using n(2) that by (cases xs) auto
    then have "mx_holders s = 1" using inv by (simp add: mx_inv_def mx_counts_def)
    moreover have "mx_holders s = 0" if "\<forall>pc \<in> set (cl_pcs s). \<not> mx_holds pc"
      using that by (simp add: mx_holders_def sum_list_eq_0_iff)
    ultimately have "\<exists>pc \<in> set (cl_pcs s). mx_holds pc" by fastforce
    then show ?thesis by (metis in_set_conv_nth)
  qed
  with cases n(1) show ?thesis by blast
qed

theorem raw_mutex_parked_has_holder_witness:
  "\<exists>j < 2. mx_holds ([Mx_Held, Mx_Lock (Cv_Parked mx_lock_lp \<lparr>spin_count = 15\<rparr> 256)] ! j)"
proof -
  have "\<not> cn_ready n" if "mx_demo_nodes 256 = Some n" for n using that by (auto simp: mx_demo_nodes_def)
  moreover have "[Mx_Held, Mx_Lock (Cv_Parked mx_lock_lp \<lparr>spin_count = 15\<rparr> 256)] ! j \<noteq> Mx_Unlock c" if "j < 2" for j c
    using that by (auto simp: less_2_cases_iff)
  ultimately show ?thesis
    using raw_mutex_parked_has_holder[OF mx_demo_parked, of 1 mx_lock_lp "\<lparr>spin_count = 15\<rparr>" 256]
    by (auto simp: mx_demo_def numeral_2_eq_2)
qed


text \<open>
  Claim C19. Handing the mutex over, in a state in which no call of \<open>unlock\<close> is in progress: when the holder calls
  \<open>unlock\<close> and no other thread runs meanwhile, the call returns after finitely many accesses and the mutex is free; when then a
  thread that was parked in \<open>lock\<close> runs and no other thread does, its call returns with the mutex after three accesses.
\<close>

theorem raw_mutex_handover:
  assumes "reachable mx_init (mx_step lfw blw) s" and "i < length (cl_pcs s)" and "cl_pcs s ! i = Mx_Held"
    and "k < length (cl_pcs s)" and "cl_pcs s ! k = Mx_Lock (Cv_Parked lp b a)"
    and "\<And>j c. j < length (cl_pcs s) \<Longrightarrow> cl_pcs s ! j \<noteq> Mx_Unlock c"
  shows "\<exists>n sh sh'. cv_alone lfw blw addr i n mx_unlock (cl_shared s) = Inr (Cv_Done (Inr mx_locked), sh) \<and>
    \<not> mx_is_locked sh \<and>
    cv_alone lfw blw addr k 3 (Cv_Parked lp b a) sh = Inr (Cv_Done (Inr mx_unlocked), sh') \<and> mx_is_locked sh'"
proof -
  note inv = mx.reachable_inv[OF assms(1)]
  obtain n xs where n: "cv_nodes (cl_shared s) a = Some n"
    and ch: "cv_chain (cv_nodes (cl_shared s)) (cv_head (cl_shared s)) xs" and ready: "cn_ready n \<or> a \<in> set xs"
    using mx_parked_listed[OF inv assms(4,5)] assms(6) by metis
  have "cv_inv (mx_abs s)" using inv by (simp add: mx_inv_def mx_counts_def cv_inv_asked_def)
  from cv_set_wakes[OF this, of Wake_One lfw blw addr i mx_unlocked] obtain ys sh where
    ys: "cv_chain (cv_nodes (cl_shared s)) (cv_head (cl_shared s)) ys"
    and unlock: "cv_alone lfw blw addr i (3 * length ys + 2) mx_unlock (cl_shared s) =
      Inr (Cv_Done (Inr (cv_load (cl_shared s))), sh)"
    and free: "cv_load sh = mx_unlocked" and nodes: "cv_nodes sh = cv_ready_all ys (cv_nodes (cl_shared s))"
    by (auto simp: mx_unlock_def mx_unlocked_def)
  obtain n' where n': "cv_nodes sh a = Some n'" "cn_ready n'"
    using n ready nodes cv_chain_unique[OF ch ys] by (cases "a \<in> set ys") (auto simp: cv_ready_all_def)
  have "lp = mx_lock_lp" using inv assms(4,5) by (force simp: mx_inv_def mx_counts_def)
  moreover have "cv_load (cl_shared s) = mx_locked" using mx_holder_locked[OF mx_inv_counts[OF inv] assms(2)] assms(3) by simp
  moreover obtain sh' where "cv_alone lfw blw addr k 3 (Cv_Parked mx_lock_lp b a) sh = Inr (Cv_Done (Inr mx_unlocked), sh')"
    "mx_is_locked sh'" using mx_woken_locks[OF n' free, of lfw blw addr k b] by (auto simp: mx_is_locked_def)
  moreover have "\<not> mx_is_locked sh" using free by (simp add: mx_is_locked_def)
  ultimately show ?thesis using unlock by metis
qed

theorem raw_mutex_handover_witness:
  "\<exists>n sh sh'. cv_alone cv_hurry cv_hurry 512 0 n mx_unlock
      (cl_shared (mx_demo \<lparr>ptr_prov = Some 1, ptr_addr = 257\<rparr> mx_demo_nodes Mx_Held
        (Mx_Lock (Cv_Parked mx_lock_lp \<lparr>spin_count = 15\<rparr> 256)))) = Inr (Cv_Done (Inr mx_locked), sh) \<and> \<not> mx_is_locked sh \<and>
    cv_alone cv_hurry cv_hurry 512 1 3 (Cv_Parked mx_lock_lp \<lparr>spin_count = 15\<rparr> 256) sh = Inr (Cv_Done (Inr mx_unlocked), sh') \<and>
    mx_is_locked sh'"
proof -
  let ?s = "mx_demo \<lparr>ptr_prov = Some 1, ptr_addr = 257\<rparr> mx_demo_nodes Mx_Held
    (Mx_Lock (Cv_Parked mx_lock_lp \<lparr>spin_count = 15\<rparr> 256))"
  have s: "0 < length (cl_pcs ?s)" "cl_pcs ?s ! 0 = Mx_Held" "1 < length (cl_pcs ?s)"
    "cl_pcs ?s ! 1 = Mx_Lock (Cv_Parked mx_lock_lp \<lparr>spin_count = 15\<rparr> 256)" by (simp_all add: mx_demo_def)
  have "cl_pcs ?s ! j \<noteq> Mx_Unlock c" if "j < length (cl_pcs ?s)" for j c
    using that by (auto simp: mx_demo_def less_Suc_eq)
  from raw_mutex_handover[OF mx_demo_parked s this, where addr = 512] show ?thesis .
qed

text \<open>
  Claim C28. The trait \<open>lock_api::RawMutex\<close> never releases the mutex: its \<open>unlock\<close> is empty, so after a
  successful \<open>try_lock\<close> and an \<open>unlock\<close> through the trait, \<open>try_lock\<close> fails, and a thread that calls
  \<open>lock\<close> and runs alone is still inside it after any number of accesses.
\<close>

theorem mutex_api_unlock_keeps_lock:
  assumes "mx_try_lock sh = (True, sh')" and "addr AND 255 = 0"
  shows "fst (mx_try_lock (mx_api_unlock sh')) = False \<and>
    \<not> (\<exists>n r sh''. cv_alone lfw blw addr i n mx_lock_loop (mx_api_unlock sh') = Inr (Cv_Done r, sh''))"
proof -
  from cv_optimistic_spec(2)[OF assms(1)[unfolded mx_try_lock_def]] have locked: "cv_load sh' = mx_locked" by simp
  have "fst (mx_try_lock sh') = False"
  proof (cases "mx_try_lock sh'")
    case (Pair ok sh1)
    with cv_optimistic_spec(2)[OF Pair[unfolded mx_try_lock_def]] locked show ?thesis by auto
  qed
  moreover have "cv_alone lfw blw addr i n mx_lock_loop sh' \<noteq> Inr (Cv_Done r, sh'')" for n r sh''
    using mx_blocked[of lfw blw addr i n mx_lock_loop sh' "Cv_Done r" sh''] assms(2) locked
    by (auto simp: mx_lock_loop_load)
  ultimately show ?thesis by (simp add: mx_api_unlock_def)
qed

theorem mutex_api_unlock_keeps_lock_witness:
  "fst (mx_try_lock (mx_api_unlock (snd (mx_try_lock mx_new)))) = False"
proof -
  have "mx_try_lock mx_new = (True, snd (mx_try_lock mx_new))"
    by (simp add: mx_try_lock_def cv_optimistic_update_def aps_compare_exchange_def mx_new_def cv_zero_def
        aps_null_zero_def mx_unlocked_def cv_word_eval)
  from mutex_api_unlock_keeps_lock[OF this, of 256 id id 0] show ?thesis by simp
qed

end
