(* ===== verification/Cond_Var_Order.thy ===== *)
theory Cond_Var_Order
  imports Lock_Order Raw_Mutex Raw_Rw_Lock
begin

text \<open>
  The orderings of \<open>src/src/condvar.rs\<close>, \<open>src/src/mutex.rs\<close> and \<open>src/src/rwlock.rs\<close>: the locks on the
  memory of \<open>Mem_Order\<close>. The word of \<open>Mem_Order\<close> is the atomic word of the condition variable, and the
  threads take the steps of \<open>Raw_Mutex\<close> and \<open>Raw_Rw_Lock\<close>. What a step finds in the nodes of the waiting
  threads is an input of it: it may be anything, so nothing that is proved here depends on it. What
  \<open>ready\<close> orders in addition is not counted, and a step that would panic is not taken.
\<close>

section \<open>The condition variable\<close>

text \<open>
  The access of \<open>cv_next\<close> to the word and its ordering, for the arguments \<open>load\<close> and \<open>update\<close> of the
  method (for \<open>set\<close>, \<open>update\<close> alone); an exchange that fails is a load.
\<close>

fun cv_access :: "mem_order \<Rightarrow> mem_order \<Rightarrow> bool \<Rightarrow> cv_pc \<Rightarrow> atomic_ptr_state \<Rightarrow> mem_access" where
  "cv_access load update spurious (Cv_Load lp b) at = Mem_Load (merge_ordering load Acquire)"
| "cv_access load update spurious (Cv_Cas lp b cur s) at =
     (if ptr_eq (aps_cell at) (ps_raw cur) \<and> \<not> spurious then Mem_Rmw update
      else Mem_Load (merge_ordering load Acquire))"
| "cv_access load update spurious (Cv_Enqueue lp b cur node) at =
     (if ptr_eq (aps_cell at) (ps_raw cur) \<and> \<not> spurious then Mem_Rmw Release
      else Mem_Load (merge_ordering load Acquire))"
| "cv_access load update spurious (Cv_Swap s) at = Mem_Rmw (merge_ordering update Acquire)"
| "cv_access load update spurious _ at = Mem_None"

definition cv_optimistic_access :: "mem_order \<Rightarrow> u8 \<Rightarrow> atomic_ptr_state \<Rightarrow> mem_access" where
  "cv_optimistic_access update old_state at =
     (if ptr_eq (aps_cell at) (ps_raw (ps_null_state (cv_trunc old_state))) then Mem_Rmw update else Mem_Load Relaxed)"

definition cv_sight :: "atomic_ptr_state \<Rightarrow> (usize \<Rightarrow> cv_node option) \<Rightarrow> cv_shared" where
  "cv_sight at nodes = \<lparr>cv_atomic = at, cv_nodes = nodes, cv_unparks = []\<rparr>"

lemma cv_sight_simps [simp]:
  "cv_atomic (cv_sight at nodes) = at" "cv_nodes (cv_sight at nodes) = nodes"
  by (simp_all add: cv_sight_def)

lemma cv_sight_load: "cv_load sh = cv_load (cv_sight (cv_atomic sh) nodes)"
  by (simp add: cv_load_def)

lemma cv_sight_head: "cv_head sh = cv_head (cv_sight (cv_atomic sh) nodes)"
  by (simp add: cv_head_def)

lemma cv_decide_goes:
  assumes "cv_decide blw addr i lp b cur sh = Inr (pc, sh')"
  shows "cv_atomic sh' = cv_atomic sh"
    and "cv_phase_of pc = Cv_Asking lp \<or> pc = Cv_Done (Inl (cv_state cur)) \<and> lp_f lp (cv_state cur) = Inr Cv_Break"
  using assms by (auto simp: cv_decide_def split: sum.splits cv_decision.splits if_splits)

text \<open>What each kind of access does to the call.\<close>

lemma cv_access_load:
  assumes "cv_next lfw blw addr i spurious c sh = Inr (c', sh')"
    and "cv_access load update spurious c (cv_atomic sh) = Mem_Load ord"
  shows "\<exists>lp. cv_phase_of c = Cv_Asking lp \<and> (cv_phase_of c' = Cv_Asking lp \<or>
    c' = Cv_Done (Inl (cv_load sh)) \<and> lp_f lp (cv_load sh) = Inr Cv_Break)"
  using assms by (cases c)
    (auto simp: aps_compare_exchange_weak_def aps_load_def cv_load_def dest!: cv_decide_goes(2) split: if_splits)

lemma cv_access_none:
  assumes "cv_next lfw blw addr i spurious c sh = Inr (c', sh')"
    and "cv_access load update spurious c (cv_atomic sh) = Mem_None"
  shows "cv_atomic sh' = cv_atomic sh" and "cv_phase_of c' = cv_phase_of c"
  using assms by (cases c; auto simp: cv_free_def split: if_splits option.splits)+

lemma cv_access_rmw:
  assumes "cv_next lfw blw addr i spurious c sh = Inr (c', sh')"
    and "cv_access load update spurious c (cv_atomic sh) = Mem_Rmw ord"
  shows "(\<exists>lp. cv_phase_of c = Cv_Asking lp \<and> ((\<exists>b cur a. c = Cv_Enqueue lp b cur a) \<and> cv_phase_of c' = Cv_Asking lp \<or>
      ord = update \<and> (\<exists>st. cv_phase_of c' = Cv_Answered (Inr st)))) \<or>
    (\<exists>st st'. cv_phase_of c = Cv_Setting st \<and> cv_phase_of c' = Cv_Answered (Inr st') \<and>
      ord = merge_ordering update Acquire)"
  using assms by (cases c) (auto simp: aps_compare_exchange_weak_def aps_swap_def split: if_splits)

lemma cv_access_store: "cv_access load update spurious c at \<noteq> Mem_Store ord"
  by (cases c) simp_all

lemma cv_optimistic_access_ok:
  "cv_optimistic_update old new sh = (ok, sh') \<Longrightarrow>
    cv_optimistic_access update old (cv_atomic sh) = (if ok then Mem_Rmw update else Mem_Load Relaxed)"
  by (auto simp: cv_optimistic_update_def cv_optimistic_access_def aps_compare_exchange_def split: if_splits)

section \<open>RawMutex\<close>

datatype mx_event = Mx_Try_Lock | Mx_Call_Lock | Mx_Call_Unlock | Mx_Run usize nat bool "usize \<Rightarrow> cv_node option"

definition mx_word_next :: "(back_off \<Rightarrow> back_off) \<Rightarrow> (back_off \<Rightarrow> back_off) \<Rightarrow> mx_event \<Rightarrow> mx_pc \<Rightarrow> atomic_ptr_state
    \<Rightarrow> (mx_pc \<times> atomic_ptr_state) option" where
  "mx_word_next lfw blw ev pc at =
     (case ev of
        Mx_Try_Lock \<Rightarrow> if pc = Mx_Idle
          then case mx_try_lock (cv_sight at (\<lambda>_. None)) of (ok, sh) \<Rightarrow>
            Some (if ok then Mx_Held else Mx_Idle, cv_atomic sh)
          else None
      | Mx_Call_Lock \<Rightarrow> if pc = Mx_Idle then Some (Mx_Fast, at) else None
      | Mx_Call_Unlock \<Rightarrow> if pc = Mx_Held then Some (Mx_Unlock mx_unlock, at) else None
      | Mx_Run addr thread spurious nodes \<Rightarrow>
          if cv_fresh addr (cv_leave (mx_cv pc) (cv_sight at nodes))
          then case mx_next lfw blw addr thread spurious pc (cv_sight at nodes) of
              Inr (pc', sh) \<Rightarrow> Some (pc', cv_atomic sh)
            | Inl _ \<Rightarrow> None
          else None)"

text \<open>\<open>lock\<close> gives \<open>Relaxed\<close> and \<open>Acquire\<close> as \<open>load\<close> and \<open>update\<close>, \<open>unlock\<close> gives \<open>Release\<close>.\<close>

definition mx_access :: "mx_event \<Rightarrow> mx_pc \<Rightarrow> atomic_ptr_state \<Rightarrow> mem_access" where
  "mx_access ev pc at =
     (case ev of
        Mx_Try_Lock \<Rightarrow> cv_optimistic_access Acquire mx_unlocked at
      | Mx_Run addr thread spurious nodes \<Rightarrow>
          (case pc of
             Mx_Fast \<Rightarrow> cv_optimistic_access Acquire mx_unlocked at
           | Mx_Lock c \<Rightarrow> cv_access Relaxed Acquire spurious c at
           | Mx_Unlock c \<Rightarrow> cv_access Relaxed Release spurious c at
           | _ \<Rightarrow> Mem_None)
      | _ \<Rightarrow> Mem_None)"

definition mx_program :: "(back_off \<Rightarrow> back_off) \<Rightarrow> (back_off \<Rightarrow> back_off) \<Rightarrow> (mx_event, mx_pc, atomic_ptr_state) mem_program" where
  "mx_program lfw blw = \<lparr>mp_next = mx_word_next lfw blw, mp_access = mx_access, mp_may = (\<lambda>pc wr loc. pc = Mx_Held)\<rparr>"

definition mx_word_inv :: "atomic_ptr_state \<Rightarrow> mx_pc list \<Rightarrow> bool" where
  "mx_word_inv at pcs \<longleftrightarrow> mx_counts \<lparr>cl_shared = cv_sight at (\<lambda>_. None), cl_pcs = pcs\<rparr>"

definition mx_starts :: "mx_pc list \<Rightarrow> bool" where
  "mx_starts pcs \<longleftrightarrow> set pcs \<subseteq> {Mx_Idle}"

lemma mx_word_inv_sight: "mx_counts \<lparr>cl_shared = sh, cl_pcs = pcs\<rparr> \<longleftrightarrow> mx_word_inv (cv_atomic sh) pcs"
  using cv_sight_load[of sh "\<lambda>_. None"] cv_sight_head[of sh "\<lambda>_. None"]
  by (simp add: mx_word_inv_def mx_counts_def mx_holders_def)

lemma mx_word_cases:
  assumes "mx_word_next lfw blw ev pc at = Some (pc', at')"
  obtains (tries) ok sh where "ev = Mx_Try_Lock" "pc = Mx_Idle" "mx_try_lock (cv_sight at (\<lambda>_. None)) = (ok, sh)"
      "pc' = (if ok then Mx_Held else Mx_Idle)" "at' = cv_atomic sh"
    | (calls) "at' = at" "\<forall>at. mx_access ev pc at = Mem_None"
      "pc = Mx_Idle \<and> pc' = Mx_Fast \<or> pc = Mx_Held \<and> pc' = Mx_Unlock mx_unlock"
    | (runs) addr thread spurious nodes sh where "ev = Mx_Run addr thread spurious nodes" "addr AND 255 = 0"
      "mx_next lfw blw addr thread spurious pc (cv_sight at nodes) = Inr (pc', sh)" "at' = cv_atomic sh"
  using assms cv_fresh_aligned
  by (cases ev) (auto simp: mx_word_next_def mx_access_def split: if_splits prod.splits sum.splits)

lemma mx_word_keeps:
  assumes inv: "mx_word_inv at pcs" and i: "i < length pcs" and nx: "mx_word_next lfw blw ev (pcs ! i) at = Some (pc, at')"
  shows "mx_word_inv at' (pcs[i := pc])"
proof -
  have s: "mx_counts \<lparr>cl_shared = cv_sight at nodes, cl_pcs = pcs\<rparr>" for nodes
    using inv mx_word_inv_sight[of "cv_sight at nodes" pcs] by simp
  from nx show ?thesis
  proof (cases rule: mx_word_cases)
    case (tries ok sh)
    with mx_counts_try[OF s[of "\<lambda>_. None"], of i ok sh] i show ?thesis by (simp add: mx_word_inv_sight)
  next
    case calls
    with mx_counts_start[OF s[of "\<lambda>_. None"], of i "pcs ! i" pc] i show ?thesis by (simp add: mx_word_inv_sight)
  next
    case (runs addr thread spurious nodes sh)
    with mx_counts_next[OF s[of nodes], of i addr lfw blw thread spurious pc sh] i show ?thesis
      by (simp add: mx_word_inv_sight)
  qed
qed

text \<open>Loads change nothing of who holds the mutex.\<close>

lemma mx_load_step:
  assumes nx: "mx_word_next lfw blw ev pc at = Some (pc', at')" and a: "mx_access ev pc at = Mem_Load ord"
    and ok: "mx_ok pc" "cv_asked (mx_cv pc)"
  shows "\<not> mx_holds pc \<and> \<not> mx_holds pc' \<and> mx_ok pc' \<and> cv_asked (mx_cv pc')"
  using nx
proof (cases rule: mx_word_cases)
  case (tries ok' sh)
  with a cv_optimistic_access_ok[OF tries(3)[unfolded mx_try_lock_def], of Acquire] show ?thesis
    by (simp add: mx_access_def split: if_splits)
next
  case (runs addr thread spurious nodes sh)
  from runs(3) show ?thesis
  proof (cases rule: mx_next_cases)
    case (fast ok')
    with a runs(1) cv_optimistic_access_ok[OF fast(2)[unfolded mx_try_lock_def], of Acquire] show ?thesis
      by (simp add: mx_access_def mx_lock_loop_load split: if_splits)
  next
    case (locking c c')
    with a runs(1) have load: "cv_access Relaxed Acquire spurious c (cv_atomic (cv_sight at nodes)) = Mem_Load ord"
      by (simp add: mx_access_def)
    from cv_access_load[OF locking(3) load] ok(1) locking(1) have "cv_phase_of c = Cv_Asking mx_lock_lp \<and>
        cv_phase_of c' = Cv_Asking mx_lock_lp" by auto
    with cv_next_spec[OF locking(3) _ runs(2)] ok(2) locking(1,2) show ?thesis by auto
  next
    case (unlocking c c')
    with a runs(1) have load: "cv_access Relaxed Release spurious c (cv_atomic (cv_sight at nodes)) = Mem_Load ord"
      by (simp add: mx_access_def)
    from cv_access_load[OF unlocking(3) load] ok(1) unlocking(1) show ?thesis by auto
  qed (use a runs(1) in \<open>auto simp: mx_access_def\<close>)
qed (use a in simp)

text \<open>Other accesses: the mutex is taken with an acquiring, given back with a releasing read-modify-write.\<close>

lemma mx_write_step:
  assumes nx: "mx_word_next lfw blw ev pc at = Some (pc', at')" and a: "mx_access ev pc at = a"
    and load: "\<forall>ord. a \<noteq> Mem_Load ord" and ok: "mx_ok pc"
  shows "a = Mem_None \<and> at' = at \<and> (mx_holds pc' \<longleftrightarrow> mx_holds pc) \<or>
    (\<exists>ord. a = Mem_Rmw ord \<and> (mx_holds pc' \<longrightarrow> \<not> mx_holds pc \<and> acquires ord) \<and> (mx_holds pc \<longrightarrow> releases ord))"
  using nx
proof (cases rule: mx_word_cases)
  case (tries ok' sh)
  with a load cv_optimistic_access_ok[OF tries(3)[unfolded mx_try_lock_def], of Acquire] show ?thesis
    by (auto simp: mx_access_def split: if_splits)
next
  case (runs addr thread spurious nodes sh)
  from runs(3) show ?thesis
  proof (cases rule: mx_next_cases)
    case (fast ok')
    with a load runs(1) cv_optimistic_access_ok[OF fast(2)[unfolded mx_try_lock_def], of Acquire] show ?thesis
      by (auto simp: mx_access_def mx_lock_loop_load split: if_splits)
  next
    case (locking c c')
    with a runs(1) have acc: "cv_access Relaxed Acquire spurious c (cv_atomic (cv_sight at nodes)) = a"
      by (simp add: mx_access_def)
    show ?thesis
    proof (cases a)
      case Mem_None
      with cv_access_none[OF locking(3), of Relaxed Acquire] acc locking runs(4) show ?thesis by auto
    next
      case (Mem_Rmw ord)
      with cv_access_rmw[OF locking(3), of Relaxed Acquire ord] acc locking ok show ?thesis by auto
    qed (use load acc cv_access_store in \<open>auto simp: cv_access_store\<close>)
  next
    case (unlocking c c')
    with a runs(1) have acc: "cv_access Relaxed Release spurious c (cv_atomic (cv_sight at nodes)) = a"
      by (simp add: mx_access_def)
    show ?thesis
    proof (cases a)
      case Mem_None
      with cv_access_none[OF unlocking(3), of Relaxed Release] acc unlocking runs(4) show ?thesis by auto
    next
      case (Mem_Rmw ord)
      with cv_access_rmw[OF unlocking(3), of Relaxed Release ord] acc unlocking ok show ?thesis
        by (auto simp: acquires_def releases_def)
    qed (use load acc cv_access_store in \<open>auto simp: cv_access_store\<close>)
  qed (use a runs(1,4) in \<open>auto simp: mx_access_def\<close>)
next
  case calls
  with a show ?thesis by (auto simp: mx_unlock_swap)
qed

lemma mx_word_load:
  assumes inv: "mx_word_inv at pcs" and i: "i < length pcs" and nx: "mx_word_next lfw blw ev (pcs ! i) v = Some (pc, v')"
    and a: "mx_access ev (pcs ! i) v = Mem_Load ord"
  shows "mx_word_inv at (pcs[i := pc]) \<and> \<not> mx_holds pc \<and> \<not> mx_holds (pcs ! i)"
proof -
  let ?s = "\<lparr>cl_shared = cv_sight at (\<lambda>_. None), cl_pcs = pcs\<rparr>"
  have counts: "mx_counts ?s" using inv by (simp add: mx_word_inv_def)
  then have "mx_ok (pcs ! i)" "cv_asked (mx_cv (pcs ! i))" using i by (simp_all add: mx_counts_def)
  from mx_load_step[OF nx a this] have step: "\<not> mx_holds pc \<and> \<not> mx_holds (pcs ! i) \<and> mx_ok pc \<and> cv_asked (mx_cv pc)"
    by blast
  have "mx_counts (?s\<lparr>cl_shared := cl_shared ?s, cl_pcs := (cl_pcs ?s)[i := pc]\<rparr>)"
    by (rule mx_counts_update[OF counts]) (use i step counts in \<open>auto simp: mx_counts_def\<close>)
  with step show ?thesis by (simp add: mx_word_inv_def)
qed

lemma mx_word_exclusive:
  "mx_word_inv at pcs \<Longrightarrow> i < length pcs \<Longrightarrow> j < length pcs \<Longrightarrow> mx_holds (pcs ! i) \<Longrightarrow> mx_holds (pcs ! j) \<Longrightarrow> i = j"
  using mx_counts_exclusive[of "\<lparr>cl_shared = cv_sight at (\<lambda>_. None), cl_pcs = pcs\<rparr>" i j]
  by (simp add: mx_word_inv_def mx_holding_def)

lemma mx_word_write:
  assumes inv: "mx_word_inv at pcs" and i: "i < length pcs" and nx: "mx_word_next lfw blw ev (pcs ! i) at = Some (pc, at')"
    and a: "mx_access ev (pcs ! i) at = a" "\<forall>ord. a \<noteq> Mem_Load ord"
  shows "(a = Mem_None \<longrightarrow> at' = at \<and> lock_move_ok mx_holds (\<lambda>_. False) (\<lambda>_. False) (pcs ! i) pc) \<and>
    (a \<noteq> Mem_None \<longrightarrow> lock_write_ok mx_holds (\<lambda>_. False) (\<lambda>_. False) a pcs i pc)"
proof -
  have "mx_ok (pcs ! i)" using inv i by (simp add: mx_word_inv_def mx_counts_def)
  note step = mx_write_step[OF nx a this]
  have "\<not> mx_holds (pcs ! j)" if "mx_holds pc" "j < length pcs" "j \<noteq> i" for j
    using mx_word_exclusive[OF mx_word_keeps[OF inv i nx], of i j] i that by auto
  with step show ?thesis unfolding lock_move_ok_def lock_write_ok_def by blast
qed

lemma mx_starts_inv: "mx_starts pcs \<Longrightarrow> mx_word_inv (cv_atomic mx_new) pcs"
  using mx_init_inv[of "\<lparr>cl_shared = mx_new, cl_pcs = pcs\<rparr>"] mx_word_inv_sight[of mx_new pcs]
  by (simp add: mx_starts_def mx_init_def mx_inv_def)

interpretation mx_order: ordered_lock "mx_program lfw blw" mx_word_inv "\<lambda>_. True" "\<lambda>_. False" mx_holds
  "\<lambda>_. False" "\<lambda>_. False" "cv_atomic mx_new" mx_starts for lfw blw
proof
  fix pcs at v at' v' i j ev ord pc a
  show "mx_word_inv at pcs \<Longrightarrow> i < length pcs \<Longrightarrow> j < length pcs \<Longrightarrow> j \<noteq> i \<Longrightarrow> mx_holds (pcs ! j) \<Longrightarrow>
      \<not> mx_holds (pcs ! i) \<and> \<not> False"
    using mx_word_exclusive by blast
  assume inv: "mx_word_inv at pcs" and i: "i < length pcs"
  show "mx_word_inv at (pcs[i := pc]) \<and> \<not> mx_holds pc \<and> \<not> mx_holds (pcs ! i) \<and> (False \<longrightarrow> False) \<and>
      (False \<longrightarrow> False \<or> acquires ord \<and> False \<and> False) \<and> (False \<longrightarrow> False)"
    if "mp_access (mx_program lfw blw) ev (pcs ! i) v = Mem_Load ord"
      and "mp_next (mx_program lfw blw) ev (pcs ! i) v = Some (pc, v')"
    using mx_word_load[OF inv i] that by (simp add: mx_program_def)
  show "mx_word_inv at' (pcs[i := pc]) \<and>
      (a = Mem_None \<longrightarrow> at' = at \<and> lock_move_ok mx_holds (\<lambda>_. False) (\<lambda>_. False) (pcs ! i) pc) \<and>
      (a \<noteq> Mem_None \<longrightarrow> lock_write_ok mx_holds (\<lambda>_. False) (\<lambda>_. False) a pcs i pc)"
    if "mp_access (mx_program lfw blw) ev (pcs ! i) at = a" and "\<forall>ord. a \<noteq> Mem_Load ord"
      and "mp_next (mx_program lfw blw) ev (pcs ! i) at = Some (pc, at')"
    using mx_word_keeps[OF inv i] mx_word_write[OF inv i] that by (simp add: mx_program_def)
qed (auto simp: mx_program_def mx_starts_inv)

section \<open>RawRwLock\<close>

datatype rl_event = Rl_Try_Exclusive | Rl_Try_Shared | Rl_Call_Lock rl_mode | Rl_Call_Unlock
  | Rl_Run usize nat bool "usize \<Rightarrow> cv_node option"

definition rl_word_next :: "(back_off \<Rightarrow> back_off) \<Rightarrow> (back_off \<Rightarrow> back_off) \<Rightarrow> rl_event \<Rightarrow> rl_pc \<Rightarrow> atomic_ptr_state
    \<Rightarrow> (rl_pc \<times> atomic_ptr_state) option" where
  "rl_word_next lfw blw ev pc at =
     (case ev of
        Rl_Try_Exclusive \<Rightarrow> if pc = Rl_Idle
          then case rl_try_lock_exclusive (cv_sight at (\<lambda>_. None)) of (ok, sh) \<Rightarrow>
            Some (if ok then Rl_Exclusive else Rl_Idle, cv_atomic sh)
          else None
      | Rl_Try_Shared \<Rightarrow> if pc = Rl_Idle then Some (Rl_Try rl_try_lock_shared, at) else None
      | Rl_Call_Lock m \<Rightarrow> if pc = Rl_Idle then Some (Rl_Fast m, at) else None
      | Rl_Call_Unlock \<Rightarrow>
          if pc = Rl_Shared then Some (Rl_Unlock_Shared rl_unlock_shared, at)
          else if pc = Rl_Exclusive then Some (Rl_Unlock_Exclusive rl_unlock_exclusive, at) else None
      | Rl_Run addr thread spurious nodes \<Rightarrow>
          if cv_fresh addr (cv_leave (rl_cv pc) (cv_sight at nodes))
          then case rl_next lfw blw addr thread spurious pc (cv_sight at nodes) of
              Inr (pc', sh) \<Rightarrow> Some (pc', cv_atomic sh)
            | Inl _ \<Rightarrow> None
          else None)"

text \<open>
  The locking methods give \<open>Relaxed\<close> and \<open>Acquire\<close> as \<open>load\<close> and \<open>update\<close>, \<open>unlock_exclusive\<close> gives
  \<open>Release\<close>. What \<open>unlock_shared\<close> gives as \<open>update\<close> is a parameter; in the code it is
  \<open>rl_unlock_shared_update\<close>.
\<close>

definition rl_unlock_shared_update :: mem_order where
  "rl_unlock_shared_update = Acquire"

fun rl_update :: "mem_order \<Rightarrow> rl_pc \<Rightarrow> mem_order" where
  "rl_update release (Rl_Unlock_Shared _) = release"
| "rl_update release (Rl_Unlock_Exclusive _) = Release"
| "rl_update release _ = Acquire"

definition rl_access :: "mem_order \<Rightarrow> rl_event \<Rightarrow> rl_pc \<Rightarrow> atomic_ptr_state \<Rightarrow> mem_access" where
  "rl_access release ev pc at =
     (case ev of
        Rl_Try_Exclusive \<Rightarrow> cv_optimistic_access Acquire rl_unlocked at
      | Rl_Run addr thread spurious nodes \<Rightarrow>
          (case pc of
             Rl_Fast m \<Rightarrow> cv_optimistic_access Acquire rl_unlocked at
           | _ \<Rightarrow> cv_access Relaxed (rl_update release pc) spurious (rl_cv pc) at)
      | _ \<Rightarrow> Mem_None)"

definition rl_may :: "rl_pc \<Rightarrow> bool \<Rightarrow> nat \<Rightarrow> bool" where
  "rl_may pc wr loc \<longleftrightarrow> pc = Rl_Exclusive \<or> pc = Rl_Shared \<and> \<not> wr"

definition rl_program :: "mem_order \<Rightarrow> (back_off \<Rightarrow> back_off) \<Rightarrow> (back_off \<Rightarrow> back_off)
    \<Rightarrow> (rl_event, rl_pc, atomic_ptr_state) mem_program" where
  "rl_program release lfw blw = \<lparr>mp_next = rl_word_next lfw blw, mp_access = rl_access release, mp_may = rl_may\<rparr>"

definition rl_order_starts :: "rl_pc list \<Rightarrow> bool" where
  "rl_order_starts pcs \<longleftrightarrow> set pcs \<subseteq> {Rl_Idle}"

definition rl_word_inv :: "atomic_ptr_state \<Rightarrow> rl_pc list \<Rightarrow> bool" where
  "rl_word_inv at pcs \<longleftrightarrow> rl_counts \<lparr>cl_shared = cv_sight at (\<lambda>_. None), cl_pcs = pcs\<rparr>"

lemma rl_word_inv_sight: "rl_counts \<lparr>cl_shared = sh, cl_pcs = pcs\<rparr> \<longleftrightarrow> rl_word_inv (cv_atomic sh) pcs"
  using cv_sight_load[of sh "\<lambda>_. None"]
  by (simp add: rl_word_inv_def rl_counts_def rl_readers_def rl_writers_def)

lemma rl_word_cases:
  assumes "rl_word_next lfw blw ev pc at = Some (pc', at')"
  obtains (tries) ok sh where "ev = Rl_Try_Exclusive" "pc = Rl_Idle" "rl_try_lock_exclusive (cv_sight at (\<lambda>_. None)) = (ok, sh)"
      "pc' = (if ok then Rl_Exclusive else Rl_Idle)" "at' = cv_atomic sh"
    | (calls) m where "at' = at" "\<forall>release at. rl_access release ev pc at = Mem_None"
      "pc = Rl_Idle \<and> pc' \<in> {Rl_Try rl_try_lock_shared, Rl_Fast m} \<or>
       pc = Rl_Shared \<and> pc' = Rl_Unlock_Shared rl_unlock_shared \<or>
       pc = Rl_Exclusive \<and> pc' = Rl_Unlock_Exclusive rl_unlock_exclusive"
    | (runs) addr thread spurious nodes sh where "ev = Rl_Run addr thread spurious nodes" "addr AND 255 = 0"
      "rl_next lfw blw addr thread spurious pc (cv_sight at nodes) = Inr (pc', sh)" "at' = cv_atomic sh"
  using assms cv_fresh_aligned
  by (cases ev) (auto simp: rl_word_next_def rl_access_def simp del: rl_starts split: if_splits prod.splits sum.splits)

lemma rl_word_keeps:
  assumes inv: "rl_word_inv at pcs" and i: "i < length pcs" and nx: "rl_word_next lfw blw ev (pcs ! i) at = Some (pc, at')"
  shows "rl_word_inv at' (pcs[i := pc])"
proof -
  have s: "rl_counts \<lparr>cl_shared = cv_sight at nodes, cl_pcs = pcs\<rparr>" for nodes
    using inv rl_word_inv_sight[of "cv_sight at nodes" pcs] by simp
  from nx show ?thesis
  proof (cases rule: rl_word_cases)
    case (tries ok sh)
    with rl_counts_try[OF s[of "\<lambda>_. None"], of i ok sh] i show ?thesis by (simp add: rl_word_inv_sight)
  next
    case (calls m)
    with rl_counts_start[OF s[of "\<lambda>_. None"], of i "pcs ! i" pc m] i show ?thesis
      by (simp add: rl_word_inv_sight del: rl_starts)
  next
    case (runs addr thread spurious nodes sh)
    with rl_counts_next[OF s[of nodes], of i addr lfw blw thread spurious pc sh] i show ?thesis
      by (simp add: rl_word_inv_sight)
  qed
qed

lemma rl_access_call:
  "\<forall>m. pc \<noteq> Rl_Fast m \<Longrightarrow> rl_access release (Rl_Run addr thread spurious nodes) pc at =
    cv_access Relaxed (rl_update release pc) spurious (rl_cv pc) at"
  by (cases pc) (simp_all add: rl_access_def)

text \<open>Loads change nothing of who holds the lock; a reader may load the word when it unlocks.\<close>

lemma rl_load_step:
  assumes nx: "rl_word_next lfw blw ev pc at = Some (pc', at')" and a: "rl_access release ev pc at = Mem_Load ord"
    and ok: "rl_ok pc" "cv_asked (rl_cv pc)"
  shows "\<not> rl_writes pc \<and> \<not> rl_writes pc' \<and> (rl_reads pc' \<longleftrightarrow> rl_reads pc) \<and> rl_ok pc' \<and> cv_asked (rl_cv pc')"
  using nx
proof (cases rule: rl_word_cases)
  case (tries ok' sh)
  then have "cv_optimistic_update rl_unlocked rl_exclusive (cv_sight at (\<lambda>_. None)) = (ok', sh)"
    by (simp add: rl_try_lock_exclusive_def)
  from cv_optimistic_access_ok[OF this, of Acquire] a tries show ?thesis by (simp add: rl_access_def split: if_splits)
next
  case (runs addr thread spurious nodes sh)
  from runs(3) show ?thesis
  proof (cases rule: rl_next_cases)
    case (fast m ok')
    with a runs(1) cv_optimistic_access_ok[OF fast(2), of Acquire] show ?thesis
      by (simp add: rl_access_def split: if_splits)
  next
    case (returns r)
    then have "\<forall>m. pc \<noteq> Rl_Fast m" by auto
    with a runs(1) returns show ?thesis by (simp add: rl_access_call)
  next
    case (calls c')
    with a runs(1) have "cv_access Relaxed (rl_update release pc) spurious (rl_cv pc) (cv_atomic (cv_sight at nodes)) = Mem_Load ord"
      by (simp add: rl_access_call)
    note load = cv_access_load[OF calls(3) this]
    have "cv_asked c'" using cv_next_spec[OF calls(3) ok(2) runs(2)] by blast
    with load ok(1) calls(2) show ?thesis by (cases pc) auto
  qed
qed (use a in simp)

text \<open>
  Other accesses: the lock is taken with an acquiring read-modify-write, and given back with a releasing one
  if \<open>unlock_shared\<close> gives a releasing ordering.
\<close>

definition rl_write_ok :: "mem_access \<Rightarrow> rl_pc \<Rightarrow> rl_pc \<Rightarrow> bool" where
  "rl_write_ok a pc pc' \<longleftrightarrow>
     a = Mem_None \<and> (rl_writes pc' \<longleftrightarrow> rl_writes pc) \<and> (rl_reads pc' \<longleftrightarrow> rl_reads pc) \<or>
     (\<exists>ord. a = Mem_Rmw ord \<and> (rl_reads pc' \<or> rl_writes pc' \<longrightarrow> \<not> rl_reads pc \<and> \<not> rl_writes pc \<and> acquires ord) \<and>
       (rl_reads pc \<or> rl_writes pc \<longrightarrow> releases ord))"

lemma rl_release_waits: "lp_f rl_release_lp st \<noteq> Inr Cv_Wait"
  by (simp add: rl_release_lp_def cv_break_decision_def rl_release_choice_def)

lemma rl_call_write:
  assumes step: "cv_next lfw blw addr thread spurious (rl_cv pc) sh = Inr (c', sh')"
    and acc: "cv_access Relaxed (rl_update release pc) spurious (rl_cv pc) (cv_atomic sh) = a"
    and load: "\<forall>ord. a \<noteq> Mem_Load ord" and ok: "rl_ok pc" "cv_asked (rl_cv pc)" and release: "releases release"
  shows "rl_write_ok a pc (rl_with pc c')"
proof (cases a)
  case Mem_None
  with cv_access_none(2)[OF step, of Relaxed] acc have "cv_phase_of c' = cv_phase_of (rl_cv pc)" by simp
  with Mem_None show ?thesis by (cases pc) (auto simp: rl_write_ok_def)
next
  case (Mem_Rmw ord)
  have rmw: "(\<exists>lp. cv_phase_of (rl_cv pc) = Cv_Asking lp \<and>
      ((\<exists>b cur x. rl_cv pc = Cv_Enqueue lp b cur x) \<and> cv_phase_of c' = Cv_Asking lp \<or>
       ord = rl_update release pc \<and> (\<exists>st. cv_phase_of c' = Cv_Answered (Inr st)))) \<or>
    (\<exists>st st'. cv_phase_of (rl_cv pc) = Cv_Setting st \<and> cv_phase_of c' = Cv_Answered (Inr st') \<and>
      ord = merge_ordering (rl_update release pc) Acquire)"
    by (rule cv_access_rmw[OF step]) (use acc Mem_Rmw in simp)
  show ?thesis
  proof (cases pc)
    case (Rl_Unlock_Shared c)
    with rmw ok Mem_Rmw release show ?thesis by (auto simp: rl_write_ok_def rl_release_waits)
  next
    case (Rl_Unlock_Exclusive c)
    with rmw ok(1) Mem_Rmw show ?thesis by (auto simp: rl_write_ok_def)
  next
    case (Rl_Lock m c)
    with rmw ok(1) Mem_Rmw show ?thesis by (auto simp: rl_write_ok_def)
  next
    case (Rl_Try c)
    with rmw ok(1) Mem_Rmw show ?thesis by (auto simp: rl_write_ok_def)
  qed (use rmw in auto)
qed (use load acc in \<open>auto simp: cv_access_store\<close>)

lemma rl_write_step:
  assumes nx: "rl_word_next lfw blw ev pc at = Some (pc', at')" and a: "rl_access release ev pc at = a"
    and load: "\<forall>ord. a \<noteq> Mem_Load ord" and ok: "rl_ok pc" "cv_asked (rl_cv pc)" and release: "releases release"
  shows "rl_write_ok a pc pc' \<and> (a = Mem_None \<longrightarrow> at' = at)"
  using nx
proof (cases rule: rl_word_cases)
  case (tries ok' sh)
  then have "cv_optimistic_update rl_unlocked rl_exclusive (cv_sight at (\<lambda>_. None)) = (ok', sh)"
    by (simp add: rl_try_lock_exclusive_def)
  from cv_optimistic_access_ok[OF this, of Acquire] a tries(1)
  have "a = (if ok' then Mem_Rmw Acquire else Mem_Load Relaxed)" by (simp add: rl_access_def)
  with load tries(2,4) show ?thesis by (auto simp: rl_write_ok_def split: if_splits)
next
  case (calls m)
  with a show ?thesis by (auto simp: rl_write_ok_def)
next
  case (runs addr thread spurious nodes sh)
  from runs(3) show ?thesis
  proof (cases rule: rl_next_cases)
    case (fast m ok')
    with a load runs(1) cv_optimistic_access_ok[OF fast(2), of Acquire] show ?thesis
      by (auto simp: rl_access_def rl_write_ok_def split: if_splits)
  next
    case (returns r)
    then have none: "a = Mem_None" using a runs(1) rl_access_call[of pc] by (cases pc) auto
    with returns ok(1) runs(4) show ?thesis
      by (cases pc) (auto simp: rl_write_ok_def rl_held_def cv_result_ok_def split: rl_mode.splits sum.splits)
  next
    case (calls c')
    with a runs(1) have acc: "cv_access Relaxed (rl_update release pc) spurious (rl_cv pc) (cv_atomic (cv_sight at nodes)) = a"
      by (simp add: rl_access_call)
    show ?thesis using rl_call_write[OF calls(3) acc load ok release] calls(2) runs(4)
      cv_access_none(1)[OF calls(3), of Relaxed "rl_update release pc"] acc by auto
  qed
qed

lemma rl_word_load:
  assumes inv: "rl_word_inv at pcs" and i: "i < length pcs" and nx: "rl_word_next lfw blw ev (pcs ! i) v = Some (pc, v')"
    and a: "rl_access release ev (pcs ! i) v = Mem_Load ord"
  shows "rl_word_inv at (pcs[i := pc]) \<and> \<not> rl_writes pc \<and> \<not> rl_writes (pcs ! i) \<and> (rl_reads (pcs ! i) \<longleftrightarrow> rl_reads pc)"
proof -
  let ?s = "\<lparr>cl_shared = cv_sight at (\<lambda>_. None), cl_pcs = pcs\<rparr>"
  have counts: "rl_counts ?s" using inv by (simp add: rl_word_inv_def)
  then have "rl_ok (pcs ! i)" "cv_asked (rl_cv (pcs ! i))" using i by (simp_all add: rl_counts_def)
  note step = rl_load_step[OF nx a this]
  have "rl_counts (?s\<lparr>cl_shared := cl_shared ?s, cl_pcs := (cl_pcs ?s)[i := pc]\<rparr>)"
    by (rule rl_counts_update[OF counts]) (use i step in auto)
  with step show ?thesis by (simp add: rl_word_inv_def)
qed

lemma rl_word_exclusive:
  "rl_word_inv at pcs \<Longrightarrow> i < length pcs \<Longrightarrow> j < length pcs \<Longrightarrow> rl_writes (pcs ! i) \<Longrightarrow>
    rl_reads (pcs ! j) \<or> rl_writes (pcs ! j) \<Longrightarrow> i = j"
  using rl_counts_exclusive[of "\<lparr>cl_shared = cv_sight at (\<lambda>_. None), cl_pcs = pcs\<rparr>" i j]
  by (simp add: rl_word_inv_def rl_writing_def rl_holding_def)

lemma rl_word_write:
  assumes inv: "rl_word_inv at pcs" and i: "i < length pcs" and nx: "rl_word_next lfw blw ev (pcs ! i) at = Some (pc, at')"
    and a: "rl_access release ev (pcs ! i) at = a" "\<forall>ord. a \<noteq> Mem_Load ord" and release: "releases release"
  shows "(a = Mem_None \<longrightarrow> at' = at \<and> lock_move_ok rl_writes rl_reads (\<lambda>_. False) (pcs ! i) pc) \<and>
    (a \<noteq> Mem_None \<longrightarrow> lock_write_ok rl_writes rl_reads (\<lambda>_. False) a pcs i pc)"
proof -
  have "rl_ok (pcs ! i)" "cv_asked (rl_cv (pcs ! i))" using inv i by (simp_all add: rl_word_inv_def rl_counts_def)
  note step = rl_write_step[OF nx a this release]
  note t = rl_word_exclusive[OF rl_word_keeps[OF inv i nx]]
  have alone: "\<not> rl_writes (pcs ! j) \<and> \<not> rl_reads (pcs ! j)" if "rl_writes pc" "j < length pcs" "j \<noteq> i" for j
    using t[of i j] i that by auto
  have shared: "\<not> rl_writes (pcs ! j)" if "rl_reads pc" "j < length pcs" "j \<noteq> i" for j
    using t[of j i] i that by auto
  show ?thesis
  proof (cases "a = Mem_None")
    case True
    with step show ?thesis by (auto simp: rl_write_ok_def lock_move_ok_def)
  next
    case False
    with step obtain ord where "a = Mem_Rmw ord"
      "rl_reads pc \<or> rl_writes pc \<longrightarrow> \<not> rl_reads (pcs ! i) \<and> \<not> rl_writes (pcs ! i) \<and> acquires ord"
      "rl_reads (pcs ! i) \<or> rl_writes (pcs ! i) \<longrightarrow> releases ord" unfolding rl_write_ok_def by blast
    with alone shared False show ?thesis unfolding lock_write_ok_def by blast
  qed
qed

lemma rl_starts_inv: "rl_order_starts pcs \<Longrightarrow> rl_word_inv (cv_atomic rl_new) pcs"
  using rl_init_inv[of "\<lparr>cl_shared = rl_new, cl_pcs = pcs\<rparr>"] rl_word_inv_sight[of rl_new pcs]
  by (simp add: rl_order_starts_def rl_init_def rl_inv_def)

lemma rl_ordered:
  assumes release: "releases release"
  shows "ordered_lock (rl_program release lfw blw) rl_word_inv (\<lambda>_. True) (\<lambda>_. False) rl_writes rl_reads (\<lambda>_. False)
    (cv_atomic rl_new) rl_order_starts"
proof
  fix pcs at v at' v' i j ev ord pc a
  show "rl_word_inv at pcs \<Longrightarrow> i < length pcs \<Longrightarrow> j < length pcs \<Longrightarrow> j \<noteq> i \<Longrightarrow> rl_writes (pcs ! j) \<Longrightarrow>
      \<not> rl_writes (pcs ! i) \<and> \<not> rl_reads (pcs ! i)"
    using rl_word_exclusive by blast
  assume inv: "rl_word_inv at pcs" and i: "i < length pcs"
  show "rl_word_inv at (pcs[i := pc]) \<and> \<not> rl_writes pc \<and> \<not> rl_writes (pcs ! i) \<and> (rl_reads (pcs ! i) \<longrightarrow> rl_reads pc) \<and>
      (rl_reads pc \<longrightarrow> rl_reads (pcs ! i) \<or> acquires ord \<and> False \<and> False) \<and> (False \<longrightarrow> False)"
    if "mp_access (rl_program release lfw blw) ev (pcs ! i) v = Mem_Load ord"
      and "mp_next (rl_program release lfw blw) ev (pcs ! i) v = Some (pc, v')"
    using rl_word_load[OF inv i] that by (simp add: rl_program_def)
  show "rl_word_inv at' (pcs[i := pc]) \<and>
      (a = Mem_None \<longrightarrow> at' = at \<and> lock_move_ok rl_writes rl_reads (\<lambda>_. False) (pcs ! i) pc) \<and>
      (a \<noteq> Mem_None \<longrightarrow> lock_write_ok rl_writes rl_reads (\<lambda>_. False) a pcs i pc)"
    if "mp_access (rl_program release lfw blw) ev (pcs ! i) at = a" and "\<forall>ord. a \<noteq> Mem_Load ord"
      and "mp_next (rl_program release lfw blw) ev (pcs ! i) at = Some (pc, at')"
    using rl_word_keeps[OF inv i] rl_word_write[OF inv i] that release by (simp add: rl_program_def)
qed (auto simp: rl_program_def rl_starts_inv rl_may_def)

text \<open>With \<open>Release\<close> in \<open>unlock_shared\<close>.\<close>

interpretation rl_order: ordered_lock "rl_program Release lfw blw" rl_word_inv "\<lambda>_. True" "\<lambda>_. False" rl_writes
  rl_reads "\<lambda>_. False" "cv_atomic rl_new" rl_order_starts for lfw blw
  by (rule rl_ordered) simp

text \<open>Thread 0 locks shared, reads and unlocks, then thread 1 locks exclusively.\<close>

definition rl_read_then_write :: "rl_event mem_act list" where
  "rl_read_then_write =
     (let run = Rl_Run 256 0 False (\<lambda>_. None)
      in [Act_Step 0 (Rl_Call_Lock Rl_S) 0, Act_Step 0 run 0, Act_Touch 0 False 7, Act_Step 0 Rl_Call_Unlock 0,
          Act_Step 0 run 1, Act_Step 0 run 1, Act_Step 1 Rl_Try_Exclusive 0])"

lemmas rl_run_eval = rl_demo_eval rl_read_then_write_def rl_program_def rl_word_next_def rl_access_def rl_may_def
  mem_init_def mem_last_def mem_goes_def mem_adds_def mem_logs_def cv_sight_def rl_new_def cv_zero_def
  aps_null_zero_def cv_optimistic_access_def cv_updated_def ps_with_state_def rl_try_lock_exclusive_def Let_def

lemma rl_release_one: "lp_f rl_release_lp 1 = Inr (Cv_Update 0)"
  by (simp add: rl_release_lp_def cv_break_decision_def rl_release_choice_def rl_unlocked_def)

lemma rl_read_then_write_run:
  "\<exists>s. mem_run (rl_program release lfw blw) rl_read_then_write (mem_init (cv_atomic rl_new) [Rl_Idle, Rl_Idle]) = Some s \<and>
     ms_pcs s ! 1 = Rl_Exclusive \<and> length (ms_pcs s) = 2 \<and> ms_log s = [\<lparr>da_thread = 0, da_write = False, da_loc = 7\<rparr>] \<and>
     (0 \<in> ms_seen s ! 1 \<longleftrightarrow> releases release)"
  by (simp add: rl_run_eval rl_release_one)

lemma rl_races:
  assumes "\<not> releases release"
  shows "\<exists>s. reachable (mem_starts (cv_atomic rl_new) rl_order_starts) (mem_step (rl_program release lfw blw)) s \<and>
    \<not> mem_race_free (rl_program release lfw blw) s"
proof -
  obtain s where run: "mem_run (rl_program release lfw blw) rl_read_then_write
      (mem_init (cv_atomic rl_new) [Rl_Idle, Rl_Idle]) = Some s"
    and s: "ms_pcs s ! 1 = Rl_Exclusive" "length (ms_pcs s) = 2"
      "ms_log s = [\<lparr>da_thread = 0, da_write = False, da_loc = 7\<rparr>]" "0 \<notin> ms_seen s ! 1"
    using rl_read_then_write_run[of release lfw blw] assms by blast
  have "reachable (mem_starts (cv_atomic rl_new) rl_order_starts) (mem_step (rl_program release lfw blw)) s"
    by (rule mem_run_reachable[OF run reach_init]) (simp add: mem_starts_def mem_init_def rl_order_starts_def)
  moreover have "\<not> mem_race_free (rl_program release lfw blw) s"
  proof
    assume "mem_race_free (rl_program release lfw blw) s"
    from mem_race_freeD[OF this, of 1 True 7 0] s show False by (simp add: rl_program_def rl_may_def)
  qed
  ultimately show ?thesis by blast
qed

section \<open>Properties\<close>

text \<open>
  Claim C14. The orderings of \<open>RawMutex\<close> suffice, whatever is in the nodes of the waiting threads: on a
  memory in which loads may read old values, at most one thread holds the mutex and no access made under it
  races with an earlier one.
\<close>

theorem raw_mutex_race_free:
  assumes "reachable (mem_starts (cv_atomic mx_new) mx_starts) (mem_step (mx_program lfw blw)) s"
  shows "mem_race_free (mx_program lfw blw) s \<and>
    (i < length (ms_pcs s) \<and> j < length (ms_pcs s) \<and> mx_holds (ms_pcs s ! i) \<and> mx_holds (ms_pcs s ! j) \<longrightarrow> i = j)"
proof -
  note inv = mx_order.reachable_lock_inv[OF assms]
  from mx_order.reachable_race_free[OF assms] mx_word_exclusive[OF inv] show ?thesis by blast
qed

text \<open>Thread 0 locks, writes and unlocks, thread 1 locks.\<close>

definition mx_handover :: "mx_event mem_act list" where
  "mx_handover =
     (let run = Mx_Run 256 0 False (\<lambda>_. None)
      in [Act_Step 0 Mx_Call_Lock 0, Act_Step 0 run 0, Act_Touch 0 True 7, Act_Step 0 Mx_Call_Unlock 0,
          Act_Step 0 run 0, Act_Step 1 Mx_Try_Lock 0])"

theorem raw_mutex_race_free_witness:
  "\<exists>s. mem_run (mx_program id id) mx_handover (mem_init (cv_atomic mx_new) [Mx_Idle, Mx_Idle]) = Some s \<and>
     ms_pcs s ! 1 = Mx_Held \<and> 0 \<in> ms_seen s ! 1"
proof -
  obtain s c where run: "mem_run (mx_program id id) mx_handover (mem_init (cv_atomic mx_new) [Mx_Idle, Mx_Idle]) = Some s"
    and s: "ms_pcs s = [Mx_Unlock c, Mx_Held]" "ms_log s = [\<lparr>da_thread = 0, da_write = True, da_loc = 7\<rparr>]"
    by (simp add: mx_handover_def mx_program_def mx_word_next_def mx_access_def mem_init_def mem_last_def mem_goes_def
        mem_adds_def mem_logs_def mx_try_lock_def mx_new_def cv_zero_def aps_null_zero_def cv_sight_def
        cv_optimistic_access_def cv_optimistic_update_def aps_compare_exchange_def aps_swap_def mx_unlock_swap
        mx_unlocked_def mx_locked_def cv_word_eval cv_fresh_def cv_leave_def Let_def)
  have "reachable (mem_starts (cv_atomic mx_new) mx_starts) (mem_step (mx_program id id)) s"
    by (rule mem_run_reachable[OF run reach_init]) (simp add: mem_starts_def mem_init_def mx_starts_def)
  from raw_mutex_race_free[OF this] have "mem_race_free (mx_program id id) s" by blast
  from mem_race_freeD[OF this, of 1 True 7 0] s have "0 \<in> ms_seen s ! 1" by (simp add: mx_program_def)
  with run s show ?thesis by simp
qed

text \<open>
  Claim C24. \<open>RawRwLock\<close> has data races: a thread that locks exclusively after a reader has unlocked may
  write what the reader read without any order between the two accesses. The cause is the ordering that
  \<open>unlock_shared\<close> gives: for an ordering \<open>r\<close> in its place there is a race exactly if \<open>r\<close> does not release,
  and all other orderings of the lock suffice.
\<close>

theorem raw_rwlock_races:
  "(\<exists>s. reachable (mem_starts (cv_atomic rl_new) rl_order_starts)
       (mem_step (rl_program rl_unlock_shared_update lfw blw)) s \<and>
     \<not> mem_race_free (rl_program rl_unlock_shared_update lfw blw) s) \<and>
   ((\<exists>s. reachable (mem_starts (cv_atomic rl_new) rl_order_starts) (mem_step (rl_program r lfw blw)) s \<and>
     \<not> mem_race_free (rl_program r lfw blw) s) \<longleftrightarrow> \<not> releases r)"
proof -
  note ordered_lock.reachable_race_free[OF rl_ordered, of r lfw blw]
  moreover have "\<not> releases rl_unlock_shared_update" by (simp add: rl_unlock_shared_update_def)
  ultimately show ?thesis using rl_races by blast
qed

end
