(* ===== verification/Flip_Rwlock.thy ===== *)
theory Flip_Rwlock
  imports Flip_Order Cond_Var_Order
begin

text \<open>
  A \<open>FlipQueue\<close> of \<open>src/src/flip_queue.rs\<close> over the \<open>RawRwLock\<close> of \<open>src/src/rwlock.rs\<close> with the orderings of both.
  \<open>Flip_Lock\<close> shows that over this lock, too, every interleaving of sequentially consistent accesses is harmless. But
  \<open>unlock_shared\<close> does not release, and what a thread did to the buffer under a read guard does not
  reach the thread that takes the write guard next.
\<close>

text \<open>
  The lock on the memory of \<open>Mem_Order\<close>. The address of a node and the nodes of the other threads are arbitrary. What
  \<open>unlock_shared\<close> gives as \<open>update\<close> is a parameter; the code gives \<open>rl_unlock_shared_update\<close>.
\<close>

definition rl_weak :: "mem_order \<Rightarrow> (back_off \<Rightarrow> back_off) \<Rightarrow> (back_off \<Rightarrow> back_off)
    \<Rightarrow> (rl_pc, atomic_ptr_state) mem_system raw_lock" where
  "rl_weak release lfw blw = mem_raw (rl_program release lfw blw) (cv_atomic rl_new) rl_order_starts rl_writes rl_reads
     (\<lambda>pc. pc = Rl_Idle) (\<lambda>m. Rl_Call_Lock (rl_mode_of m))
     {ev. \<exists>addr thread spurious nodes. ev = Rl_Run addr thread spurious nodes} (\<lambda>_. Rl_Call_Unlock)"

lemma rl_weak_race_free:
  assumes "releases release"
    and "reachable (fo_init sz (rl_weak release lfw blw)) (fo_step sz (rl_weak release lfw blw)) s"
  shows "fo_race_free s"
  using ordered_lock.fo_reachable_race_free[OF rl_ordered[OF assms(1)]] assms(2) unfolding rl_weak_def .

section \<open>A push and a drain\<close>

text \<open>
  Thread 0 calls \<open>try_push_sync\<close> and has returned from \<open>unlock_shared\<close> when thread 1 calls \<open>drain_locking\<close> with a closure
  that takes one element.
\<close>

abbreviation rl_run_event :: rl_event where
  "rl_run_event \<equiv> Rl_Run 256 0 False (\<lambda>_. None)"

lemma rl_flip_memory:
  fixes lfw blw :: "back_off \<Rightarrow> back_off" and release :: mem_order
  defines "P \<equiv> rl_program release lfw blw"
  shows "\<exists>m1 m2 m3 m4 m5 m6 m7 m8.
    mem_exec P (Act_Step 0 (Rl_Call_Lock Rl_S) 0) (mem_init (cv_atomic rl_new) [Rl_Idle, Rl_Idle]) = Some m1 \<and>
    mem_exec P (Act_Step 0 rl_run_event 0) m1 = Some m2 \<and> length (ms_pcs m2) = 2 \<and> ms_pcs m2 ! 0 = Rl_Shared \<and>
    mem_exec P (Act_Step 0 Rl_Call_Unlock 0) (mem_logs 0 False 0 (mem_logs 0 False 0 m2)) = Some m3 \<and>
    mem_exec P (Act_Step 0 rl_run_event 1) m3 = Some m4 \<and>
    mem_exec P (Act_Step 0 rl_run_event 1) m4 = Some m5 \<and>
    mem_exec P (Act_Step 0 rl_run_event 1) m5 = Some m6 \<and> ms_pcs m6 ! 0 = Rl_Idle \<and>
    mem_exec P (Act_Step 1 (Rl_Call_Lock Rl_X) 0) m6 = Some m7 \<and>
    mem_exec P (Act_Step 1 rl_run_event 0) m7 = Some m8 \<and> length (ms_pcs m8) = 2 \<and> ms_pcs m8 ! 0 = Rl_Idle \<and>
    ms_pcs m8 ! 1 = Rl_Exclusive \<and> ms_seen m8 ! 1 = (if releases release then {0, 1} else {})"
  unfolding P_def by (simp add: rl_run_eval rl_release_one mem_learns_def mem_publishes_def cv_result_ok_def) auto

lemma rl_weak_calls:
  "mem_exec (rl_program release lfw blw) (Act_Step i (Rl_Call_Lock (rl_mode_of mode)) k) m = Some m' \<Longrightarrow>
    lk_call (rl_weak release lfw blw) mode i m m'"
  "mem_exec (rl_program release lfw blw) (Act_Step i rl_run_event k) m = Some m' \<Longrightarrow> lk_run (rl_weak release lfw blw) i m m'"
  "mem_exec (rl_program release lfw blw) (Act_Step i Rl_Call_Unlock k) m = Some m' \<Longrightarrow>
    lk_unlock (rl_weak release lfw blw) mode i m m'"
  unfolding rl_weak_def mem_raw_def by (simp_all del: mem_exec.simps) blast+

lemma rl_weak_guard:
  "i < length (ms_pcs m) \<Longrightarrow> ms_pcs m ! i = rl_held (rl_mode_of mode) \<Longrightarrow> lk_guard (rl_weak release lfw blw) mode i m"
  "i < length (ms_pcs m) \<Longrightarrow> ms_pcs m ! i = Rl_Idle \<Longrightarrow> lk_idle (rl_weak release lfw blw) i m"
  by (cases mode; simp add: rl_weak_def mem_raw_def rl_mode_of_def rl_held_def)+

text \<open>The element is written under the read guard.\<close>

lemma rl_flip_push:
  assumes "fo_reaches 8 L fb_two [] m [Fl_Reserve (Fl_Push False v), Fl_Idle] []"
  shows "fo_reaches 8 L (fb_two\<lparr>fb_buffer := \<lparr>rb_head = 0, rb_len = 0, rb_array = [Some v, None]\<rparr>, fb_pushed := 1\<rparr>) [v]
    (mem_logs 0 False 0 (mem_logs 0 False 0 m)) [Fl_Drop Lk_Read None, Fl_Idle] [Touch_Header, Touch_Write 0]"
proof -
  have "fl_access 8 (Fl_Reserve (Fl_Push False v)) fb_two = Inr (Fl_Write_Slot 0 v, [], fb_two\<lparr>fb_pushed := 1\<rparr>)"
    by (simp add: fb_two_def fb_push_reserve_def fb_push_slot_def rb_capacity_def ring_index_def usize_max_def Let_def)
  with fo_at_accesses[OF assms, of 0 Touch_Header "Fl_Write_Slot 0 v" "fb_two\<lparr>fb_pushed := 1\<rparr>"]
  have "fo_reaches 8 L (fb_two\<lparr>fb_pushed := 1\<rparr>) [v] (mem_logs 0 False 0 m) [Fl_Write_Slot 0 v, Fl_Idle] [Touch_Header]"
    by (simp add: fb_two_def)
  from fo_at_accesses[OF this, of 0 "Touch_Write 0"] show ?thesis
    by (simp add: fb_two_def fb_write_def write_cell_def)
qed

lemma rl_flip_run:
  fixes v :: 'a and lfw blw :: "back_off \<Rightarrow> back_off" and release :: mem_order
  defines "L \<equiv> rl_weak release lfw blw"
  obtains s :: "(rl_pc, atomic_ptr_state, 'a) fo_system" where "reachable (fo_init 8 L) (fo_step 8 L) s"
    "fo_pcs s = [Fl_Idle, Fl_Flush (Fl_Drain 1 None)]" "fo_log s = [Touch_Header, Touch_Write 0]" "fl_in (fo_fl s) = [v]"
    "ms_seen (fo_mem s) ! 1 = (if releases release then {0, 1} else {})"
proof -
  let ?P = "rl_program release lfw blw" and ?c = "Fl_Push False v" and ?d = "Fl_Drain 1 None :: 'a fl_call"
  let ?m0 = "mem_init (cv_atomic rl_new) [Rl_Idle, Rl_Idle]"
  let ?fb = "fb_two\<lparr>fb_buffer := \<lparr>rb_head = 0, rb_len = 0, rb_array = [Some v, None]\<rparr>, fb_pushed := 1\<rparr>"
    and ?ks = "[Touch_Header, Touch_Write 0]"
  obtain m1 m2 m3 m4 m5 m6 m7 m8 where
    m1: "mem_exec ?P (Act_Step 0 (Rl_Call_Lock Rl_S) 0) ?m0 = Some m1" and
    m2: "mem_exec ?P (Act_Step 0 rl_run_event 0) m1 = Some m2" and shared: "length (ms_pcs m2) = 2" "ms_pcs m2 ! 0 = Rl_Shared" and
    m3: "mem_exec ?P (Act_Step 0 Rl_Call_Unlock 0) (mem_logs 0 False 0 (mem_logs 0 False 0 m2)) = Some m3" and
    m4: "mem_exec ?P (Act_Step 0 rl_run_event 1) m3 = Some m4" and
    m5: "mem_exec ?P (Act_Step 0 rl_run_event 1) m4 = Some m5" and
    m6: "mem_exec ?P (Act_Step 0 rl_run_event 1) m5 = Some m6" and
    m7: "mem_exec ?P (Act_Step 1 (Rl_Call_Lock Rl_X) 0) m6 = Some m7" and
    m8: "mem_exec ?P (Act_Step 1 rl_run_event 0) m7 = Some m8" and excl: "length (ms_pcs m8) = 2" "ms_pcs m8 ! 0 = Rl_Idle"
      "ms_pcs m8 ! 1 = Rl_Exclusive" "ms_seen m8 ! 1 = (if releases release then {0, 1} else {})"
    using rl_flip_memory[of release lfw blw] by metis
  note calls = rl_weak_calls(1)[of release lfw blw _ Lk_Read, unfolded rl_mode_of_def lock_mode.case]
    rl_weak_calls(1)[of release lfw blw _ Lk_Write, unfolded rl_mode_of_def lock_mode.case]
  have "fo_reaches 8 L fb_two [] ?m0 [Fl_Idle, Fl_Idle] []"
    by (rule fo_at_init[OF _ _ fb_two_new])
      (simp_all add: L_def rl_weak_def mem_raw_def mem_starts_def mem_init_def rl_order_starts_def)
  from fo_at_calls[OF this, of 0 ?c] calls(1)[OF m1]
  have "fo_reaches 8 L fb_two [] m1 [Fl_Lock Lk_Read ?c, Fl_Idle] []" by (simp add: L_def)
  from fo_at_runs[OF this, of 0] rl_weak_calls(2)[OF m2]
  have "fo_reaches 8 L fb_two [] m2 [Fl_Lock Lk_Read ?c, Fl_Idle] []" by (simp add: L_def)
  from fo_at_locks[OF this, of 0 Lk_Read ?c] rl_weak_guard(1)[of 0 m2 Lk_Read] shared
  have "fo_reaches 8 L fb_two [] m2 [Fl_Reserve ?c, Fl_Idle] []" by (simp add: L_def fl_locked_def rl_mode_of_def rl_held_def)
  from fo_at_unlocks[OF rl_flip_push[OF this], of 0 Lk_Read None] rl_weak_calls(3)[OF m3]
  have "fo_reaches 8 L ?fb [v] m3 [Fl_Dropping None, Fl_Idle] ?ks" by (simp add: L_def)
  from fo_at_runs[OF this, of 0] rl_weak_calls(2)[OF m4]
  have "fo_reaches 8 L ?fb [v] m4 [Fl_Dropping None, Fl_Idle] ?ks" by (simp add: L_def)
  from fo_at_runs[OF this, of 0] rl_weak_calls(2)[OF m5]
  have "fo_reaches 8 L ?fb [v] m5 [Fl_Dropping None, Fl_Idle] ?ks" by (simp add: L_def)
  from fo_at_runs[OF this, of 0] rl_weak_calls(2)[OF m6]
  have "fo_reaches 8 L ?fb [v] m6 [Fl_Dropping None, Fl_Idle] ?ks" by (simp add: L_def)
  from fo_at_calls[OF this, of 1 ?d] calls(2)[OF m7]
  have "fo_reaches 8 L ?fb [v] m7 [Fl_Dropping None, Fl_Lock Lk_Write ?d] ?ks" by (simp add: L_def)
  from fo_at_runs[OF this, of 1] rl_weak_calls(2)[OF m8]
  have "fo_reaches 8 L ?fb [v] m8 [Fl_Dropping None, Fl_Lock Lk_Write ?d] ?ks" by (simp add: L_def)
  from fo_at_locks[OF this, of 1 Lk_Write ?d] rl_weak_guard(1)[of 1 m8 Lk_Write] excl
  have "fo_reaches 8 L ?fb [v] m8 [Fl_Dropping None, Fl_Flush ?d] ?ks"
    by (simp add: L_def fl_locked_def rl_mode_of_def rl_held_def)
  from fo_at_moves[OF this, of 0 m8 Fl_Idle]
    fl_returns[of 0 "fo_fl (fo_at ?fb [v] m8 [Fl_Dropping None, Fl_Flush ?d] ?ks)" L 8] rl_weak_guard(2)[of 0 m8] excl
  have "fo_reaches 8 L ?fb [v] m8 [Fl_Idle, Fl_Flush ?d] ?ks" by (simp add: L_def fo_at_def)
  then show thesis by (rule that) (use excl in \<open>simp_all add: fo_at_def\<close>)
qed

section \<open>Properties\<close>

text \<open>
  Claim C12. A \<open>FlipQueue\<close> over \<open>RawRwLock\<close> has data races: a thread has pushed an element and its call has returned, and
  the next thread that takes the write guard flushes and drains the buffer without any order between the write of the
  element and its own accesses. For an ordering \<open>r\<close> in place of the \<open>Acquire\<close> of \<open>unlock_shared\<close> there is a race exactly
  if \<open>r\<close> does not release.
\<close>

theorem flip_queue_over_rwlock_races:
  "(\<exists>s :: (rl_pc, atomic_ptr_state, 'a) fo_system.
      reachable (fo_init 8 (rl_weak rl_unlock_shared_update lfw blw)) (fo_step 8 (rl_weak rl_unlock_shared_update lfw blw)) s \<and>
      fo_pcs s = [Fl_Idle, Fl_Flush (Fl_Drain 1 None)] \<and> fl_in (fo_fl s) = [v] \<and>
      fo_log s = [Touch_Header, Touch_Write 0] \<and> ms_seen (fo_mem s) ! 1 = {} \<and> \<not> fo_race_free s) \<and>
   ((\<exists>sz. \<exists>s :: (rl_pc, atomic_ptr_state, 'a) fo_system.
      reachable (fo_init sz (rl_weak r lfw blw)) (fo_step sz (rl_weak r lfw blw)) s \<and> \<not> fo_race_free s) \<longleftrightarrow> \<not> releases r)"
proof -
  have race: "\<exists>s :: (rl_pc, atomic_ptr_state, 'a) fo_system.
      reachable (fo_init 8 (rl_weak q lfw blw)) (fo_step 8 (rl_weak q lfw blw)) s \<and>
      fo_pcs s = [Fl_Idle, Fl_Flush (Fl_Drain 1 None)] \<and> fl_in (fo_fl s) = [v] \<and>
      fo_log s = [Touch_Header, Touch_Write 0] \<and> ms_seen (fo_mem s) ! 1 = {} \<and> \<not> fo_race_free s"
    if "\<not> releases q" for q
  proof -
    obtain s :: "(rl_pc, atomic_ptr_state, 'a) fo_system" where
      s: "reachable (fo_init 8 (rl_weak q lfw blw)) (fo_step 8 (rl_weak q lfw blw)) s"
        "fo_pcs s = [Fl_Idle, Fl_Flush (Fl_Drain 1 None)]" "fo_log s = [Touch_Header, Touch_Write 0]" "fl_in (fo_fl s) = [v]"
        "ms_seen (fo_mem s) ! 1 = (if releases q then {0, 1} else {})" by (rule rl_flip_run)
    have "\<not> fo_race_free s"
    proof
      assume "fo_race_free s"
      then have "touch_conflict Touch_All (fo_log s ! 0) \<longrightarrow> 0 \<in> ms_seen (fo_mem s) ! 1"
        unfolding fo_race_free_def using s(2,3) by (auto dest!: spec[of _ 1])
      with s(5) that show False by simp
    qed
    with s that show ?thesis by auto
  qed
  moreover have "\<not> releases rl_unlock_shared_update" by (simp add: rl_unlock_shared_update_def)
  ultimately show ?thesis using rl_weak_race_free by blast
qed

end
