(* ===== verification/Arena.thy ===== *)
theory Arena
  imports Amity_Prelude
begin

text \<open>
  The arena of \<open>src/src/arena.rs\<close>: slots with a list of the vacant ones threaded through them. Nothing in
  the code marks a slot as vacant, and moving a value out of a slot or dropping it leaves its bits in
  place: such a slot is \<open>Stale\<close>. \<open>copy\<close> says whether the bits may be used again, which the contracts of
  \<open>assume_init_read\<close> and \<open>assume_init_drop\<close> allow for a type that is \<open>Copy\<close>; for other types using them is
  \<open>Undefined_behaviour\<close>. A destructor of a value that panics is left out. \<open>debug\<close> says whether debug
  assertions are compiled. The slots are a boxed slice in the source, on which \<open>push\<close> is the \<open>push\<close> of
  \<open>Vec\<close>.
\<close>

section \<open>Slots\<close>

text \<open>The bits of a slot: those of a value that the slot owns, or of one moved out or dropped.\<close>

datatype 'a cell = Init 'a | Stale 'a

definition cell_use :: "bool \<Rightarrow> 'a cell \<Rightarrow> 'a res" where
  "cell_use copy c = (case c of Init v \<Rightarrow> Inr v | Stale v \<Rightarrow> if copy then Inr v else Inl Undefined_behaviour)"

definition cell_write :: "'a \<Rightarrow> 'a cell \<Rightarrow> 'a cell" where
  "cell_write v c = (case c of Init _ \<Rightarrow> Init v | Stale _ \<Rightarrow> Stale v)"

definition cell_owned :: "'a cell \<Rightarrow> 'a option" where
  "cell_owned c = (case c of Init v \<Rightarrow> Some v | Stale _ \<Rightarrow> None)"

lemma cell_simps[simp]:
  "cell_use copy (Init v) = Inr v"
  "cell_use copy (Stale v) = (if copy then Inr v else Inl Undefined_behaviour)"
  "cell_write w (Init v) = Init w"
  "cell_write w (Stale v) = Stale w"
  "cell_owned (Init v) = Some v"
  "cell_owned (Stale v) = None"
  by (simp_all add: cell_use_def cell_write_def cell_owned_def)

lemma cell_owned_iff:
  "cell_owned c = Some v \<longleftrightarrow> c = Init v"
  "cell_owned c = None \<longleftrightarrow> (\<exists>v. c = Stale v)"
  by (cases c; simp)+

record 'a slot =
  sl_value :: "'a cell"
  sl_next :: nat

definition slot_vacant :: "bool \<Rightarrow> 'a slot \<Rightarrow> nat res" where
  "slot_vacant debug s = (if debug \<and> sl_next s = usize_max then Inl Debug_assert else Inr (sl_next s))"

definition slot_occupied_ref :: "bool \<Rightarrow> 'a slot \<Rightarrow> 'a res" where
  "slot_occupied_ref copy s = cell_use copy (sl_value s)"

text \<open>A mutable reference is used by writing a new value through it.\<close>

definition slot_occupied_mut :: "bool \<Rightarrow> 'a \<Rightarrow> 'a slot \<Rightarrow> 'a slot res" where
  "slot_occupied_mut copy v s =
     bind_res (cell_use copy (sl_value s)) (\<lambda>_. Inr (s\<lparr>sl_value := cell_write v (sl_value s)\<rparr>))"

definition slot_make_occupied :: "'a slot \<Rightarrow> 'a slot" where
  "slot_make_occupied s = s\<lparr>sl_next := usize_max\<rparr>"

definition slot_occupied_drop :: "bool \<Rightarrow> bool \<Rightarrow> nat \<Rightarrow> 'a slot \<Rightarrow> 'a slot res" where
  "slot_occupied_drop copy debug next s =
     (if debug \<and> next = usize_max then Inl Debug_assert
      else bind_res (cell_use copy (sl_value s)) (\<lambda>v. Inr (s\<lparr>sl_next := next, sl_value := Stale v\<rparr>)))"

definition slot_occupied_read :: "bool \<Rightarrow> bool \<Rightarrow> nat \<Rightarrow> 'a slot \<Rightarrow> ('a \<times> 'a slot) res" where
  "slot_occupied_read copy debug next s =
     (if debug \<and> next = usize_max then Inl Debug_assert
      else bind_res (cell_use copy (sl_value s)) (\<lambda>v. Inr (v, s\<lparr>sl_next := next, sl_value := Stale v\<rparr>)))"

section \<open>Operations\<close>

record 'a arena =
  ar_slots :: "'a slot list"
  ar_next :: nat

definition ar_new :: "'a arena" where
  "ar_new = \<lparr>ar_slots = [], ar_next = 0\<rparr>"

definition ar_insert :: "bool \<Rightarrow> 'a \<Rightarrow> 'a arena \<Rightarrow> (nat \<times> 'a arena) res" where
  "ar_insert debug v ar =
     (let index = ar_next ar in
      if index < length (ar_slots ar) then
        bind_res (slot_vacant debug (ar_slots ar ! index)) (\<lambda>next.
          Inr (index, ar\<lparr>ar_next := next, ar_slots := (ar_slots ar)[index :=
            (slot_make_occupied (ar_slots ar ! index))\<lparr>sl_value := Init v\<rparr>]\<rparr>))
      else
        (let slots = ar_slots ar @ [\<lparr>sl_value = Init v, sl_next = 0\<rparr>] in
         Inr (index, ar\<lparr>ar_slots := slots, ar_next := length slots\<rparr>)))"

definition ar_slot :: "nat \<Rightarrow> 'a arena \<Rightarrow> 'a slot res" where
  "ar_slot idx ar = (if idx < length (ar_slots ar) then Inr (ar_slots ar ! idx) else Inl Index_bounds)"

definition ar_remove :: "bool \<Rightarrow> bool \<Rightarrow> nat \<Rightarrow> 'a arena \<Rightarrow> ('a \<times> 'a arena) res" where
  "ar_remove copy debug idx ar =
     bind_res (ar_slot idx ar) (\<lambda>slot.
     bind_res (slot_occupied_read copy debug (ar_next ar) slot) (\<lambda>(v, slot').
       Inr (v, ar\<lparr>ar_slots := (ar_slots ar)[idx := slot'], ar_next := idx\<rparr>)))"

definition ar_drop :: "bool \<Rightarrow> bool \<Rightarrow> nat \<Rightarrow> 'a arena \<Rightarrow> ('a \<times> 'a arena) res" where
  "ar_drop copy debug idx ar =
     bind_res (ar_slot idx ar) (\<lambda>slot.
     bind_res (slot_vacant debug slot) (\<lambda>next.
     bind_res (slot_occupied_drop copy debug (ar_next ar) slot) (\<lambda>slot1.
     bind_res (slot_occupied_read copy debug next slot1) (\<lambda>(v, slot2).
       Inr (v, ar\<lparr>ar_slots := (ar_slots ar)[idx := slot2], ar_next := next\<rparr>)))))"

definition ar_get :: "bool \<Rightarrow> nat \<Rightarrow> 'a arena \<Rightarrow> 'a res" where
  "ar_get copy idx ar = bind_res (ar_slot idx ar) (slot_occupied_ref copy)"

definition ar_get_mut :: "bool \<Rightarrow> nat \<Rightarrow> 'a \<Rightarrow> 'a arena \<Rightarrow> 'a arena res" where
  "ar_get_mut copy idx v ar =
     bind_res (ar_slot idx ar) (\<lambda>slot.
     bind_res (slot_occupied_mut copy v slot) (\<lambda>slot'.
       Inr (ar\<lparr>ar_slots := (ar_slots ar)[idx := slot']\<rparr>)))"

section \<open>The list of vacant slots\<close>

text \<open>What the arena holds: the values that its slots own.\<close>

definition ar_map :: "'a arena \<Rightarrow> nat \<Rightarrow> 'a option" where
  "ar_map ar idx = (if idx < length (ar_slots ar) then cell_owned (sl_value (ar_slots ar ! idx)) else None)"

text \<open>The vacant slots from an index on; the list ends at the length.\<close>

fun ar_chain :: "'a slot list \<Rightarrow> nat \<Rightarrow> nat list \<Rightarrow> bool" where
  "ar_chain slots p [] \<longleftrightarrow> p = length slots"
| "ar_chain slots p (x # xs) \<longleftrightarrow> p = x \<and> x < length slots \<and> ar_chain slots (sl_next (slots ! x)) xs"

lemma ar_chain_update: "x \<notin> set xs \<Longrightarrow> ar_chain (slots[x := sl]) p xs \<longleftrightarrow> ar_chain slots p xs"
  by (induction xs arbitrary: p) auto

lemma ar_chain_start: "ar_chain slots p xs \<Longrightarrow> p \<le> length slots"
  by (cases xs) auto

lemma ar_map_update: "ar_map (ar\<lparr>ar_slots := (ar_slots ar)[x := sl], ar_next := n\<rparr>) =
  (if x < length (ar_slots ar) then (ar_map ar)(x := cell_owned (sl_value sl)) else ar_map ar)"
  by (auto simp: ar_map_def fun_eq_iff nth_list_update)

lemma ar_map_set: "x < length (ar_slots ar) \<Longrightarrow>
    ar_map (ar\<lparr>ar_slots := (ar_slots ar)[x := sl]\<rparr>) = (ar_map ar)(x := cell_owned (sl_value sl))"
  by (auto simp: ar_map_def fun_eq_iff nth_list_update)

section \<open>A reference allocator\<close>

text \<open>
  A finite map from indices to values with a stack of the indices that were vacated: \<open>insert\<close> takes the
  index vacated last, or the next new one. An operation on a vacant index has no result.
\<close>

record 'a allocator =
  al_map :: "nat \<Rightarrow> 'a option"
  al_free :: "nat list"
  al_size :: nat

definition al_new :: "'a allocator" where
  "al_new = \<lparr>al_map = (\<lambda>_. None), al_free = [], al_size = 0\<rparr>"

datatype 'a arena_op = Ar_Insert 'a | Ar_Remove nat | Ar_Get nat | Ar_Set nat 'a

datatype 'a arena_result = Ar_Index nat | Ar_Value 'a | Ar_Unit

fun al_step :: "'a arena_op \<Rightarrow> 'a allocator \<Rightarrow> ('a arena_result \<times> 'a allocator) option" where
  "al_step (Ar_Insert v) al =
     (case al_free al of
        [] \<Rightarrow> Some (Ar_Index (al_size al), al\<lparr>al_map := (al_map al)(al_size al \<mapsto> v), al_size := Suc (al_size al)\<rparr>)
      | x # xs \<Rightarrow> Some (Ar_Index x, al\<lparr>al_map := (al_map al)(x \<mapsto> v), al_free := xs\<rparr>))"
| "al_step (Ar_Remove i) al =
     (case al_map al i of
        None \<Rightarrow> None
      | Some v \<Rightarrow> Some (Ar_Value v, al\<lparr>al_map := (al_map al)(i := None), al_free := i # al_free al\<rparr>))"
| "al_step (Ar_Get i) al = map_option (\<lambda>v. (Ar_Value v, al)) (al_map al i)"
| "al_step (Ar_Set i v) al = map_option (\<lambda>_. (Ar_Unit, al\<lparr>al_map := (al_map al)(i \<mapsto> v)\<rparr>)) (al_map al i)"

fun ar_step :: "bool \<Rightarrow> bool \<Rightarrow> 'a arena_op \<Rightarrow> 'a arena \<Rightarrow> ('a arena_result \<times> 'a arena) res" where
  "ar_step copy debug (Ar_Insert v) ar = bind_res (ar_insert debug v ar) (\<lambda>(i, ar'). Inr (Ar_Index i, ar'))"
| "ar_step copy debug (Ar_Remove i) ar = bind_res (ar_remove copy debug i ar) (\<lambda>(v, ar'). Inr (Ar_Value v, ar'))"
| "ar_step copy debug (Ar_Get i) ar = bind_res (ar_get copy i ar) (\<lambda>v. Inr (Ar_Value v, ar))"
| "ar_step copy debug (Ar_Set i v) ar = bind_res (ar_get_mut copy i v ar) (\<lambda>ar'. Inr (Ar_Unit, ar'))"

fun al_run :: "'a arena_op list \<Rightarrow> 'a allocator \<Rightarrow> ('a arena_result list \<times> 'a allocator) option" where
  "al_run [] al = Some ([], al)"
| "al_run (op # ops) al =
     (case al_step op al of
        None \<Rightarrow> None
      | Some (r, al') \<Rightarrow> map_option (\<lambda>(rs, al''). (r # rs, al'')) (al_run ops al'))"

fun ar_run :: "bool \<Rightarrow> bool \<Rightarrow> 'a arena_op list \<Rightarrow> 'a arena \<Rightarrow> ('a arena_result list \<times> 'a arena) res" where
  "ar_run copy debug [] ar = Inr ([], ar)"
| "ar_run copy debug (op # ops) ar =
     bind_res (ar_step copy debug op ar) (\<lambda>(r, ar'). bind_res (ar_run copy debug ops ar') (\<lambda>(rs, ar''). Inr (r # rs, ar'')))"

text \<open>
  The arena represents an allocator, with room for \<open>n\<close> more slots below the sentinel. The \<open>next\<close> of an
  occupied slot is 0 or the sentinel.
\<close>

definition ar_rel :: "nat \<Rightarrow> 'a arena \<Rightarrow> 'a allocator \<Rightarrow> bool" where
  "ar_rel n ar al \<longleftrightarrow> al_map al = ar_map ar \<and> al_size al = length (ar_slots ar) \<and>
     length (ar_slots ar) + n < usize_max \<and> distinct (al_free al) \<and>
     ar_chain (ar_slots ar) (ar_next ar) (al_free al) \<and>
     (\<forall>i < al_size al. i \<in> set (al_free al) \<longleftrightarrow> al_map al i = None) \<and>
     (\<forall>i v. ar_map ar i = Some v \<longrightarrow> sl_next (ar_slots ar ! i) \<in> {0, usize_max})"

lemma ar_new_rel: "n < usize_max \<Longrightarrow> ar_rel n ar_new al_new"
  by (simp add: ar_rel_def ar_new_def al_new_def ar_map_def fun_eq_iff)

lemma ar_rel_next: "ar_rel n ar al \<Longrightarrow> ar_next ar < usize_max"
  by (auto simp: ar_rel_def dest: ar_chain_start)

lemma ar_map_bound: "ar_map ar i = Some v \<Longrightarrow> i < length (ar_slots ar) \<and> sl_value (ar_slots ar ! i) = Init v"
  by (auto simp: ar_map_def cell_owned_iff split: if_splits)

lemma ar_insert_rel:
  assumes rel: "ar_rel (Suc n) ar al"
  obtains i ar' al' where "ar_insert debug v ar = Inr (i, ar')" "al_step (Ar_Insert v) al = Some (Ar_Index i, al')"
    "ar_rel n ar' al'" "ar_map ar i = None"
proof -
  let ?slots = "ar_slots ar" and ?p = "ar_next ar"
  have r: "al_map al = ar_map ar" "al_size al = length ?slots" "length ?slots + Suc n < usize_max"
    "distinct (al_free al)" "ar_chain ?slots ?p (al_free al)"
    and free: "\<And>i. i < length ?slots \<Longrightarrow> i \<in> set (al_free al) \<longleftrightarrow> ar_map ar i = None"
    and occ: "\<And>i v. ar_map ar i = Some v \<Longrightarrow> sl_next (?slots ! i) = 0 \<or> sl_next (?slots ! i) = usize_max"
    using rel by (auto simp: ar_rel_def)
  show thesis
  proof (cases "al_free al")
    case Nil
    let ?ar = "ar\<lparr>ar_slots := ?slots @ [\<lparr>sl_value = Init v, sl_next = 0\<rparr>], ar_next := Suc (length ?slots)\<rparr>"
    let ?al = "al\<lparr>al_map := (al_map al)(al_size al \<mapsto> v), al_size := Suc (al_size al)\<rparr>"
    have map: "ar_map ?ar = (ar_map ar)(length ?slots \<mapsto> v)" by (auto simp: ar_map_def fun_eq_iff nth_append)
    have "i \<in> set [] \<longleftrightarrow> ar_map ?ar i = None" if "i < Suc (length ?slots)" for i
      using free[of i] that Nil unfolding map by (auto simp: less_Suc_eq)
    moreover have "sl_next (ar_slots ?ar ! i) \<in> {0, usize_max}" if "ar_map ?ar i = Some w" for i w
      using occ[of i] ar_map_bound[of ar i] that unfolding map by (auto simp: nth_append split: if_splits)
    ultimately have "ar_rel n ?ar ?al" using r Nil map by (simp add: ar_rel_def)
    with r Nil show thesis by (intro that[of ?p ?ar ?al]) (auto simp: ar_insert_def Let_def ar_map_def)
  next
    case (Cons x xs)
    let ?sl = "(slot_make_occupied (?slots ! x))\<lparr>sl_value := Init v\<rparr>"
    let ?ar = "ar\<lparr>ar_slots := ?slots[x := ?sl], ar_next := sl_next (?slots ! x)\<rparr>"
    let ?al = "al\<lparr>al_map := (al_map al)(x \<mapsto> v), al_free := xs\<rparr>"
    have x: "?p = x" "x < length ?slots" "ar_chain ?slots (sl_next (?slots ! x)) xs" "x \<notin> set xs" "distinct xs"
      using r Cons by auto
    have "sl_next (?slots ! x) < usize_max" using ar_chain_start[OF x(3)] r(3) by simp
    then have "ar_insert debug v ar = Inr (x, ?ar)" using x by (simp add: ar_insert_def slot_vacant_def Let_def)
    moreover have map: "ar_map ?ar = (ar_map ar)(x \<mapsto> v)" using x(2) by (simp add: ar_map_update)
    moreover have "i \<in> set xs \<longleftrightarrow> ar_map ?ar i = None" if "i < length ?slots" for i
      using free[OF that] x(4) Cons unfolding map by auto
    moreover have "sl_next (ar_slots ?ar ! i) \<in> {0, usize_max}" if "ar_map ?ar i = Some w" for i w
      using occ[of i] x(2) that unfolding map by (auto simp: slot_make_occupied_def nth_list_update split: if_splits)
    ultimately have "ar_insert debug v ar = Inr (x, ?ar)" "ar_rel n ?ar ?al"
      using r x map by (simp_all add: ar_rel_def ar_chain_update)
    moreover have "ar_map ar x = None" using free[OF x(2)] Cons by simp
    ultimately show thesis using Cons by (intro that[of x ?ar ?al]) simp_all
  qed
qed

lemma ar_remove_rel:
  assumes rel: "ar_rel n ar al" and v: "ar_map ar i = Some v"
  obtains ar' al' where "ar_remove copy debug i ar = Inr (v, ar')" "al_step (Ar_Remove i) al = Some (Ar_Value v, al')" "ar_rel n ar' al'"
proof -
  let ?slots = "ar_slots ar"
  have i: "i < length ?slots" "sl_value (?slots ! i) = Init v" using ar_map_bound[OF v] by auto
  let ?sl = "(?slots ! i)\<lparr>sl_next := ar_next ar, sl_value := Stale v\<rparr>"
  let ?ar = "ar\<lparr>ar_slots := ?slots[i := ?sl], ar_next := i\<rparr>"
  let ?al = "al\<lparr>al_map := (al_map al)(i := None), al_free := i # al_free al\<rparr>"
  have fresh: "i \<notin> set (al_free al)" using rel i v by (auto simp: ar_rel_def)
  have "ar_remove copy debug i ar = Inr (v, ?ar)"
    using i ar_rel_next[OF rel] by (simp add: ar_remove_def ar_slot_def slot_occupied_read_def)
  moreover have "al_step (Ar_Remove i) al = Some (Ar_Value v, ?al)" using rel v by (simp add: ar_rel_def)
  moreover have "ar_map ?ar = (ar_map ar)(i := None)" using i by (simp add: ar_map_update)
  then have "ar_rel n ?ar ?al" using rel i fresh by (auto simp: ar_rel_def ar_chain_update)
  ultimately show thesis using that by blast
qed

lemma ar_vacant:
  assumes "ar_map ar i = None"
  shows "\<exists>e. ar_remove False debug i ar = Inl e" "\<exists>e. ar_get False i ar = Inl e" "\<exists>e. ar_get_mut False i v ar = Inl e"
  using assms by (auto simp: ar_map_def ar_remove_def ar_get_def ar_get_mut_def ar_slot_def slot_occupied_read_def
      slot_occupied_ref_def slot_occupied_mut_def cell_owned_iff split: if_splits)

text \<open>No access to bits that may be used again is undefined.\<close>

lemma ar_step_defined: "ar_step True debug op ar \<noteq> Inl Undefined_behaviour"
proof -
  have use: "cell_use True c = Inl Undefined_behaviour \<longleftrightarrow> False" for c :: "'a cell" by (cases c) simp_all
  show ?thesis
    by (cases op) (auto simp: ar_insert_def ar_remove_def ar_get_def ar_get_mut_def ar_slot_def slot_vacant_def
        slot_occupied_read_def slot_occupied_ref_def slot_occupied_mut_def Let_def use bind_res_Inl_conv split: if_splits)
qed

lemma ar_run_defined: "ar_run True debug ops ar \<noteq> Inl Undefined_behaviour"
  by (induction ops arbitrary: ar) (auto simp: bind_res_Inl_conv ar_step_defined)

lemma ar_step_rel:
  assumes rel: "ar_rel (Suc n) ar al"
  shows "case al_step op al of
      None \<Rightarrow> \<not> copy \<longrightarrow> (\<exists>e. ar_step copy debug op ar = Inl e)
    | Some (r, al') \<Rightarrow> \<exists>ar'. ar_step copy debug op ar = Inr (r, ar') \<and> ar_rel n ar' al'"
proof -
  have map: "al_map al = ar_map ar" and weak: "ar_rel n ar al" using rel by (auto simp: ar_rel_def)
  show ?thesis
  proof (cases op)
    case (Ar_Insert v)
    obtain i ar' al' where "ar_insert debug v ar = Inr (i, ar')" "al_step (Ar_Insert v) al = Some (Ar_Index i, al')"
      "ar_rel n ar' al'" by (rule ar_insert_rel[OF rel, of debug v]) blast
    with Ar_Insert show ?thesis by simp
  next
    case (Ar_Remove i)
    show ?thesis
    proof (cases "ar_map ar i")
      case None
      with Ar_Remove map ar_vacant(1)[of ar i debug] show ?thesis by auto
    next
      case (Some v)
      obtain ar' al' where "ar_remove copy debug i ar = Inr (v, ar')" "al_step (Ar_Remove i) al = Some (Ar_Value v, al')"
        "ar_rel n ar' al'" by (rule ar_remove_rel[OF weak Some])
      with Ar_Remove show ?thesis by simp
    qed
  next
    case (Ar_Get i)
    show ?thesis
    proof (cases "ar_map ar i")
      case None
      with Ar_Get map ar_vacant(2)[of ar i] show ?thesis by auto
    next
      case (Some v)
      with Ar_Get map weak ar_map_bound[OF Some] show ?thesis
        by (simp add: ar_get_def ar_slot_def slot_occupied_ref_def)
    qed
  next
    case (Ar_Set i w)
    show ?thesis
    proof (cases "ar_map ar i")
      case None
      with Ar_Set map ar_vacant(3)[of ar i w] show ?thesis by auto
    next
      case (Some v)
      let ?ar = "ar\<lparr>ar_slots := (ar_slots ar)[i := (ar_slots ar ! i)\<lparr>sl_value := Init w\<rparr>]\<rparr>"
      have i: "i < length (ar_slots ar)" "sl_value (ar_slots ar ! i) = Init v" using ar_map_bound[OF Some] by auto
      have fresh: "i \<notin> set (al_free al)" using rel i Some by (auto simp: ar_rel_def)
      have "ar_map ?ar = (ar_map ar)(i \<mapsto> w)" using i by (simp add: ar_map_set)
      then have "ar_rel n ?ar (al\<lparr>al_map := (al_map al)(i \<mapsto> w)\<rparr>)"
        using weak i fresh by (auto simp: ar_rel_def ar_chain_update)
      moreover have "ar_get_mut copy i w ar = Inr ?ar" using i by (simp add: ar_get_mut_def ar_slot_def slot_occupied_mut_def)
      ultimately show ?thesis using Ar_Set map Some by simp
    qed
  qed
qed

lemma ar_run_rel:
  "ar_rel (length ops + n) ar al \<Longrightarrow> (case al_run ops al of
      None \<Rightarrow> \<not> copy \<longrightarrow> (\<exists>e. ar_run copy debug ops ar = Inl e)
    | Some (rs, al') \<Rightarrow> \<exists>ar'. ar_run copy debug ops ar = Inr (rs, ar') \<and> ar_rel n ar' al')"
proof (induction ops arbitrary: ar al)
  case Nil
  then show ?case by simp
next
  case (Cons op ops)
  then have step: "case al_step op al of
      None \<Rightarrow> \<not> copy \<longrightarrow> (\<exists>e. ar_step copy debug op ar = Inl e)
    | Some (r, al') \<Rightarrow> \<exists>ar'. ar_step copy debug op ar = Inr (r, ar') \<and> ar_rel (length ops + n) ar' al'"
    by (intro ar_step_rel) simp
  show ?case
  proof (cases "al_step op al")
    case None
    with step show ?thesis by auto
  next
    case (Some p)
    then obtain r al1 ar1 where one: "al_step op al = Some (r, al1)" "ar_step copy debug op ar = Inr (r, ar1)"
      "ar_rel (length ops + n) ar1 al1" using step by (cases p) auto
    with Cons.IH[OF one(3)] show ?thesis by (cases "al_run ops al1") auto
  qed
qed

section \<open>Properties\<close>

text \<open>A run that does not fail and, for a type that is \<open>Copy\<close>, uses no vacant index.\<close>

lemma ar_run_allocator:
  assumes "ar_run copy debug ops ar_new = Inr (rs, ar)" and "copy \<Longrightarrow> al_run ops al_new \<noteq> None"
    and "length ops + n < usize_max"
  obtains al where "ar_rel n ar al"
proof -
  have "ar_rel (length ops + n) ar_new al_new" using assms(3) by (intro ar_new_rel) simp
  from ar_run_rel[OF this, of copy debug] assms(1,2) show thesis
    by (cases "al_run ops al_new"; cases copy) (auto intro: that)
qed

text \<open>
  Claim C29. A run of inserts, removes, reads and writes on a new arena that uses only occupied indices is
  the run on the reference allocator: it returns the same indices and values and ends with the same values
  at the same indices. A run that uses a vacant index fails, unless the type is \<open>Copy\<close>; then nothing is
  undefined, because the bits that the slot still holds may be used.
\<close>

theorem arena_run_is_allocator_run:
  assumes "length ops < usize_max"
  shows "case al_run ops al_new of
      None \<Rightarrow> if copy then ar_run copy debug ops ar_new \<noteq> Inl Undefined_behaviour
        else \<exists>e. ar_run copy debug ops ar_new = Inl e
    | Some (rs, al) \<Rightarrow> \<exists>ar. ar_run copy debug ops ar_new = Inr (rs, ar) \<and> ar_map ar = al_map al"
proof -
  have "ar_rel (length ops + 0) ar_new al_new" using assms by (intro ar_new_rel) simp
  from ar_run_rel[OF this, of copy debug] show ?thesis
    using ar_run_defined[of debug ops ar_new] by (auto simp: ar_rel_def split: option.splits)
qed

theorem arena_run_is_allocator_run_witness:
  "\<exists>ar. ar_run False True [Ar_Insert 10, Ar_Insert 20, Ar_Remove 0, Ar_Insert 30, Ar_Get 1] ar_new =
    Inr ([Ar_Index 0, Ar_Index 1, Ar_Value (10 :: nat), Ar_Index 0, Ar_Value 20], ar)"
  using arena_run_is_allocator_run[of "[Ar_Insert 10, Ar_Insert 20, Ar_Remove 0, Ar_Insert 30, Ar_Get 1]" False True]
  by (auto simp: al_new_def usize_max_def)

text \<open>
  Claim C33. After any run that returns, and for a type that is \<open>Copy\<close> has used only occupied indices,
  \<open>insert\<close> returns an index that is not in use and changes no other value; \<open>get\<close> then returns the value,
  and \<open>remove\<close> gives it back and restores what the arena held.
\<close>

theorem arena_insert_roundtrip:
  assumes "ar_run copy debug ops ar_new = Inr (rs, ar)" and "copy \<Longrightarrow> al_run ops al_new \<noteq> None"
    and "length ops + 2 < usize_max"
  shows "\<exists>i ar' ar''. ar_insert debug v ar = Inr (i, ar') \<and> ar_map ar i = None \<and> ar_map ar' = (ar_map ar)(i \<mapsto> v) \<and>
    ar_get copy i ar' = Inr v \<and> ar_remove copy debug i ar' = Inr (v, ar'') \<and> ar_map ar'' = ar_map ar"
proof -
  obtain al where "ar_rel 2 ar al" by (rule ar_run_allocator[OF assms])
  then have al: "ar_rel (Suc 1) ar al" by (simp add: numeral_2_eq_2)
  obtain i ar' al' where ins: "ar_insert debug v ar = Inr (i, ar')" "al_step (Ar_Insert v) al = Some (Ar_Index i, al')"
    "ar_rel 1 ar' al'" "ar_map ar i = None" by (rule ar_insert_rel[OF al])
  have map: "ar_map ar' = (ar_map ar)(i \<mapsto> v)"
    using ins(2,3) al by (auto simp: ar_rel_def split: list.splits)
  then have here: "ar_map ar' i = Some v" by simp
  obtain ar'' al'' where rem: "ar_remove copy debug i ar' = Inr (v, ar'')" "al_step (Ar_Remove i) al' = Some (Ar_Value v, al'')"
    "ar_rel 1 ar'' al''" by (rule ar_remove_rel[OF ins(3) here])
  have "ar_map ar'' = (ar_map ar')(i := None)" using rem(2,3) ins(3) here by (auto simp: ar_rel_def)
  then have "ar_map ar'' = ar_map ar" using map ins(4) by (auto simp: fun_eq_iff)
  moreover have "ar_get copy i ar' = Inr v"
    using ar_map_bound[OF here] by (simp add: ar_get_def ar_slot_def slot_occupied_ref_def)
  ultimately show ?thesis using ins map rem by blast
qed

theorem arena_insert_roundtrip_witness:
  "\<exists>i ar. ar_insert True (7 :: nat) ar_new = Inr (i, ar) \<and> ar_get False i ar = Inr 7"
  using arena_insert_roundtrip[of False True "[]" "[]" ar_new 7] by (auto simp: usize_max_def)

text \<open>
  Claim C34. \<open>Arena::drop\<close> of an occupied index. The \<open>next\<close> of an occupied slot is 0 after a push and the
  sentinel after a reuse, and \<open>drop\<close> makes it the head of the list of vacant slots. With debug assertions
  the sentinel stops the call; otherwise, for a type that is not \<open>Copy\<close>, the value is read after it was
  dropped. For a type that is \<open>Copy\<close> the call returns the value, but the next \<open>insert\<close> does not reuse the
  index: after a push it writes to slot 0, whatever is there, unless an assertion finds slot 0 reused; after
  a reuse it returns the sentinel as its index and writes the value to a new slot elsewhere.
\<close>

theorem arena_drop_breaks_vacant_list:
  assumes "ar_run copy debug ops ar_new = Inr (rs, ar)" and "copy \<Longrightarrow> al_run ops al_new \<noteq> None"
    and "length ops < usize_max" and "ar_map ar idx = Some v"
  shows "\<exists>next \<in> {0, usize_max}. sl_next (ar_slots ar ! idx) = next \<and>
    (if debug \<and> next = usize_max then ar_drop copy debug idx ar = Inl Debug_assert
     else if \<not> copy then ar_drop copy debug idx ar = Inl Undefined_behaviour
     else \<exists>ar'. ar_drop copy debug idx ar = Inr (v, ar') \<and> ar_map ar' = (ar_map ar)(idx := None) \<and>
       (\<forall>w. if debug \<and> sl_next (ar_slots ar ! 0) = usize_max then ar_insert debug w ar' = Inl Debug_assert
         else \<exists>ar''. ar_insert debug w ar' = Inr (next, ar'') \<and>
           ar_map ar'' = (ar_map ar')((if next = 0 then 0 else length (ar_slots ar)) \<mapsto> w)))"
proof -
  let ?next = "sl_next (ar_slots ar ! idx)" and ?slots = "ar_slots ar"
  obtain al where rel: "ar_rel 0 ar al" by (rule ar_run_allocator[OF assms(1,2), of 0]) (use assms(3) in simp_all)
  have idx: "idx < length ?slots" "sl_value (?slots ! idx) = Init v" using ar_map_bound[OF assms(4)] by auto
  have nx: "?next \<in> {0, usize_max}" and len: "length ?slots < usize_max" "0 < length ?slots"
    using rel assms(4) idx by (auto simp: ar_rel_def)
  have below: "ar_next ar < usize_max" by (rule ar_rel_next[OF rel])
  show ?thesis
  proof (cases "debug \<and> ?next = usize_max \<or> \<not> copy")
    case True
    with idx nx below show ?thesis
      by (intro bexI[of _ ?next]) (auto simp: ar_drop_def ar_slot_def slot_vacant_def slot_occupied_drop_def
          slot_occupied_read_def)
  next
    case False
    let ?ar = "ar\<lparr>ar_slots := ?slots[idx := (?slots ! idx)\<lparr>sl_value := Stale v\<rparr>], ar_next := ?next\<rparr>"
    have drop: "ar_drop copy debug idx ar = Inr (v, ?ar)"
      using False idx below by (auto simp: ar_drop_def ar_slot_def slot_vacant_def slot_occupied_drop_def
          slot_occupied_read_def)
    have map: "ar_map ?ar = (ar_map ar)(idx := None)" using idx by (simp add: ar_map_update)
    have ins: "if debug \<and> sl_next (?slots ! 0) = usize_max then ar_insert debug w ?ar = Inl Debug_assert
      else \<exists>ar''. ar_insert debug w ?ar = Inr (?next, ar'') \<and>
        ar_map ar'' = (ar_map ?ar)((if ?next = 0 then 0 else length ?slots) \<mapsto> w)" for w
      using False nx len idx
      by (auto simp: ar_insert_def slot_vacant_def Let_def nth_list_update ar_map_def nth_append fun_eq_iff
          slot_make_occupied_def split: if_splits)
    have "\<exists>ar'. ar_drop copy debug idx ar = Inr (v, ar') \<and> ar_map ar' = (ar_map ar)(idx := None) \<and>
        (\<forall>w. if debug \<and> sl_next (?slots ! 0) = usize_max then ar_insert debug w ar' = Inl Debug_assert
          else \<exists>ar''. ar_insert debug w ar' = Inr (?next, ar'') \<and>
            ar_map ar'' = (ar_map ar')((if ?next = 0 then 0 else length ?slots) \<mapsto> w))"
      by (intro exI[of _ ?ar] conjI allI drop map ins)
    moreover have "\<not> (debug \<and> ?next = usize_max)" "copy" using False by auto
    ultimately show ?thesis by (intro bexI[OF _ nx] conjI refl) (simp only: if_False not_True_eq_False)
  qed
qed

text \<open>Two values are pushed and the second is dropped: the next insert overwrites the first.\<close>

theorem arena_drop_breaks_vacant_list_witness:
  "\<exists>ar ar' ar''. ar_run True True [Ar_Insert 10, Ar_Insert (20 :: nat)] ar_new = Inr ([Ar_Index 0, Ar_Index 1], ar) \<and>
    ar_map ar 0 = Some 10 \<and> ar_drop True True 1 ar = Inr (20, ar') \<and> ar_map ar' 0 = Some 10 \<and>
    ar_insert True 30 ar' = Inr (0, ar'') \<and> ar_map ar'' 0 = Some 30"
proof -
  let ?ar = "\<lparr>ar_slots = [\<lparr>sl_value = Init 10, sl_next = 0\<rparr>, \<lparr>sl_value = Init (20 :: nat), sl_next = 0\<rparr>], ar_next = 2\<rparr>"
  have run: "ar_run True True [Ar_Insert 10, Ar_Insert 20] ar_new = Inr ([Ar_Index 0, Ar_Index 1], ?ar)"
    by (simp add: ar_insert_def ar_new_def Let_def)
  have map: "ar_map ?ar 0 = Some 10" "ar_map ?ar 1 = Some 20" by (simp_all add: ar_map_def)
  have nx: "sl_next (ar_slots ?ar ! 0) = 0" "sl_next (ar_slots ?ar ! 1) = 0" by simp_all
  obtain ar' where drop: "ar_drop True True 1 ?ar = Inr (20, ar')" "ar_map ar' = (ar_map ?ar)(1 := None)"
    and ins: "\<exists>ar''. ar_insert True 30 ar' = Inr (0, ar'') \<and> ar_map ar'' = (ar_map ar')(0 \<mapsto> 30)"
    using arena_drop_breaks_vacant_list[OF run _ _ map(2)] nx by (auto simp: usize_max_def al_new_def)
  have "ar_map ar' 0 = Some 10" using drop(2) map(1) by simp
  moreover obtain ar'' where "ar_insert True 30 ar' = Inr (0, ar'')" "ar_map ar'' 0 = Some 30"
    using ins by (metis fun_upd_same)
  ultimately show ?thesis using run map(1) drop(1) by blast
qed

text \<open>
  No operation checks that an index is in use. After \<open>remove\<close> of an index, \<open>get\<close>, \<open>get_mut\<close> and a second
  \<open>remove\<close> of it use the bits that were moved out. For a type that is \<open>Copy\<close> they succeed, and the second
  \<open>remove\<close> links the slot to itself: an insert takes it, and the insert after that fails an assertion or
  returns the same index again, so that the first of the two values is lost.
\<close>

theorem arena_second_remove:
  assumes "ar_remove copy debug i ar = Inr (v, ar1)" and "i < usize_max"
  shows "if \<not> copy then ar_get copy i ar1 = Inl Undefined_behaviour \<and> ar_get_mut copy i w ar1 = Inl Undefined_behaviour \<and>
      ar_remove copy debug i ar1 = Inl Undefined_behaviour
    else ar_get copy i ar1 = Inr v \<and> (\<exists>ar2 ar3. ar_remove copy debug i ar1 = Inr (v, ar2) \<and> ar_insert debug a ar2 = Inr (i, ar3) \<and>
      (if debug then ar_insert debug b ar3 = Inl Debug_assert
       else \<exists>ar4. ar_insert debug b ar3 = Inr (i, ar4) \<and> ar_get copy i ar4 = Inr b))"
proof -
  have i: "i < length (ar_slots ar)" and ar1: "ar_next ar1 = i" "length (ar_slots ar1) = length (ar_slots ar)"
      "sl_value (ar_slots ar1 ! i) = Stale v"
    using assms(1) by (auto simp: ar_remove_def ar_slot_def slot_occupied_read_def bind_res_Inr_conv split: if_splits)
  show ?thesis
  proof (cases copy)
    case False
    with i ar1 assms(2) show ?thesis
      by (simp add: ar_remove_def ar_get_def ar_get_mut_def ar_slot_def slot_occupied_read_def slot_occupied_ref_def
          slot_occupied_mut_def)
  next
    case True
    let ?slots = "ar_slots ar1"
    let ?ar2 = "ar1\<lparr>ar_slots := ?slots[i := (?slots ! i)\<lparr>sl_next := i, sl_value := Stale v\<rparr>], ar_next := i\<rparr>"
    let ?ar3 = "ar1\<lparr>ar_slots := ?slots[i := (?slots ! i)\<lparr>sl_next := usize_max, sl_value := Init a\<rparr>], ar_next := i\<rparr>"
    have "ar_remove copy debug i ar1 = Inr (v, ?ar2)"
      using True i ar1 assms(2) by (simp add: ar_remove_def ar_slot_def slot_occupied_read_def)
    moreover have "ar_insert debug a ?ar2 = Inr (i, ?ar3)"
      using i ar1 assms(2) by (simp add: ar_insert_def slot_vacant_def slot_make_occupied_def)
    moreover have "if debug then ar_insert debug b ?ar3 = Inl Debug_assert
        else \<exists>ar4. ar_insert debug b ?ar3 = Inr (i, ar4) \<and> ar_get copy i ar4 = Inr b"
      using i ar1 by (simp add: ar_insert_def slot_vacant_def slot_make_occupied_def ar_get_def ar_slot_def
          slot_occupied_ref_def)
    moreover have "ar_get copy i ar1 = Inr v"
      using True i ar1 by (simp add: ar_get_def ar_slot_def slot_occupied_ref_def)
    ultimately show ?thesis using True by auto
  qed
qed

theorem arena_second_remove_witness:
  "\<exists>ar1 ar2 ar3 ar4. ar_remove True False 0 \<lparr>ar_slots = [\<lparr>sl_value = Init (5 :: nat), sl_next = 0\<rparr>], ar_next = 1\<rparr> = Inr (5, ar1) \<and>
    ar_remove True False 0 ar1 = Inr (5, ar2) \<and> ar_insert False 6 ar2 = Inr (0, ar3) \<and> ar_insert False 7 ar3 = Inr (0, ar4) \<and>
    ar_get True 0 ar4 = Inr 7"
proof -
  have "ar_remove True False 0 \<lparr>ar_slots = [\<lparr>sl_value = Init (5 :: nat), sl_next = 0\<rparr>], ar_next = 1\<rparr> =
      Inr (5, \<lparr>ar_slots = [\<lparr>sl_value = Stale 5, sl_next = 1\<rparr>], ar_next = 0\<rparr>)"
    by (simp add: ar_remove_def ar_slot_def slot_occupied_read_def)
  with arena_second_remove[OF this, of _ 6 7] show ?thesis by (auto simp: usize_max_def)
qed

end
