(* ===== verification/Sync.thy ===== *)
theory Sync
  imports Ring_Buffer
begin

text \<open>
  \<open>src/src/sync.rs\<close>: accesses to an atomic or a cell that the caller has for itself. They are plain functions
  of the value: an \<open>AtomicU64\<close> behind a mutable reference is its number, and an
  \<open>UnsafeCell<MaybeUninit<T>>\<close> a value that may be absent. At the end are the same functions of
  \<open>src/src/sync_loom.rs\<close>, over the cells of the crate \<open>loom\<close>.
\<close>

definition with_atomic :: "(u64 \<Rightarrow> 't \<times> u64) \<Rightarrow> u64 \<Rightarrow> 't \<times> u64" where
  "with_atomic f a = f a"

definition read_atomic :: "u64 \<Rightarrow> u64" where
  "read_atomic a = a"

definition write_atomic :: "u64 \<Rightarrow> u64 \<Rightarrow> u64" where
  "write_atomic v a = v"

text \<open>The assignment drops the old value; the new one is there also when that panics.\<close>

definition sync_write_cell :: "('a \<Rightarrow> bool) \<Rightarrow> 'a \<Rightarrow> 'a \<Rightarrow> 'a \<times> 'a list \<times> unwinding" where
  "sync_write_cell dp value old = (value, drop_in_place dp Normal [old])"

text \<open>\<open>assume_init_read\<close> leaves the cell as it is.\<close>

definition read_init_cell :: "'a option \<Rightarrow> 'a res" where
  "read_init_cell cell = (case cell of None \<Rightarrow> Inl Undefined_behaviour | Some x \<Rightarrow> Inr x)"

lemma with_atomic_instances:
  "read_atomic a = fst (with_atomic (\<lambda>v. (v, v)) a)" "write_atomic v a = snd (with_atomic (\<lambda>_. ((), v)) a)"
  by (simp_all add: read_atomic_def write_atomic_def with_atomic_def)

lemma sync_write_cell_drops_old:
  "fst (snd (sync_write_cell dp value old)) = [old] \<and> (snd (snd (sync_write_cell dp value old)) = Normal \<longleftrightarrow> \<not> dp old)"
  by (auto simp: sync_write_cell_def)

section \<open>Over loom\<close>

text \<open>
  The crate \<open>loom\<close> is not part of the repository. What \<open>sync_loom.rs\<close> calls of it are parameters: \<open>with_mut\<close>
  of its \<open>AtomicU64\<close>, which passes the closure a mutable reference to the number, and for its \<open>UnsafeCell\<close>
  what \<open>*get_mut().deref()\<close> reads and what an assignment to it leaves.
\<close>

definition loom_with_atomic :: "((u64 \<Rightarrow> 't \<times> u64) \<Rightarrow> 'c \<Rightarrow> 't \<times> 'c) \<Rightarrow> (u64 \<Rightarrow> 't \<times> u64) \<Rightarrow> 'c \<Rightarrow> 't \<times> 'c" where
  "loom_with_atomic with_mut f a = with_mut f a"

definition loom_read_atomic :: "((u64 \<Rightarrow> u64 \<times> u64) \<Rightarrow> 'c \<Rightarrow> u64 \<times> 'c) \<Rightarrow> 'c \<Rightarrow> u64 \<times> 'c" where
  "loom_read_atomic with_mut a = with_mut (\<lambda>v. (v, v)) a"

definition loom_write_atomic :: "((u64 \<Rightarrow> unit \<times> u64) \<Rightarrow> 'c \<Rightarrow> unit \<times> 'c) \<Rightarrow> 'c \<Rightarrow> u64 \<Rightarrow> unit \<times> 'c" where
  "loom_write_atomic with_mut a v = with_mut (\<lambda>_. ((), v)) a"

definition loom_write_cell :: "('c \<Rightarrow> 'a) \<Rightarrow> ('a \<Rightarrow> 'c \<Rightarrow> 'c) \<Rightarrow> ('a \<Rightarrow> bool) \<Rightarrow> 'c \<Rightarrow> 'a \<Rightarrow> 'c \<times> 'a list \<times> unwinding" where
  "loom_write_cell deref assign dp a value = (assign value a, drop_in_place dp Normal [deref a])"

definition loom_read_init_cell :: "('c \<Rightarrow> 'a option) \<Rightarrow> 'c \<Rightarrow> 'a res" where
  "loom_read_init_cell deref a = (case deref a of None \<Rightarrow> Inl Undefined_behaviour | Some x \<Rightarrow> Inr x)"

text \<open>
  \<open>with_mut\<close> runs the closure on the number and keeps what it leaves (\<open>loom_runs\<close>), and a cell reads what was
  assigned last. Under both modules the rest of the crate then sees the same values.
\<close>

definition loom_runs :: "('c \<Rightarrow> u64) \<Rightarrow> ((u64 \<Rightarrow> 't \<times> u64) \<Rightarrow> 'c \<Rightarrow> 't \<times> 'c) \<Rightarrow> bool" where
  "loom_runs value with_mut \<longleftrightarrow> (\<forall>f a. fst (with_mut f a) = fst (f (value a)) \<and> value (snd (with_mut f a)) = snd (f (value a)))"

lemma loom_atomic_agrees:
  "loom_runs value with_mut \<Longrightarrow> map_prod id value (loom_with_atomic with_mut f a) = with_atomic f (value a)"
  "loom_runs value with_mut_u64 \<Longrightarrow> map_prod id value (loom_read_atomic with_mut_u64 a) = (read_atomic (value a), value a)"
  "loom_runs value with_mut_unit \<Longrightarrow> value (snd (loom_write_atomic with_mut_unit a v)) = write_atomic v (value a)"
  by (simp_all add: loom_runs_def loom_with_atomic_def loom_read_atomic_def loom_write_atomic_def with_atomic_def
      read_atomic_def write_atomic_def prod_eq_iff)

lemma loom_cell_agrees:
  assumes "\<And>v c. deref (assign v c) = v"
  shows "map_prod deref id (loom_write_cell deref assign dp a v) = sync_write_cell dp v (deref a)"
    and "loom_read_init_cell deref' a' = read_init_cell (deref' a')"
  using assms by (simp_all add: loom_write_cell_def sync_write_cell_def loom_read_init_cell_def read_init_cell_def)

end
