(* ===== verification/Cond_Var_Wake.thy ===== *)
theory Cond_Var_Wake
  imports Cond_Var_State "HOL-Library.Sublist"
begin

text \<open>
  What a waker of \<open>src/src/condvar.rs\<close> does while the other threads run: the nodes that it has taken off the word and has
  not made ready stay as they are, so it wakes all of them, and it returns after a number of accesses of its own that the
  other threads have no influence on.
\<close>

section \<open>The nodes of a waker\<close>

lemma cv_decide_frame:
  assumes "cv_decide blw addr i lp b cur sh = Inr (pc, sh')"
  shows "a \<noteq> addr \<Longrightarrow> cv_nodes sh' a = cv_nodes sh a" and "cv_unparks sh' = cv_unparks sh"
  using assms by (auto simp: cv_decide_def split: sum.splits cv_decision.splits if_splits)

text \<open>An access changes no waiting node but the one the thread makes ready, and unparks one thread at most.\<close>

lemma cv_next_keeps_waiting:
  assumes inv: "cv_inv s" and j: "j < length (cs_pcs s)"
    and step: "cv_next lfw blw addr j spurious (cs_pcs s ! j) (cs_shared s) = Inr (pc, sh)"
    and fresh: "cv_fresh addr (cv_leave (cs_pcs s ! j) (cs_shared s))"
    and wait: "cv_waiting (cv_nodes (cs_shared s)) (cs_pcs s) a" and free: "\<not> cv_taken (cv_nodes (cs_shared s)) (cs_pcs s ! j) a"
  shows "cv_nodes sh a = cv_nodes (cs_shared s) a"
proof -
  let ?m = "cv_nodes (cs_shared s)"
  obtain xs ws where own: "cv_owners ?m (cs_pcs s)" and li: "cv_lists ?m (cs_pcs s) xs ws" using inv by (rule cv_invE)
  have todo: "cv_todo ?m (cs_pcs s ! j) (ws j)" using li j by (simp add: cv_lists_def)
  obtain n where n: "?m a = Some n" "\<not> cn_ready n" "cv_parked (cs_pcs s ! cn_unpark n) a" using wait by (auto simp: cv_waiting_def)
  have mine: "a \<noteq> a'" if "cs_pcs s ! j = Cv_Enqueue lp b cur a'" for lp b cur a'
    using own j that n by (force simp: cv_owners_def)
  show ?thesis
  proof (cases "cs_pcs s ! j")
    case (Cv_Load lp b)
    with fresh n have "a \<noteq> addr" by (auto simp: cv_fresh_def cv_leave_def)
    with step Cv_Load cv_decide_frame(1) show ?thesis by simp
  next
    case (Cv_Cas lp b cur st)
    with fresh n have "a \<noteq> addr" by (auto simp: cv_fresh_def cv_leave_def)
    with step Cv_Cas show ?thesis by (auto split: prod.splits sum.splits dest!: cv_decide_frame(1))
  next
    case (Cv_Enqueue lp b cur a')
    with fresh n mine have "a \<noteq> addr" "a \<noteq> a'" by (auto simp: cv_fresh_def cv_leave_def cv_free_def split: if_splits)
    with step Cv_Enqueue show ?thesis by (auto simp: cv_free_def split: prod.splits sum.splits dest!: cv_decide_frame(1))
  next
    case (Cv_Parked lp b a')
    with step n show ?thesis by (auto simp: cv_free_def split: option.splits if_splits)
  next
    case (Cv_Ready p token nx r)
    then have "cv_taken ?m (cs_pcs s ! j) (ptr_addr p)" using todo unfolding cv_taken_def by (intro exI[of _ "ws j"]) auto
    with free have "a \<noteq> ptr_addr p" by blast
    with step Cv_Ready show ?thesis by (auto split: option.splits)
  qed (use step in \<open>auto simp: aps_swap_def split: option.splits if_splits\<close>)
qed

lemma cv_next_appends:
  "cv_next lfw blw addr j spurious pc sh = Inr (pc', sh') \<Longrightarrow> \<exists>us. cv_unparks sh' = cv_unparks sh @ us"
  by (cases pc) (auto simp: cv_free_def aps_swap_def split: prod.splits sum.splits option.splits if_splits
      dest!: cv_decide_frame(2))

lemma cv_step_appends: "cv_step lfw blw s t \<Longrightarrow> \<exists>us. cv_unparks (cs_shared t) = cv_unparks (cs_shared s) @ us"
proof (induction rule: cv_step.induct)
  case (cv_optimistic i s old new ok sh)
  then show ?case by (auto simp: cv_optimistic_update_def split: prod.splits)
next
  case (cv_runs i s addr spurious pc sh)
  then show ?case using cv_next_appends by simp
next
  case (cv_panics i s addr spurious e)
  then show ?case by (simp add: cv_leave_def cv_free_def split: option.splits)
qed simp_all

text \<open>A thread that wakes others.\<close>

fun cv_waker :: "u8 \<Rightarrow> cv_pc \<Rightarrow> bool" where
  "cv_waker r (Cv_Walk p r') = (r' = r)"
| "cv_waker r (Cv_Ready p token nx r') = (r' = r)"
| "cv_waker r (Cv_Unpark token nx r') = (r' = r)"
| "cv_waker r _ = False"

lemma cv_waker_moves:
  "cv_waker r pc \<Longrightarrow> cv_next lfw blw addr i spurious pc sh = Inr (pc', sh') \<Longrightarrow> pc' \<noteq> pc"
  by (cases pc) (auto split: option.splits if_splits)

lemma cv_waker_fails: "cv_waker r pc \<Longrightarrow> cv_next lfw blw addr i spurious pc sh = Inl e \<Longrightarrow> e = Undefined_behaviour"
  by (cases pc) (auto split: option.splits if_splits)

lemma cv_parked_defined: "cv_next lfw blw addr i spurious (Cv_Parked lp b a) sh = Inl e \<Longrightarrow> e = Undefined_behaviour"
  by (auto split: option.splits if_splits)

text \<open>While a waker stands still, the steps of the others leave the nodes that it has taken as they are.\<close>

lemma cv_step_taken:
  assumes step: "cv_step lfw blw s t" and inv: "cv_inv s" and i: "i < length (cs_pcs s)" and waker: "cv_waker r (cs_pcs s ! i)"
    and still: "cs_pcs t ! i = cs_pcs s ! i" and a: "cv_taken (cv_nodes (cs_shared s)) (cs_pcs s ! i) a"
  shows "cv_nodes (cs_shared t) a = cv_nodes (cs_shared s) a"
proof -
  let ?m = "cv_nodes (cs_shared s)"
  obtain xs ws where own: "cv_owners ?m (cs_pcs s)" and li: "cv_lists ?m (cs_pcs s) xs ws" using inv by (rule cv_invE)
  have wait: "cv_waiting ?m (cs_pcs s) a" using cv_listed(1)[OF li] i a by blast
  have other: "\<not> cv_taken ?m (cs_pcs s ! j) a" if "j < length (cs_pcs s)" "j \<noteq> i" for j
    using cv_listed(3)[OF li that(1) i _ a] that(2) by blast
  from step show ?thesis
  proof cases
    case (cv_optimistic j old new ok sh)
    with cv_optimistic_spec(1) show ?thesis by simp
  next
    case (cv_runs j addr spurious pc sh)
    then have "j \<noteq> i" using still waker cv_waker_moves i by fastforce
    with cv_runs cv_next_keeps_waiting[OF inv cv_runs(2,4,3) wait other] show ?thesis by simp
  next
    case (cv_panics j addr spurious e)
    have no: "cs_pcs s ! j \<noteq> Cv_Parked lp b a" for lp b using cv_panics(3,4) cv_parked_defined by metis
    obtain n where n: "?m a = Some n" "cv_parked (cs_pcs s ! cn_unpark n) a" using wait by (auto simp: cv_waiting_def)
    have "a' \<noteq> a" if node: "cv_node_of (cs_pcs s ! j) = Some a'" for a'
    proof
      assume "a' = a"
      then have "cn_unpark n = j" using own cv_panics(2) node n(1) by (auto simp: cv_owners_def)
      with n(2) no show False by (cases "cs_pcs s ! j") auto
    qed
    with cv_panics show ?thesis by (auto simp: cv_leave_def cv_free_def split: option.splits)
  qed simp_all
qed

section \<open>A waker among other threads\<close>

text \<open>
  Runs from a state in which thread \<open>i\<close> makes \<open>n\<close> accesses of the call it is in, and the other threads make any steps
  in between.
\<close>

inductive cv_during :: "(back_off \<Rightarrow> back_off) \<Rightarrow> (back_off \<Rightarrow> back_off) \<Rightarrow> nat \<Rightarrow> cv_system \<Rightarrow> nat \<Rightarrow> cv_system \<Rightarrow> bool"
  for lfw blw i s where
  during_start: "cv_during lfw blw i s 0 s"
| during_own: "cv_during lfw blw i s n t \<Longrightarrow> \<forall>r. cs_pcs t ! i \<noteq> Cv_Done r \<Longrightarrow>
    cv_fresh addr (cv_leave (cs_pcs t ! i) (cs_shared t)) \<Longrightarrow>
    cv_next lfw blw addr i spurious (cs_pcs t ! i) (cs_shared t) = Inr (pc, sh) \<Longrightarrow>
    cv_during lfw blw i s (Suc n) (t\<lparr>cs_shared := sh, cs_pcs := (cs_pcs t)[i := pc]\<rparr>)"
| during_other: "cv_during lfw blw i s n t \<Longrightarrow> cv_step lfw blw t u \<Longrightarrow> cs_pcs u ! i = cs_pcs t ! i \<Longrightarrow>
    cv_during lfw blw i s n u"

text \<open>The accesses that are left to a waker with a list, and the token it is about to unpark.\<close>

fun cv_left :: "cv_pc \<Rightarrow> usize list \<Rightarrow> nat" where
  "cv_left (Cv_Walk p r) w = 3 * length w + 1"
| "cv_left (Cv_Ready p token nx r) w = 3 * length w"
| "cv_left (Cv_Unpark token nx r) w = 3 * length w + 2"
| "cv_left _ w = 0"

fun cv_pending :: "cv_pc \<Rightarrow> nat list" where
  "cv_pending (Cv_Unpark token nx r) = [token]"
| "cv_pending _ = []"

definition cv_wakes :: "nat \<Rightarrow> u8 \<Rightarrow> usize list \<Rightarrow> nat list \<Rightarrow> nat list \<Rightarrow> nat \<Rightarrow> cv_system \<Rightarrow> bool" where
  "cv_wakes i r xs toks us0 n t \<longleftrightarrow> cv_inv t \<and> i < length (cs_pcs t) \<and>
     (cv_waker r (cs_pcs t ! i) \<or> cs_pcs t ! i = Cv_Done (Inr r)) \<and>
     (\<exists>w ts us. cv_todo (cv_nodes (cs_shared t)) (cs_pcs t ! i) w \<and> suffix w xs \<and>
        n + cv_left (cs_pcs t ! i) w = 3 * length xs + 1 \<and>
        toks = ts @ cv_pending (cs_pcs t ! i) @ cv_tokens w (cv_nodes (cs_shared t)) \<and>
        cv_unparks (cs_shared t) = us0 @ us \<and> subseq ts us)"

lemma cv_tokens_cong: "(\<And>a. a \<in> set w \<Longrightarrow> m' a = m a) \<Longrightarrow> cv_tokens w m' = cv_tokens w m"
  by (simp add: cv_tokens_def)

lemma cv_wakes_other:
  assumes J: "cv_wakes i r xs toks us0 n t" and step: "cv_step lfw blw t u" and still: "cs_pcs u ! i = cs_pcs t ! i"
  shows "cv_wakes i r xs toks us0 n u"
proof -
  let ?m = "cv_nodes (cs_shared t)" and ?pc = "cs_pcs t ! i"
  obtain w ts us where w: "cv_todo ?m ?pc w" "suffix w xs" "n + cv_left ?pc w = 3 * length xs + 1"
    "toks = ts @ cv_pending ?pc @ cv_tokens w ?m" "cv_unparks (cs_shared t) = us0 @ us" "subseq ts us"
    and inv: "cv_inv t" and i: "i < length (cs_pcs t)" and pc: "cv_waker r ?pc \<or> ?pc = Cv_Done (Inr r)"
    using J unfolding cv_wakes_def by blast
  have same: "cv_nodes (cs_shared u) a = ?m a" if a: "a \<in> set w" for a
  proof -
    have "cv_taken ?m ?pc a" using w(1) a by (auto simp: cv_taken_def)
    moreover have "cv_waker r ?pc" using pc w(1) a by auto
    ultimately show ?thesis using cv_step_taken[OF step inv i _ still] by blast
  qed
  obtain us' where us': "cv_unparks (cs_shared u) = cv_unparks (cs_shared t) @ us'" using cv_step_appends[OF step] by blast
  have "cv_todo (cv_nodes (cs_shared u)) ?pc w" using w(1) cv_todo_cong[of w "cv_nodes (cs_shared u)" ?m] same by blast
  moreover have "cv_tokens w (cv_nodes (cs_shared u)) = cv_tokens w ?m" using same by (rule cv_tokens_cong)
  moreover have "subseq ts (us @ us')" using w(6) by (rule list_emb_prefix)
  moreover have "length (cs_pcs u) = length (cs_pcs t)" using step by cases simp_all
  ultimately show ?thesis using w us' i pc still cv_step_keeps[OF step inv] unfolding cv_wakes_def
    by (intro conjI exI[of _ w] exI[of _ ts] exI[of _ "us @ us'"]) simp_all
qed

lemma cv_todo_distinct:
  assumes "cv_inv t" and "i < length (cs_pcs t)" and "cv_todo (cv_nodes (cs_shared t)) (cs_pcs t ! i) w"
  shows "distinct w"
proof -
  obtain xs ws where "cv_lists (cv_nodes (cs_shared t)) (cs_pcs t) xs ws" using assms(1) by (rule cv_invE)
  with assms(2) have "cv_todo (cv_nodes (cs_shared t)) (cs_pcs t ! i) (ws i)" "distinct (ws i)" by (simp_all add: cv_lists_def)
  with cv_todo_unique[OF assms(3)] show ?thesis by simp
qed

lemma cv_wakes_own:
  assumes J: "cv_wakes i r xs toks us0 n t" and busy: "\<forall>r. cs_pcs t ! i \<noteq> Cv_Done r"
    and fresh: "cv_fresh addr (cv_leave (cs_pcs t ! i) (cs_shared t))"
    and step: "cv_next lfw blw addr i spurious (cs_pcs t ! i) (cs_shared t) = Inr (pc, sh)"
  shows "cv_wakes i r xs toks us0 (Suc n) (t\<lparr>cs_shared := sh, cs_pcs := (cs_pcs t)[i := pc]\<rparr>)"
proof -
  let ?m = "cv_nodes (cs_shared t)" and ?pc = "cs_pcs t ! i"
  obtain w ts us where w: "cv_todo ?m ?pc w" "suffix w xs" "n + cv_left ?pc w = 3 * length xs + 1"
    "toks = ts @ cv_pending ?pc @ cv_tokens w ?m" "cv_unparks (cs_shared t) = us0 @ us" "subseq ts us"
    and inv: "cv_inv t" and i: "i < length (cs_pcs t)" and waker: "cv_waker r ?pc"
    using J busy unfolding cv_wakes_def by blast
  have inv': "cv_inv (t\<lparr>cs_shared := sh, cs_pcs := (cs_pcs t)[i := pc]\<rparr>)"
    using cv_step_keeps[OF cv_runs[OF i fresh step] inv] .
  have goal: "cv_wakes i r xs toks us0 (Suc n) (t\<lparr>cs_shared := sh, cs_pcs := (cs_pcs t)[i := pc]\<rparr>)"
    if "cv_todo (cv_nodes sh) pc w'" "suffix w' xs" "Suc n + cv_left pc w' = 3 * length xs + 1"
      "toks = ts' @ cv_pending pc @ cv_tokens w' (cv_nodes sh)" "cv_unparks sh = us0 @ us'" "subseq ts' us'"
      "cv_waker r pc \<or> pc = Cv_Done (Inr r)" for w' ts' us'
    using that inv' i unfolding cv_wakes_def by (intro conjI exI[of _ w'] exI[of _ ts'] exI[of _ us']) simp_all
  show ?thesis
  proof (cases ?pc)
    case (Cv_Walk p r')
    show ?thesis
    proof (cases w)
      case Nil
      with w Cv_Walk step waker show ?thesis by (intro goal[of "[]" ts us]) (auto simp: cv_tokens_def)
    next
      case (Cons x w')
      with w(1) Cv_Walk obtain node where "ptr_addr p = x" "x \<noteq> 0" "?m x = Some node" by auto
      with w Cv_Walk Cons step waker show ?thesis by (intro goal[of w ts us]) auto
    qed
  next
    case (Cv_Ready p token nx r')
    with w(1) obtain node w' where node: "w = ptr_addr p # w'" "?m (ptr_addr p) = Some node" "cn_next node = nx"
      "cn_unpark node = token" "cv_chain ?m (ptr_addr nx) w'" by auto
    have out: "ptr_addr p \<notin> set w'" using cv_todo_distinct[OF inv i w(1)] node(1) by simp
    let ?m' = "?m(ptr_addr p \<mapsto> node\<lparr>cn_ready := True\<rparr>)"
    have "cv_chain ?m' (ptr_addr nx) w'" using node(5) out by (subst cv_chain_cong[of w' ?m' ?m]) auto
    moreover have "cv_tokens w' ?m' = cv_tokens w' ?m" using out by (intro cv_tokens_cong) auto
    moreover have "cv_tokens w ?m = token # cv_tokens w' ?m" using node by (simp add: cv_tokens_def)
    moreover have "suffix w' xs" using w(2) node(1) by (metis suffix_ConsD)
    ultimately show ?thesis using w node Cv_Ready step waker by (intro goal[of w' ts us]) auto
  next
    case (Cv_Unpark token nx r')
    moreover have "subseq (ts @ [token]) (us @ [token])" using w(6) by (simp add: list_emb_append_mono)
    ultimately show ?thesis using w step waker by (intro goal[of w "ts @ [token]" "us @ [token]"]) auto
  qed (use waker in auto)
qed

lemma cv_during_wakes:
  assumes "cv_during lfw blw i s n t" and "cv_wakes i r xs toks us0 0 s"
  shows "cv_wakes i r xs toks us0 n t"
  using assms by (induction rule: cv_during.induct) (auto intro: cv_wakes_own cv_wakes_other)

text \<open>What this says of a run.\<close>

lemma cv_wakes_runs:
  assumes J: "cv_wakes i r xs toks us0 n t"
  shows "n \<le> 3 * length xs + 1" and "\<exists>pc sh. cv_next lfw blw addr i spurious (cs_pcs t ! i) (cs_shared t) = Inr (pc, sh)"
    and "n = 3 * length xs + 1 \<longleftrightarrow> cs_pcs t ! i = Cv_Done (Inr r)"
    and "\<exists>w. suffix w xs \<and> cv_todo (cv_nodes (cs_shared t)) (cs_pcs t ! i) w"
    and "cs_pcs t ! i = Cv_Done (Inr r) \<Longrightarrow> \<exists>us. cv_unparks (cs_shared t) = us0 @ us \<and> subseq toks us"
proof -
  let ?m = "cv_nodes (cs_shared t)" and ?pc = "cs_pcs t ! i"
  obtain w ts us where w: "cv_todo ?m ?pc w" "suffix w xs" "n + cv_left ?pc w = 3 * length xs + 1"
    "toks = ts @ cv_pending ?pc @ cv_tokens w ?m" "cv_unparks (cs_shared t) = us0 @ us" "subseq ts us"
    and inv: "cv_inv t" and i: "i < length (cs_pcs t)" and pc: "cv_waker r ?pc \<or> ?pc = Cv_Done (Inr r)"
    using J unfolding cv_wakes_def by blast
  from w(3) show "n \<le> 3 * length xs + 1" by simp
  have "cv_left ?pc w = 0 \<longleftrightarrow> ?pc = Cv_Done (Inr r)" using w(1) pc by (cases ?pc) auto
  with w(3) show "n = 3 * length xs + 1 \<longleftrightarrow> ?pc = Cv_Done (Inr r)" by auto
  from w(1,2) show "\<exists>w. suffix w xs \<and> cv_todo ?m ?pc w" by blast
  show "?pc = Cv_Done (Inr r) \<Longrightarrow> \<exists>us. cv_unparks (cs_shared t) = us0 @ us \<and> subseq toks us"
    using w by (auto simp: cv_tokens_def)
  have "cv_loop_of ?pc = None" using pc by (cases ?pc) auto
  with cv_inv_safe[OF inv i] show "\<exists>pc sh. cv_next lfw blw addr i spurious ?pc (cs_shared t) = Inr (pc, sh)"
    by (cases "cv_next lfw blw addr i spurious ?pc (cs_shared t)") force+
qed

text \<open>The \<open>swap\<close> of \<open>set\<close> takes the list.\<close>

lemma cv_swap_wakes:
  assumes inv: "cv_inv s" and i: "i < length (cs_pcs s)" and pc: "cs_pcs s ! i = Cv_Swap st"
  obtains xs p sh where "cv_chain (cv_nodes (cs_shared s)) (cv_head (cs_shared s)) xs"
    "cv_next lfw blw addr i spurious (cs_pcs s ! i) (cs_shared s) = Inr (Cv_Walk p (cv_load (cs_shared s)), sh)"
    "cv_load sh = st" "cv_head sh = 0"
    "cv_wakes i (cv_load (cs_shared s)) xs (cv_tokens xs (cv_nodes (cs_shared s))) (cv_unparks (cs_shared s)) 0
      (s\<lparr>cs_shared := sh, cs_pcs := (cs_pcs s)[i := Cv_Walk p (cv_load (cs_shared s))]\<rparr>)"
proof -
  let ?sh = "cs_shared s" and ?cur = "aps_load (cv_atomic (cs_shared s))"
  let ?p = "ps_ptr cv_align ?cur" and ?new = "?sh\<lparr>cv_atomic := \<lparr>aps_cell = ps_raw (ps_null_state (cv_trunc st))\<rparr>\<rparr>"
  obtain xs ws where ch: "cv_chain (cv_nodes ?sh) (cv_head ?sh) xs" using inv by (rule cv_invE)
  have step: "cv_next lfw blw addr i spurious (cs_pcs s ! i) ?sh = Inr (Cv_Walk ?p (cv_load ?sh), ?new)"
    using pc by (simp add: aps_swap_def aps_load_def cv_load_def)
  have new: "cv_load ?new = st" "cv_head ?new = 0" by (simp_all add: cv_load_def cv_head_def aps_load_def null_mut_def)
  have "cv_inv (s\<lparr>cs_shared := ?new, cs_pcs := (cs_pcs s)[i := Cv_Walk ?p (cv_load ?sh)]\<rparr>)"
    using inv i pc new(2) by (intro cv_inv_take) (simp_all add: cv_head_def)
  moreover have "cv_chain (cv_nodes ?sh) (ptr_addr ?p) xs" using ch by (simp add: cv_head_def)
  ultimately have "cv_wakes i (cv_load ?sh) xs (cv_tokens xs (cv_nodes ?sh)) (cv_unparks ?sh) 0
      (s\<lparr>cs_shared := ?new, cs_pcs := (cs_pcs s)[i := Cv_Walk ?p (cv_load ?sh)]\<rparr>)"
    using i unfolding cv_wakes_def by (intro conjI exI[of _ xs] exI[of _ "[]"]) simp_all
  with ch step new show thesis by (rule that)
qed

section \<open>A run\<close>

text \<open>
  Thread 0 is parked, thread 1 is in \<open>set\<close> after its swap; when thread 1 has made the node of thread 0 ready, thread 0 leaves the
  scope of the node, and thread 1 goes on.
\<close>

abbreviation cv_demo_during :: "nat \<Rightarrow> cv_system \<Rightarrow> bool" where
  "cv_demo_during \<equiv> cv_during cv_hurry cv_hurry 1 (cv_demo \<lparr>ptr_prov = None, ptr_addr = 1\<rparr> cv_demo_nodes
     (Cv_Parked cv_demo_loop \<lparr>spin_count = 15\<rparr> 256) (Cv_Walk cv_demo_ptr 0))"

lemma cv_demo_own:
  assumes "cv_demo_during n \<lparr>cs_shared = sh, cs_pcs = [pc0, pc1]\<rparr>" and "\<forall>r. pc1 \<noteq> Cv_Done r"
    and "cv_node_of pc1 = None" and "cv_nodes sh 512 = None" and "cv_next cv_hurry cv_hurry 512 1 False pc1 sh = Inr (pc, sh')"
  shows "cv_demo_during (Suc n) \<lparr>cs_shared = sh', cs_pcs = [pc0, pc]\<rparr>"
  using during_own[OF assms(1), of 512 False pc sh'] assms(2-) by (simp add: cv_fresh_def cv_leave_def)

lemma cv_demo_woken:
  "cv_demo_during 4 \<lparr>cs_shared = \<lparr>cv_atomic = \<lparr>aps_cell = \<lparr>ptr_prov = None, ptr_addr = 1\<rparr>\<rparr>, cv_nodes = cv_demo_nodes(256 := None),
     cv_unparks = [0]\<rparr>, cs_pcs = [Cv_Load cv_demo_loop \<lparr>spin_count = 15\<rparr>, Cv_Done (Inr 0)]\<rparr>"
proof -
  let ?p = "Cv_Parked cv_demo_loop \<lparr>spin_count = 15\<rparr> 256" and ?q = "Cv_Load cv_demo_loop \<lparr>spin_count = 15\<rparr>"
    and ?m = "cv_demo_nodes(256 := None)"
    and ?n = "cv_demo_nodes(256 \<mapsto> \<lparr>cn_unpark = 0, cn_next = null_mut, cn_ready = True\<rparr>)"
  let ?sh = "\<lambda>m us. \<lparr>cv_atomic = \<lparr>aps_cell = \<lparr>ptr_prov = None, ptr_addr = 1\<rparr>\<rparr>, cv_nodes = m, cv_unparks = us\<rparr>"
  have "cv_demo_during 0 \<lparr>cs_shared = ?sh cv_demo_nodes [], cs_pcs = [?p, Cv_Walk cv_demo_ptr 0]\<rparr>"
    unfolding cv_demo_def by (rule during_start)
  from cv_demo_own[OF this, of "Cv_Ready cv_demo_ptr 0 null_mut 0"]
  have "cv_demo_during 1 \<lparr>cs_shared = ?sh cv_demo_nodes [], cs_pcs = [?p, Cv_Ready cv_demo_ptr 0 null_mut 0]\<rparr>"
    by (simp add: cv_demo_nodes_def cv_demo_ptr_def)
  from cv_demo_own[OF this, of "Cv_Unpark 0 null_mut 0" "?sh ?n []", unfolded Suc_1]
  have "cv_demo_during 2 \<lparr>cs_shared = ?sh ?n [], cs_pcs = [?p, Cv_Unpark 0 null_mut 0]\<rparr>"
    by (simp add: cv_demo_nodes_def cv_demo_ptr_def)
  from during_other[OF this cv_runs[of 0 _ 512]]
  have "cv_demo_during 2 \<lparr>cs_shared = ?sh ?m [], cs_pcs = [?q, Cv_Unpark 0 null_mut 0]\<rparr>"
    by (simp add: cv_fresh_def cv_leave_def cv_demo_nodes_def cv_free_def)
  from cv_demo_own[OF this, of "Cv_Walk null_mut 0" "?sh ?m [0]"]
  have "cv_demo_during 3 \<lparr>cs_shared = ?sh ?m [0], cs_pcs = [?q, Cv_Walk null_mut 0]\<rparr>"
    by (simp add: cv_demo_nodes_def)
  from cv_demo_own[OF this, of "Cv_Done (Inr 0)" "?sh ?m [0]"] show ?thesis
    by (simp add: cv_demo_nodes_def null_mut_def)
qed

section \<open>Properties\<close>

text \<open>
  Claim C20. \<open>set\<close> with a wake, in any reachable state and whatever the other threads do. Its first access sets the state,
  empties the list on the word and takes its nodes \<open>xs\<close>. Then, in every run in which the thread makes \<open>n\<close> accesses of
  the call and the others any steps in between, its next access is defined, the nodes that it has not made ready are
  waiting and are the end of \<open>xs\<close>, and it returns the previous state after exactly one access and three for every node, when the
  tokens of all of \<open>xs\<close> have been unparked in this order. If no other thread runs, every node of \<open>xs\<close> is then ready and nothing
  else has changed.
\<close>

theorem condvar_set_wakes_all:
  assumes "reachable cv_init (cv_step lfw blw) s" and "i < length (cs_pcs s)" and "cs_pcs s ! i = cv_set wake st"
    and "wake \<noteq> Wake_None"
  defines "old \<equiv> cv_load (cs_shared s)" and "m \<equiv> cv_nodes (cs_shared s)"
  shows "\<exists>xs p sh. cv_chain m (cv_head (cs_shared s)) xs \<and>
    cv_next lfw blw addr i spurious (cs_pcs s ! i) (cs_shared s) = Inr (Cv_Walk p old, sh) \<and> cv_load sh = st \<and> cv_head sh = 0 \<and>
    (\<forall>n t. cv_during lfw blw i (s\<lparr>cs_shared := sh, cs_pcs := (cs_pcs s)[i := Cv_Walk p old]\<rparr>) n t \<longrightarrow>
      n \<le> 3 * length xs + 1 \<and>
      (\<forall>addr spurious. \<exists>pc sh. cv_next lfw blw addr i spurious (cs_pcs t ! i) (cs_shared t) = Inr (pc, sh)) \<and>
      (\<exists>w. suffix w xs \<and> cv_todo (cv_nodes (cs_shared t)) (cs_pcs t ! i) w) \<and>
      (n = 3 * length xs + 1 \<longleftrightarrow> cs_pcs t ! i = Cv_Done (Inr old)) \<and>
      (n = 3 * length xs + 1 \<longrightarrow>
        (\<exists>us. cv_unparks (cs_shared t) = cv_unparks (cs_shared s) @ us \<and> subseq (cv_tokens xs m) us))) \<and>
    (\<exists>sh'. cv_alone lfw blw addr i (3 * length xs + 2) (cs_pcs s ! i) (cs_shared s) = Inr (Cv_Done (Inr old), sh') \<and>
      cv_load sh' = st \<and> cv_head sh' = 0 \<and> cv_nodes sh' = cv_ready_all xs m \<and>
      cv_unparks sh' = cv_unparks (cs_shared s) @ cv_tokens xs m)"
proof -
  note inv = cv_sys.reachable_inv[OF assms(1)]
  have pc: "cs_pcs s ! i = Cv_Swap st" using assms(3,4) by (simp add: cv_set_def)
  obtain xs p sh where ch: "cv_chain m (cv_head (cs_shared s)) xs"
    and swap: "cv_next lfw blw addr i spurious (cs_pcs s ! i) (cs_shared s) = Inr (Cv_Walk p old, sh)" "cv_load sh = st" "cv_head sh = 0"
    and wakes: "cv_wakes i old xs (cv_tokens xs m) (cv_unparks (cs_shared s)) 0
      (s\<lparr>cs_shared := sh, cs_pcs := (cs_pcs s)[i := Cv_Walk p old]\<rparr>)"
    unfolding old_def m_def by (rule cv_swap_wakes[OF inv assms(2) pc])
  have during: "n \<le> 3 * length xs + 1 \<and>
      (\<forall>addr spurious. \<exists>pc sh. cv_next lfw blw addr i spurious (cs_pcs t ! i) (cs_shared t) = Inr (pc, sh)) \<and>
      (\<exists>w. suffix w xs \<and> cv_todo (cv_nodes (cs_shared t)) (cs_pcs t ! i) w) \<and>
      (n = 3 * length xs + 1 \<longleftrightarrow> cs_pcs t ! i = Cv_Done (Inr old)) \<and>
      (n = 3 * length xs + 1 \<longrightarrow>
        (\<exists>us. cv_unparks (cs_shared t) = cv_unparks (cs_shared s) @ us \<and> subseq (cv_tokens xs m) us))"
    if "cv_during lfw blw i (s\<lparr>cs_shared := sh, cs_pcs := (cs_pcs s)[i := Cv_Walk p old]\<rparr>) n t" for n t
  proof -
    note runs = cv_wakes_runs[OF cv_during_wakes[OF that wakes]]
    show ?thesis by (intro conjI allI runs impI) (simp only: runs(3))
  qed
  obtain ys sh' where ys: "cv_chain m (cv_head (cs_shared s)) ys"
    and alone: "cv_alone lfw blw addr i (3 * length ys + 2) (cv_set wake st) (cs_shared s) = Inr (Cv_Done (Inr old), sh')"
      "cv_load sh' = st" "cv_head sh' = 0" "cv_nodes sh' = cv_ready_all ys m" "cv_unparks sh' = cv_unparks (cs_shared s) @ cv_tokens ys m"
    using cv_set_wakes[OF inv assms(4), of lfw blw addr i st] unfolding old_def m_def by blast
  have "ys = xs" by (rule cv_chain_unique[OF ys ch])
  with alone have al: "\<exists>sh'. cv_alone lfw blw addr i (3 * length xs + 2) (cs_pcs s ! i) (cs_shared s) = Inr (Cv_Done (Inr old), sh') \<and>
      cv_load sh' = st \<and> cv_head sh' = 0 \<and> cv_nodes sh' = cv_ready_all xs m \<and>
      cv_unparks sh' = cv_unparks (cs_shared s) @ cv_tokens xs m"
    unfolding assms(3) by blast
  show ?thesis
    by (intro exI[of _ xs] exI[of _ p] exI[of _ sh] conjI[OF ch] conjI[OF swap(1)] conjI[OF swap(2)] conjI[OF swap(3)]
        conjI[OF _ al] allI impI during)
qed

theorem condvar_set_wakes_all_witness:
  "\<exists>t. cv_demo_during 4 t \<and> cs_pcs t = [Cv_Load cv_demo_loop \<lparr>spin_count = 15\<rparr>, Cv_Done (Inr 0)] \<and>
     (\<exists>us. cv_unparks (cs_shared t) = us \<and> subseq [0] us)"
proof -
  let ?s = "cv_demo cv_demo_ptr cv_demo_nodes (Cv_Parked cv_demo_loop \<lparr>spin_count = 15\<rparr> 256) (Cv_Swap 1)"
  have s: "cv_head (cs_shared ?s) = 256" "cv_load (cs_shared ?s) = 0" "1 < length (cs_pcs ?s)" "cs_pcs ?s ! 1 = cv_set Wake_One 1"
    by (simp_all add: cv_demo_def cv_head_def cv_load_def cv_demo_ptr_def cv_word_eval cv_set_def)
  have xs: "xs = [256]" if "cv_chain cv_demo_nodes 256 xs" for xs
    by (rule cv_chain_unique[OF that]) (simp add: cv_demo_nodes_def null_mut_def)
  have tokens: "cv_tokens [256] cv_demo_nodes = [0]" by (simp add: cv_tokens_def cv_demo_nodes_def)
  from condvar_set_wakes_all[OF cv_demo_swapping s(3,4) cv_wake.distinct(2), of 512 False, unfolded s(1,2)]
  obtain xs p sh where ch: "cv_chain (cv_nodes (cs_shared ?s)) 256 xs"
    and swap: "cv_next cv_hurry cv_hurry 512 1 False (cs_pcs ?s ! 1) (cs_shared ?s) = Inr (Cv_Walk p 0, sh)"
    and all: "\<And>n t. cv_during cv_hurry cv_hurry 1 (?s\<lparr>cs_shared := sh, cs_pcs := (cs_pcs ?s)[1 := Cv_Walk p 0]\<rparr>) n t \<Longrightarrow>
      n = 3 * length xs + 1 \<Longrightarrow> \<exists>us. cv_unparks (cs_shared t) = cv_unparks (cs_shared ?s) @ us \<and>
        subseq (cv_tokens xs (cv_nodes (cs_shared ?s))) us" by blast
  have xs: "xs = [256]" using xs ch by (simp add: cv_demo_def)
  have "?s\<lparr>cs_shared := sh, cs_pcs := (cs_pcs ?s)[1 := Cv_Walk p 0]\<rparr> = cv_demo \<lparr>ptr_prov = None, ptr_addr = 1\<rparr> cv_demo_nodes
      (Cv_Parked cv_demo_loop \<lparr>spin_count = 15\<rparr> 256) (Cv_Walk cv_demo_ptr 0)"
    using swap by (auto simp: cv_demo_def aps_swap_def cv_demo_ptr_def cv_word_eval)
  note all[unfolded this, OF cv_demo_woken]
  with cv_demo_woken show ?thesis by (auto simp: xs tokens cv_demo_def)
qed

end
