(* ===== verification/Triple_Order.thy ===== *)
theory Triple_Order
  imports Mem_Order Triple
begin

text \<open>
  The orderings of \<open>src/src/triple.rs\<close>: the two handles of a split triple buffer on the memory of
  \<open>Mem_Order\<close>. The word is the flag byte and the data are the three elements. A handle may access the
  element of its index at any time; \<open>recv\<close> and \<open>recv_into\<close>, between their \<open>consume\<close> and their return,
  access the element of the index they were called with.
\<close>

section \<open>The handles\<close>

datatype tb_place =
    Tb_Producer tb_producer
  | Tb_Consumer tb_consumer
  | Tb_Receiving idx tb_consumer  \<comment> \<open>in \<open>recv\<close>, called with the index; the handle as it will be\<close>

datatype tb_event = Tb_Publish | Tb_Consume | Tb_Recv | Tb_Recv_End | Tb_Look

definition tb_byte :: "u8 \<Rightarrow> unit triple_buffer" where
  "tb_byte flags = \<lparr>tb_elements = (\<lambda>_. ()), tb_flags = flags\<rparr>"

text \<open>
  \<open>Tb_Look\<close> is \<open>consumed\<close>, \<open>published\<close> or \<open>pending\<close>. The parameter \<open>recv\<close> says whether the consumer may call
  \<open>recv\<close> and \<open>recv_into\<close>.
\<close>

fun tb_next :: "bool \<Rightarrow> tb_event \<Rightarrow> tb_place \<Rightarrow> u8 \<Rightarrow> (tb_place \<times> u8) option" where
  "tb_next recv Tb_Publish (Tb_Producer p) flags =
     (case tp_publish p (tb_byte flags) of
        Inr (consumed, p', tb) \<Rightarrow> Some (Tb_Producer p', tb_flags tb)
      | Inl _ \<Rightarrow> None)"
| "tb_next recv Tb_Consume (Tb_Consumer c) flags =
     (case tc_consume c (tb_byte flags) of
        Inr (published, c', tb) \<Rightarrow> Some (Tb_Consumer c', tb_flags tb)
      | Inl _ \<Rightarrow> None)"
| "tb_next recv Tb_Recv (Tb_Consumer c) flags =
     (case tb_consume (tc_consumer c) (tb_byte flags) of
        Inr ((new_consumer, produced), tb) \<Rightarrow>
          if recv then Some (if produced then Tb_Receiving (tc_consumer c) \<lparr>tc_consumer = new_consumer\<rparr>
            else Tb_Consumer \<lparr>tc_consumer = new_consumer\<rparr>, tb_flags tb)
          else None
      | Inl _ \<Rightarrow> None)"
| "tb_next recv Tb_Recv_End (Tb_Receiving old c) flags = Some (Tb_Consumer c, flags)"
| "tb_next recv Tb_Look pl flags = Some (pl, flags)"
| "tb_next recv _ pl flags = None"

text \<open>The orderings of the swaps of \<open>publish\<close> and \<open>consume\<close>, and of the loads.\<close>

fun tb_access :: "tb_event \<Rightarrow> tb_place \<Rightarrow> u8 \<Rightarrow> mem_access" where
  "tb_access Tb_Publish pl flags = Mem_Rmw AcqRel"
| "tb_access Tb_Consume pl flags = Mem_Rmw AcqRel"
| "tb_access Tb_Recv pl flags = Mem_Rmw AcqRel"
| "tb_access Tb_Recv_End pl flags = Mem_None"
| "tb_access Tb_Look pl flags = Mem_Load Relaxed"

fun tb_may :: "tb_place \<Rightarrow> bool \<Rightarrow> nat \<Rightarrow> bool" where
  "tb_may (Tb_Producer p) wr loc \<longleftrightarrow> loc = idx_index (tp_producer p)"
| "tb_may (Tb_Consumer c) wr loc \<longleftrightarrow> loc = idx_index (tc_consumer c)"
| "tb_may (Tb_Receiving old c) wr loc \<longleftrightarrow> loc = idx_index old"

definition tb_program :: "bool \<Rightarrow> (tb_event, tb_place, u8) mem_program" where
  "tb_program recv = \<lparr>mp_next = tb_next recv, mp_access = tb_access, mp_may = tb_may\<rparr>"

text \<open>The two handles of a split.\<close>

definition tb_handles :: "tb_place list \<Rightarrow> bool" where
  "tb_handles pls \<longleftrightarrow> (\<exists>p c. tb_split_mut (tb_byte flags_init) = Inr (p, c) \<and> pls = [Tb_Producer p, Tb_Consumer c])"

section \<open>The invariant\<close>

text \<open>A view has every access to an element.\<close>

definition tb_knows :: "data_access list \<Rightarrow> idx \<Rightarrow> nat set \<Rightarrow> bool" where
  "tb_knows log x view \<longleftrightarrow> (\<forall>e < length log. da_loc (log ! e) = idx_index x \<longrightarrow> e \<in> view)"

lemma tb_knows_mono: "tb_knows log x view \<Longrightarrow> view \<subseteq> view' \<Longrightarrow> tb_knows log x view'"
  unfolding tb_knows_def by blast

lemma idx_index_inject [simp]: "idx_index x = idx_index y \<longleftrightarrow> x = y"
  by (cases x; cases y) simp_all

lemma tb_knows_append:
  "tb_knows (log @ [a]) x view \<longleftrightarrow> tb_knows log x view \<and> (da_loc a = idx_index x \<longrightarrow> length log \<in> view)"
  by (auto simp: tb_knows_def nth_append less_Suc_eq)

text \<open>
  Each handle knows the accesses to its element, and the newest message those to the pending one.
\<close>

definition tb_owns :: "data_access list \<Rightarrow> nat set list \<Rightarrow> u8 mem_message \<Rightarrow> tb_producer \<Rightarrow> tb_consumer \<Rightarrow> idx \<Rightarrow> bool" where
  "tb_owns log seen m p c x \<longleftrightarrow>
     distinct [x, tp_producer p, tc_consumer c] \<and> (\<exists>full. msg_value m = flag_byte x full) \<and>
     tb_knows log (tp_producer p) (seen ! 0) \<and> tb_knows log (tc_consumer c) (seen ! 1) \<and> tb_knows log x (msg_view m)"

definition tb_order_inv :: "(tb_place, u8) mem_system \<Rightarrow> bool" where
  "tb_order_inv s \<longleftrightarrow> mem_wf s \<and> (\<exists>p c x. ms_pcs s = [Tb_Producer p, Tb_Consumer c] \<and>
     tb_owns (ms_log s) (ms_seen s) (mem_last s) p c x)"

lemma tb_handles_split:
  "tb_handles [Tb_Producer \<lparr>tp_producer = One, tp_last_consumed = True\<rparr>, Tb_Consumer \<lparr>tc_consumer = Two\<rparr>]"
  "tb_handles pls \<Longrightarrow> pls = [Tb_Producer \<lparr>tp_producer = One, tp_last_consumed = True\<rparr>, Tb_Consumer \<lparr>tc_consumer = Two\<rparr>]"
proof -
  have "tb_flags (tb_byte flags_init) = flag_byte Zero False" by (simp add: tb_byte_def flags_init_byte)
  from tb_split_flags[OF this]
  show "tb_handles [Tb_Producer \<lparr>tp_producer = One, tp_last_consumed = True\<rparr>, Tb_Consumer \<lparr>tc_consumer = Two\<rparr>]"
    "tb_handles pls \<Longrightarrow> pls = [Tb_Producer \<lparr>tp_producer = One, tp_last_consumed = True\<rparr>, Tb_Consumer \<lparr>tc_consumer = Two\<rparr>]"
    by (auto simp: tb_handles_def)
qed

lemma tb_order_inv_init:
  assumes "mem_starts flags_init tb_handles s"
  shows "tb_order_inv s"
proof -
  obtain pcs where "tb_handles pcs" and s: "s = mem_init flags_init pcs" using assms by (rule mem_startsE)
  from tb_handles_split(2)[OF this(1)] s mem_wf_init show ?thesis
    by (force simp: tb_order_inv_def tb_owns_def tb_knows_def flags_init_byte)
qed

text \<open>What the swaps of the two handles do.\<close>

lemma tb_publish_word:
  "tp_publish p (tb_byte (flag_byte x full)) =
    Inr (\<not> full, \<lparr>tp_producer = x, tp_last_consumed = \<not> full\<rparr>, tb_byte (flag_byte (tp_producer p) True))"
  using tb_publish_flags[of "tb_byte (flag_byte x full)" x full "tp_producer p"] by (simp add: tp_publish_def tb_byte_def)

lemma tb_consume_word:
  "tc_consume c (tb_byte (flag_byte x full)) =
    Inr (full, \<lparr>tc_consumer = x\<rparr>, tb_byte (flag_byte (tc_consumer c) False))"
  using tb_consume_flags[of "tb_byte (flag_byte x full)" x full "tc_consumer c"] by (simp add: tc_consume_def tb_byte_def)

lemma tb_byte_flags [simp]: "tb_flags (tb_byte flags) = flags"
  by (simp add: tb_byte_def)

lemma tb_consume_byte:
  "tb_consume c (tb_byte (flag_byte x full)) = Inr ((x, full), tb_byte (flag_byte c False))"
  using tb_consume_flags[of "tb_byte (flag_byte x full)" x full c] by (simp add: tb_byte_def)

lemma tb_order_rmw:
  assumes inv: "tb_order_inv s" and i: "i < length (ms_pcs s)"
    and nx: "tb_next False ev (ms_pcs s ! i) (msg_value (mem_last s)) = Some (pc, w)"
    and ev: "tb_access ev (ms_pcs s ! i) (msg_value (mem_last s)) = Mem_Rmw ord"
    and seen: "seen = mem_learns ord (mem_last s) (ms_seen s ! i)"
  shows "tb_order_inv (mem_adds w (msg_view (mem_last s) \<union> mem_publishes ord seen)
    (mem_goes i pc (length (ms_order s)) seen s))" (is "tb_order_inv ?t")
proof -
  obtain p c x where wf: "mem_wf s" and pcs: "ms_pcs s = [Tb_Producer p, Tb_Consumer c]"
    and owns: "tb_owns (ms_log s) (ms_seen s) (mem_last s) p c x" using inv by (auto simp: tb_order_inv_def)
  obtain full where full: "msg_value (mem_last s) = flag_byte x full" using owns by (auto simp: tb_owns_def)
  have two: "length (ms_seen s) = 2" using wf pcs by (simp add: mem_wf_def)
  have ord: "ord = AcqRel" using ev by (cases ev) auto
  have grows: "ms_seen s ! i \<subseteq> seen" "msg_view (mem_last s) \<subseteq> seen" by (auto simp: seen ord)
  have view: "msg_view (mem_last s) \<union> mem_publishes ord seen = seen" using grows by (auto simp: ord)
  have "i = 0 \<or> i = 1" using i pcs by auto
  then show ?thesis
  proof
    assume "i = 0"
    with nx pcs full ev have pc: "pc = Tb_Producer \<lparr>tp_producer = x, tp_last_consumed = \<not> full\<rparr>"
      "w = flag_byte (tp_producer p) True" by (cases ev; simp add: tb_publish_word)+
    have "tb_owns (ms_log ?t) (ms_seen ?t) (mem_last ?t) \<lparr>tp_producer = x, tp_last_consumed = \<not> full\<rparr> c (tp_producer p)"
      using owns two grows \<open>i = 0\<close> pc tb_knows_mono unfolding tb_owns_def view by auto
    with wf pcs pc \<open>i = 0\<close> show ?thesis by (auto simp: tb_order_inv_def mem_wf_def)
  next
    assume "i = 1"
    with nx pcs full ev have pc: "pc = Tb_Consumer \<lparr>tc_consumer = x\<rparr>" "w = flag_byte (tc_consumer c) False"
      by (cases ev; simp add: tb_consume_word tb_consume_byte)+
    have "tb_owns (ms_log ?t) (ms_seen ?t) (mem_last ?t) p \<lparr>tc_consumer = x\<rparr> (tc_consumer c)"
      using owns two grows \<open>i = 1\<close> pc tb_knows_mono unfolding tb_owns_def view by auto
    with wf pcs pc \<open>i = 1\<close> show ?thesis by (auto simp: tb_order_inv_def mem_wf_def)
  qed
qed

lemma tb_order_step:
  assumes "mem_step (tb_program False) s t" and "tb_order_inv s"
  shows "tb_order_inv t"
  using assms
proof (induction rule: mem_step.induct)
  case (mem_moves i s ev pc w)
  then obtain p c where "ms_pcs s = [Tb_Producer p, Tb_Consumer c]" by (auto simp: tb_order_inv_def)
  with mem_moves show ?case by (cases ev; cases i) (auto simp: tb_program_def)
next
  case (mem_loads i s k ev ord pc w)
  then have same: "pc = ms_pcs s ! i" "ord = Relaxed" by (cases ev; auto simp: tb_program_def)+
  have "mem_goes i pc k (mem_learns ord (ms_order s ! k) (ms_seen s ! i)) s = s\<lparr>ms_pos := (ms_pos s)[i := k]\<rparr>"
    by (simp add: same mem_goes_def mem_learns_def)
  with mem_loads show ?case by (simp add: tb_order_inv_def mem_wf_def mem_last_def)
next
  case (mem_rmws i s ev ord pc w seen)
  then show ?case by (intro tb_order_rmw) (auto simp: tb_program_def)
next
  case (mem_stores i s ev ord pc w)
  then show ?case by (cases ev) (auto simp: tb_program_def)
next
  case (mem_touches i s wr loc)
  then obtain p c x where wf: "mem_wf s" and pcs: "ms_pcs s = [Tb_Producer p, Tb_Consumer c]"
    and owns: "tb_owns (ms_log s) (ms_seen s) (mem_last s) p c x" by (auto simp: tb_order_inv_def)
  have two: "length (ms_seen s) = 2" using wf pcs by (simp add: mem_wf_def)
  have "i = 0 \<and> loc = idx_index (tp_producer p) \<or> i = 1 \<and> loc = idx_index (tc_consumer c)"
    using mem_touches pcs by (cases i) (auto simp: tb_program_def)
  then have "tb_owns (ms_log (mem_logs i wr loc s)) (ms_seen (mem_logs i wr loc s)) (mem_last (mem_logs i wr loc s)) p c x"
    using owns two tb_knows_mono[OF _ subset_insertI] unfolding tb_owns_def by (auto simp: tb_knows_append)
  with wf pcs show ?case by (auto simp: tb_order_inv_def mem_wf_def)
qed

interpretation tb_order: transition_system "mem_starts flags_init tb_handles" "mem_step (tb_program False)" tb_order_inv
  by unfold_locales (auto intro: tb_order_inv_init tb_order_step)

lemma tb_order_race_free:
  assumes "tb_order_inv s"
  shows "mem_race_free (tb_program False) s"
  unfolding mem_race_free_def
proof (intro allI impI)
  fix i wr loc e
  assume i: "i < length (ms_pcs s)" and may: "mp_may (tb_program False) (ms_pcs s ! i) wr loc" and e: "e < length (ms_log s)"
    and conflict: "da_loc (ms_log s ! e) = loc \<and> (wr \<or> da_write (ms_log s ! e))"
  obtain p c x where pcs: "ms_pcs s = [Tb_Producer p, Tb_Consumer c]"
    and owns: "tb_owns (ms_log s) (ms_seen s) (mem_last s) p c x" using assms by (auto simp: tb_order_inv_def)
  have "i = 0 \<or> i = 1" using i pcs by auto
  with may pcs owns e conflict show "e \<in> ms_seen s ! i" by (auto simp: tb_program_def tb_owns_def tb_knows_def)
qed

section \<open>Properties\<close>

definition tb_split_places :: "tb_place list" where
  "tb_split_places = [Tb_Producer \<lparr>tp_producer = One, tp_last_consumed = True\<rparr>, Tb_Consumer \<lparr>tc_consumer = Two\<rparr>]"

lemma tb_run_reachable:
  assumes "mem_run (tb_program recv) as (mem_init flags_init tb_split_places) = Some s"
  shows "reachable (mem_starts flags_init tb_handles) (mem_step (tb_program recv)) s"
proof (rule mem_run_reachable[OF assms reach_init])
  show "mem_starts flags_init tb_handles (mem_init flags_init tb_split_places)"
    using tb_handles_split(1) by (simp add: mem_starts_def tb_split_places_def)
qed

lemmas tb_run_eval = tb_program_def tb_split_places_def flags_init_byte mem_init_def mem_last_def mem_goes_def
  mem_adds_def mem_logs_def tb_publish_word tb_consume_word tb_consume_byte Let_def

text \<open>
  Claim C9. The orderings of \<open>publish\<close> and \<open>consume\<close> suffice: on a memory in which loads may read old
  values, the element of a handle is accessed by nobody else, and no access to an element through \<open>get\<close>,
  \<open>get_mut\<close>, \<open>set\<close>, \<open>read\<close> and what is built on them races with an earlier one of the other handle.
\<close>

theorem triple_race_free:
  assumes "reachable (mem_starts flags_init tb_handles) (mem_step (tb_program False)) s"
  shows "mem_race_free (tb_program False) s \<and> (\<exists>p c. ms_pcs s = [Tb_Producer p, Tb_Consumer c] \<and>
    tp_producer p \<noteq> tc_consumer c)"
  using tb_order.reachable_inv[OF assms] tb_order_race_free by (auto simp: tb_order_inv_def tb_owns_def)

theorem triple_race_free_witness:
  "\<exists>s. mem_run (tb_program False) [Act_Touch 0 True 1, Act_Step 0 Tb_Publish 0, Act_Step 1 Tb_Consume 0]
       (mem_init flags_init tb_split_places) = Some s \<and> 0 \<in> ms_seen s ! 1"
proof -
  obtain s where run: "mem_run (tb_program False) [Act_Touch 0 True 1, Act_Step 0 Tb_Publish 0, Act_Step 1 Tb_Consume 0]
      (mem_init flags_init tb_split_places) = Some s"
    and s: "length (ms_pcs s) = 2" "ms_pcs s ! 1 = Tb_Consumer \<lparr>tc_consumer = One\<rparr>"
      "ms_log s = [\<lparr>da_thread = 0, da_write = True, da_loc = 1\<rparr>]"
    by (simp add: tb_run_eval)
  from triple_race_free[OF tb_run_reachable[OF run]] have "mem_race_free (tb_program False) s" by blast
  from mem_race_freeD[OF this, of 1 True 1 0] s have "0 \<in> ms_seen s ! 1" by (simp add: tb_program_def)
  with run show ?thesis by blast
qed

text \<open>
  Claim C25. \<open>recv\<close> and \<open>recv_into\<close> have data races: they access the element of the index they were called
  with after \<open>consume\<close> has made it the pending one, and the producer may get it by a \<open>publish\<close> and write it
  without any order between the two accesses.
\<close>

theorem recv_races:
  "\<exists>s. reachable (mem_starts flags_init tb_handles) (mem_step (tb_program True)) s \<and>
     \<not> mem_race_free (tb_program True) s"
proof -
  obtain s where run: "mem_run (tb_program True) [Act_Step 0 Tb_Publish 0, Act_Step 1 Tb_Recv 0, Act_Touch 1 True 2,
      Act_Step 0 Tb_Publish 0] (mem_init flags_init tb_split_places) = Some s"
    and s: "length (ms_pcs s) = 2" "ms_pcs s ! 0 = Tb_Producer \<lparr>tp_producer = Two, tp_last_consumed = True\<rparr>"
      "ms_log s = [\<lparr>da_thread = 1, da_write = True, da_loc = 2\<rparr>]" "0 \<notin> ms_seen s ! 0"
    by (simp add: tb_run_eval)
  have "\<not> mem_race_free (tb_program True) s"
  proof
    assume "mem_race_free (tb_program True) s"
    from mem_race_freeD[OF this, of 0 True 2 0] s show False by (simp add: tb_program_def)
  qed
  with tb_run_reachable[OF run] show ?thesis by blast
qed

end
