(* ===== verification/Park.thy ===== *)
theory Park
  imports Cond_Var_State
begin

text \<open>
  Parking, \<open>src/src/park.rs\<close>, and the condition variable with it. \<open>Cond_Var\<close> lets \<open>park\<close> return at any
  time; here a thread that has found its node not ready is inside \<open>park\<close>, which blocks it until it is
  unparked, or returns without reason. A thread is its own unpark token: \<open>unpark_token\<close> of
  \<open>CurrentThread\<close> is the thread, that of \<open>ParkYield\<close> carries nothing, and \<open>unpark\<close> acts on the parker of the thread.
\<close>

section \<open>Parkers\<close>

text \<open>What a thread has for parking. \<open>pk_park\<close> is \<open>None\<close> as long as \<open>park\<close> blocks.\<close>

record 'p parker =
  pk_new :: 'p
  pk_park :: "'p \<Rightarrow> 'p option"
  pk_unpark :: "'p \<Rightarrow> 'p"

text \<open>
  \<open>std::thread\<close>: a thread has a token, which \<open>unpark\<close> makes available and \<open>park\<close> waits for and takes.
\<close>

definition thread_park :: "bool \<Rightarrow> bool option" where
  "thread_park token = (if token then Some False else None)"

definition thread_unpark :: "bool \<Rightarrow> bool" where
  "thread_unpark token = True"

definition current_thread :: "bool parker" where
  "current_thread = \<lparr>pk_new = False, pk_park = thread_park, pk_unpark = thread_unpark\<rparr>"

text \<open>\<open>DefaultPark\<close> for \<open>Thread\<close>.\<close>

definition default_park :: "bool parker" where
  "default_park = current_thread"

text \<open>\<open>ParkYield\<close> gives a hint to the scheduler or the processor and returns; what is kept is the hints given.\<close>

definition yield_park :: "bool \<Rightarrow> wait_hint list \<Rightarrow> wait_hint list option" where
  "yield_park std hints = Some (hints @ [if std then Yield_now else Spin_loop])"

definition yield_unpark :: "wait_hint list \<Rightarrow> wait_hint list" where
  "yield_unpark hints = hints"

definition park_yield :: "bool \<Rightarrow> wait_hint list parker" where
  "park_yield std = \<lparr>pk_new = [], pk_park = yield_park std, pk_unpark = yield_unpark\<rparr>"

text \<open>The contract: who has been unparked does not stay in \<open>park\<close>.\<close>

locale parking =
  fixes P :: "'p parker"
  assumes unparked: "pk_park P (pk_unpark P p) \<noteq> None"

interpretation thread_parking: parking current_thread
  by unfold_locales (simp add: current_thread_def thread_park_def thread_unpark_def)

interpretation yield_parking: parking "park_yield std" for std
  by unfold_locales (simp add: park_yield_def yield_park_def)

section \<open>A condition variable whose threads park\<close>

record 'p pk_system =
  pk_cv :: cv_system
  pk_inside :: "nat \<Rightarrow> bool"
  pk_parkers :: "nat \<Rightarrow> 'p"

definition pk_init :: "'p parker \<Rightarrow> 'p pk_system \<Rightarrow> bool" where
  "pk_init P s \<longleftrightarrow> cv_init (pk_cv s) \<and> pk_inside s = (\<lambda>_. False) \<and> pk_parkers s = (\<lambda>_. pk_new P)"

text \<open>A step of the condition variable in which no thread but \<open>i\<close> moves.\<close>

definition cv_step_by :: "(back_off \<Rightarrow> back_off) \<Rightarrow> (back_off \<Rightarrow> back_off) \<Rightarrow> nat \<Rightarrow> cv_system \<Rightarrow> cv_system \<Rightarrow> bool" where
  "cv_step_by lfw blw i s t \<longleftrightarrow> cv_step lfw blw s t \<and> length (cs_pcs t) = length (cs_pcs s) \<and>
     (\<forall>j. j \<noteq> i \<longrightarrow> cs_pcs t ! j = cs_pcs s ! j)"

fun cv_token :: "cv_pc \<Rightarrow> nat option" where
  "cv_token (Cv_Unpark token nx r) = Some token"
| "cv_token _ = None"

lemma cv_tokenE: "cv_token pc = Some token \<Longrightarrow> \<exists>nx r. pc = Cv_Unpark token nx r"
  by (cases pc) auto

text \<open>
  \<open>pk_parks\<close> is the test of the loop that finds \<open>ready\<close> false, \<open>pk_returns\<close> and \<open>pk_spurious\<close> the return of
  \<open>park\<close>, \<open>pk_wakes\<close> the call of \<open>unpark\<close> by a waker. Others may unpark any thread as well.
\<close>

inductive pk_step :: "'p parker \<Rightarrow> (back_off \<Rightarrow> back_off) \<Rightarrow> (back_off \<Rightarrow> back_off) \<Rightarrow> 'p pk_system \<Rightarrow> 'p pk_system \<Rightarrow> bool"
  for P lfw blw where
  pk_parks: "i < length (cs_pcs (pk_cv s)) \<Longrightarrow> cs_pcs (pk_cv s) ! i = Cv_Parked lp b a \<Longrightarrow>
    cv_nodes (cs_shared (pk_cv s)) a = Some n \<Longrightarrow> \<not> cn_ready n \<Longrightarrow>
    pk_step P lfw blw s (s\<lparr>pk_inside := (pk_inside s)(i := True)\<rparr>)"
| pk_returns: "pk_inside s i \<Longrightarrow> pk_park P (pk_parkers s i) = Some p \<Longrightarrow>
    pk_step P lfw blw s (s\<lparr>pk_inside := (pk_inside s)(i := False), pk_parkers := (pk_parkers s)(i := p)\<rparr>)"
| pk_spurious: "pk_inside s i \<Longrightarrow> pk_step P lfw blw s (s\<lparr>pk_inside := (pk_inside s)(i := False)\<rparr>)"
| pk_wakes: "i < length (cs_pcs (pk_cv s)) \<Longrightarrow> cv_token (cs_pcs (pk_cv s) ! i) = Some token \<Longrightarrow>
    cv_step_by lfw blw i (pk_cv s) c \<Longrightarrow>
    pk_step P lfw blw s (s\<lparr>pk_cv := c, pk_parkers := (pk_parkers s)(token := pk_unpark P (pk_parkers s token))\<rparr>)"
| pk_others: "pk_step P lfw blw s (s\<lparr>pk_parkers := (pk_parkers s)(token := pk_unpark P (pk_parkers s token))\<rparr>)"
| pk_runs: "i < length (cs_pcs (pk_cv s)) \<Longrightarrow> \<not> pk_inside s i \<Longrightarrow> cv_token (cs_pcs (pk_cv s) ! i) = None \<Longrightarrow>
    cv_step_by lfw blw i (pk_cv s) c \<Longrightarrow> pk_step P lfw blw s (s\<lparr>pk_cv := c\<rparr>)"

text \<open>A system with parking is one without, whatever the parker is.\<close>

interpretation pk_sim: simulation "pk_init P" "pk_step P lfw blw" cv_init "cv_step lfw blw" pk_cv for P lfw blw
proof
  fix s t :: "'a pk_system"
  show "pk_init P s \<Longrightarrow> cv_init (pk_cv s)" by (simp add: pk_init_def)
  show "pk_step P lfw blw s t \<Longrightarrow> (cv_step lfw blw)\<^sup>*\<^sup>* (pk_cv s) (pk_cv t)"
    by (induction rule: pk_step.induct) (auto simp: cv_step_by_def)
qed

section \<open>Who is unparked\<close>

text \<open>A node that belongs to another thread changes only when the thread makes it ready.\<close>

lemma cv_decide_nodes:
  "cv_decide blw addr i lp b cur sh = Inr (pc, sh') \<Longrightarrow> cv_nodes sh' a = Some n \<Longrightarrow> cn_unpark n \<noteq> i \<Longrightarrow>
    cv_nodes sh a = Some n"
  by (auto simp: cv_decide_def split: sum.splits cv_decision.splits if_splits)

lemma cv_next_nodes:
  assumes "cv_next lfw blw addr i spurious pc sh = Inr (pc', sh')" and "cv_nodes sh' a = Some n'" and "cn_unpark n' \<noteq> i"
  shows "cv_nodes sh a = Some n' \<or>
    (\<exists>p token nx r n. pc = Cv_Ready p token nx r \<and> a = ptr_addr p \<and> cv_nodes sh a = Some n \<and>
      n' = n\<lparr>cn_ready := True\<rparr> \<and> pc' = Cv_Unpark token nx r)"
  using assms
  by (cases pc) (auto simp: cv_free_def dest: cv_decide_nodes split: prod.splits sum.splits option.splits if_splits)

lemma cv_parked_owner:
  assumes "cv_inv s" and "k < length (cs_pcs s)" and "cs_pcs s ! k = Cv_Parked lp b a"
  shows "\<exists>n. cv_nodes (cs_shared s) a = Some n \<and> cn_unpark n = k"
  using assms by (force simp: cv_inv_def cv_owners_def)

lemma cv_ready_token:
  assumes "cv_inv s" and "j < length (cs_pcs s)" and "cs_pcs s ! j = Cv_Ready p token nx r"
    and "cv_nodes (cs_shared s) (ptr_addr p) = Some n"
  shows "cn_unpark n = token"
  using assms by (force simp: cv_inv_def cv_lists_def)

text \<open>When the node of a waiting thread becomes ready, the thread that made it so is about to unpark it.\<close>

lemma cv_step_by_ready:
  assumes step: "cv_step_by lfw blw i s t" and inv: "cv_inv s" and k: "k < length (cs_pcs s)" "k \<noteq> i"
    and pc: "cs_pcs s ! k = Cv_Parked lp b a"
    and n': "cv_nodes (cs_shared t) a = Some n'" and ready: "cn_ready n'"
  shows "(\<exists>n. cv_nodes (cs_shared s) a = Some n \<and> cn_ready n) \<or> (\<exists>j < length (cs_pcs t). cv_token (cs_pcs t ! j) = Some k)"
proof -
  have cv: "cv_step lfw blw s t" and len: "length (cs_pcs t) = length (cs_pcs s)"
    and still: "\<And>j. j \<noteq> i \<Longrightarrow> cs_pcs t ! j = cs_pcs s ! j" using step by (auto simp: cv_step_by_def)
  obtain m where "cv_nodes (cs_shared t) a = Some m" "cn_unpark m = k"
    using cv_parked_owner[OF cv_step_keeps[OF cv inv], of k lp b a] k len pc still by auto
  with n' have owner: "cn_unpark n' = k" by simp
  from cv show ?thesis
  proof cases
    case (cv_optimistic j old new ok sh)
    with cv_optimistic_spec(1)[OF cv_optimistic(4)] n' ready show ?thesis by simp
  next
    case (cv_runs j addr spurious pc' sh)
    show ?thesis
    proof (cases "j = k")
      case True
      with still[of k] k cv_runs pc have "pc' = Cv_Parked lp b a" by simp
      with cv_runs True pc n' ready show ?thesis by (auto split: option.splits if_splits)
    next
      case False
      have "cv_nodes sh a = Some n'" "cn_unpark n' \<noteq> j" using n' cv_runs(1) owner False by auto
      from cv_next_nodes[OF cv_runs(4) this]
      consider "cv_nodes (cs_shared s) a = Some n'" |
        p token nx r n where "cs_pcs s ! j = Cv_Ready p token nx r" "a = ptr_addr p"
          "cv_nodes (cs_shared s) a = Some n" "n' = n\<lparr>cn_ready := True\<rparr>" "pc' = Cv_Unpark token nx r"
        by auto
      then show ?thesis
      proof cases
        case 2
        with cv_ready_token[OF inv cv_runs(2)] owner have "token = k" by simp
        with 2 cv_runs(1,2) show ?thesis by (auto intro!: exI[of _ j])
      qed (use ready in auto)
    qed
  next
    case (cv_panics j addr spurious e)
    with n' ready show ?thesis by (auto simp: cv_leave_def cv_free_def split: option.splits if_splits)
  qed (use n' ready in auto)
qed

definition pk_woken :: "'p parker \<Rightarrow> 'p pk_system \<Rightarrow> nat \<Rightarrow> bool" where
  "pk_woken P s k \<longleftrightarrow> pk_park P (pk_parkers s k) \<noteq> None \<or>
     (\<exists>j < length (cs_pcs (pk_cv s)). cv_token (cs_pcs (pk_cv s) ! j) = Some k)"

definition pk_inv :: "'p parker \<Rightarrow> 'p pk_system \<Rightarrow> bool" where
  "pk_inv P s \<longleftrightarrow> cv_inv (pk_cv s) \<and> (\<forall>k. pk_inside s k \<longrightarrow> k < length (cs_pcs (pk_cv s)) \<and>
     (\<exists>lp b a n. cs_pcs (pk_cv s) ! k = Cv_Parked lp b a \<and> cv_nodes (cs_shared (pk_cv s)) a = Some n \<and>
       (cn_ready n \<longrightarrow> pk_woken P s k)))"

lemma pk_inv_init: "pk_init P s \<Longrightarrow> pk_inv P s"
  by (simp add: pk_init_def pk_inv_def cv_init_inv)

text \<open>A step of the condition variable by a thread that is not inside \<open>park\<close>.\<close>

lemma pk_inv_cv:
  assumes inv: "pk_inv P s" and step: "cv_step_by lfw blw i (pk_cv s) c" and out: "\<not> pk_inside s i"
    and woken: "\<And>k. pk_woken P s k \<Longrightarrow> pk_woken P (s\<lparr>pk_cv := c, pk_parkers := f\<rparr>) k"
  shows "pk_inv P (s\<lparr>pk_cv := c, pk_parkers := f\<rparr>)"
proof -
  have cv: "cv_step lfw blw (pk_cv s) c" and len: "length (cs_pcs c) = length (cs_pcs (pk_cv s))"
    and still: "\<And>j. j \<noteq> i \<Longrightarrow> cs_pcs c ! j = cs_pcs (pk_cv s) ! j" using step by (auto simp: cv_step_by_def)
  have cinv: "cv_inv (pk_cv s)" "cv_inv c" using inv cv_step_keeps[OF cv] by (auto simp: pk_inv_def)
  have "k < length (cs_pcs c) \<and> (\<exists>lp b a n. cs_pcs c ! k = Cv_Parked lp b a \<and> cv_nodes (cs_shared c) a = Some n \<and>
      (cn_ready n \<longrightarrow> pk_woken P (s\<lparr>pk_cv := c, pk_parkers := f\<rparr>) k))" if k: "pk_inside s k" for k
  proof -
    from inv k obtain lp b a n where at: "k < length (cs_pcs (pk_cv s))" "cs_pcs (pk_cv s) ! k = Cv_Parked lp b a"
      "cv_nodes (cs_shared (pk_cv s)) a = Some n" "cn_ready n \<longrightarrow> pk_woken P s k" unfolding pk_inv_def by blast
    have ne: "k \<noteq> i" using k out by auto
    have pc: "cs_pcs c ! k = Cv_Parked lp b a" using still[OF ne] at(2) by simp
    obtain n' where n': "cv_nodes (cs_shared c) a = Some n'" using cv_parked_owner[OF cinv(2) _ pc] at(1) len by auto
    have "pk_woken P (s\<lparr>pk_cv := c, pk_parkers := f\<rparr>) k" if "cn_ready n'"
      using cv_step_by_ready[OF step cinv(1) at(1) ne at(2) n' that]
    proof
      assume "\<exists>n. cv_nodes (cs_shared (pk_cv s)) a = Some n \<and> cn_ready n"
      with at(3,4) woken show ?thesis by auto
    qed (simp add: pk_woken_def)
    with at(1) len pc n' show ?thesis by auto
  qed
  with cinv(2) show ?thesis by (simp add: pk_inv_def)
qed

context parking begin

lemma pk_woken_unpark:
  "pk_woken P s k \<Longrightarrow> pk_woken P (s\<lparr>pk_parkers := (pk_parkers s)(token := pk_unpark P (pk_parkers s token))\<rparr>) k"
  using unparked by (auto simp: pk_woken_def)

lemma pk_inv_step: "pk_step P lfw blw s t \<Longrightarrow> pk_inv P s \<Longrightarrow> pk_inv P t"
proof (induction rule: pk_step.induct)
  case (pk_parks i s lp b a n)
  then show ?case by (auto simp: pk_inv_def pk_woken_def)
next
  case (pk_returns s i p)
  then show ?case by (simp add: pk_inv_def pk_woken_def)
next
  case (pk_spurious s i)
  then show ?case by (simp add: pk_inv_def pk_woken_def)
next
  case (pk_wakes i s token c)
  let ?f = "(pk_parkers s)(token := pk_unpark P (pk_parkers s token))"
  have out: "\<not> pk_inside s i" using pk_wakes(2,4) by (auto simp: pk_inv_def)
  have still: "cs_pcs c ! j = cs_pcs (pk_cv s) ! j" if "j \<noteq> i" for j using pk_wakes(3) that by (simp add: cv_step_by_def)
  have "pk_woken P (s\<lparr>pk_cv := c, pk_parkers := ?f\<rparr>) k" if "pk_woken P s k" for k
  proof (cases "k = token")
    case True
    then show ?thesis using unparked by (simp add: pk_woken_def)
  next
    case False
    have "j \<noteq> i" if "cv_token (cs_pcs (pk_cv s) ! j) = Some k" for j using that False pk_wakes(2) by auto
    with \<open>pk_woken P s k\<close> False still pk_wakes(3) show ?thesis
      by (auto simp: pk_woken_def cv_step_by_def)
  qed
  with pk_inv_cv[OF pk_wakes(4,3) out, of ?f] show ?case by simp
next
  case (pk_others s token)
  then show ?case using pk_woken_unpark[of s _ token] unfolding pk_inv_def by fastforce
next
  case (pk_runs i s c)
  have "pk_woken P (s\<lparr>pk_cv := c, pk_parkers := pk_parkers s\<rparr>) k" if "pk_woken P s k" for k
  proof (cases "pk_park P (pk_parkers s k) = None")
    case True
    then obtain j where j: "j < length (cs_pcs (pk_cv s))" "cv_token (cs_pcs (pk_cv s) ! j) = Some k"
      using \<open>pk_woken P s k\<close> by (auto simp: pk_woken_def)
    with pk_runs(3) have "j \<noteq> i" by auto
    with j pk_runs(4) show ?thesis by (auto simp: pk_woken_def cv_step_by_def intro!: exI[of _ j])
  qed (simp add: pk_woken_def)
  with pk_inv_cv[OF pk_runs(5,4,2), of "pk_parkers s"] show ?case by simp
qed

end

sublocale parking \<subseteq> pk: transition_system "pk_init P" "pk_step P lfw blw" "pk_inv P" for lfw blw
  by unfold_locales (auto intro: pk_inv_init pk_inv_step)


section \<open>Properties\<close>

text \<open>Every run of a condition variable is one with parking, in which no thread stays inside \<open>park\<close>.\<close>

lemma cv_decide_unparks: "cv_decide blw addr i lp b cur sh = Inr (pc, sh') \<Longrightarrow> cv_unparks sh' = cv_unparks sh"
  by (auto simp: cv_decide_def split: sum.splits cv_decision.splits if_splits)

lemma cv_next_unparks:
  "cv_next lfw blw addr i spurious pc sh = Inr (pc', sh') \<Longrightarrow>
    cv_unparks sh' = cv_unparks sh @ (case cv_token pc of Some token \<Rightarrow> [token] | None \<Rightarrow> [])"
  by (cases pc) (auto simp: cv_free_def dest: cv_decide_unparks split: prod.splits sum.splits option.splits if_splits)

lemma cv_step_someone:
  assumes "cv_step lfw blw s t"
  shows "\<exists>i < length (cs_pcs s). cv_step_by lfw blw i s t \<and> cv_unparks (cs_shared t) =
    cv_unparks (cs_shared s) @ (case cv_token (cs_pcs s ! i) of Some token \<Rightarrow> [token] | None \<Rightarrow> [])"
  using assms
proof cases
  case (cv_runs i addr spurious pc sh)
  with assms cv_next_unparks[OF cv_runs(4)] show ?thesis by (intro exI[of _ i]) (simp add: cv_step_by_def)
next
  case (cv_optimistic i old new ok sh)
  then have "cv_unparks sh = cv_unparks (cs_shared s)"
    by (auto simp: cv_optimistic_update_def split: prod.splits sum.splits)
  with assms cv_optimistic show ?thesis by (intro exI[of _ i]) (simp add: cv_step_by_def)
next
  case (cv_panics i addr spurious e)
  then have "cv_token (cs_pcs s ! i) = None" by (cases "cs_pcs s ! i") auto
  with assms cv_panics show ?thesis
    by (intro exI[of _ i]) (simp add: cv_step_by_def cv_leave_def cv_free_def split: option.splits)
qed (use assms in \<open>auto simp: cv_step_by_def\<close>)

definition pk_of_cv :: "cv_system \<Rightarrow> bool pk_system" where
  "pk_of_cv s = \<lparr>pk_cv = s, pk_inside = (\<lambda>_. False), pk_parkers = (\<lambda>k. k \<in> set (cv_unparks (cs_shared s)))\<rparr>"

lemma pk_of_cv_step:
  assumes "cv_step lfw blw s t"
  shows "pk_step current_thread lfw blw (pk_of_cv s) (pk_of_cv t)"
proof -
  obtain i where i: "i < length (cs_pcs s)" "cv_step_by lfw blw i s t" "cv_unparks (cs_shared t) =
    cv_unparks (cs_shared s) @ (case cv_token (cs_pcs s ! i) of Some token \<Rightarrow> [token] | None \<Rightarrow> [])"
    using cv_step_someone[OF assms] by blast
  show ?thesis
  proof (cases "cv_token (cs_pcs s ! i)")
    case None
    with i(3) have t: "pk_of_cv t = (pk_of_cv s)\<lparr>pk_cv := t\<rparr>" by (simp add: pk_of_cv_def)
    show ?thesis unfolding t using i None by (intro pk_runs[of i]) (simp_all add: pk_of_cv_def)
  next
    case (Some token)
    with i(3) have t: "pk_of_cv t = (pk_of_cv s)\<lparr>pk_cv := t, pk_parkers := (pk_parkers (pk_of_cv s))(token :=
        pk_unpark current_thread (pk_parkers (pk_of_cv s) token))\<rparr>"
      by (simp add: pk_of_cv_def current_thread_def thread_unpark_def fun_eq_iff)
    show ?thesis unfolding t using i Some by (intro pk_wakes[of i]) (simp_all add: pk_of_cv_def)
  qed
qed

lemma pk_of_cv_reachable:
  "reachable cv_init (cv_step lfw blw) s \<Longrightarrow> reachable (pk_init current_thread) (pk_step current_thread lfw blw) (pk_of_cv s)"
proof (induction rule: reachable.induct)
  case (reach_init s)
  then obtain st where "cs_shared s = cv_new st" by (auto simp: cv_init_def)
  with reach_init have "pk_init current_thread (pk_of_cv s)"
    by (simp add: pk_init_def pk_of_cv_def current_thread_def cv_new_def)
  then show ?case by (rule reachable.reach_init)
next
  case (reach_step s t)
  show ?case by (rule reachable.reach_step[OF reach_step.IH pk_of_cv_step[OF reach_step.hyps(2)]])
qed

text \<open>
  Claim C16. No wakeup is lost between the flag and the park: in every reachable state of a condition variable
  whose threads block in \<open>std::thread::park\<close>, a thread that is inside \<open>park\<close> while its node is ready has been
  unparked, so that \<open>park\<close> returns, or the thread that made the node ready is at its call of \<open>unpark\<close> for it.
\<close>

theorem condvar_park_never_lost:
  assumes "reachable (pk_init current_thread) (pk_step current_thread lfw blw) s" and "pk_inside s i"
  shows "i < length (cs_pcs (pk_cv s)) \<and> (\<exists>lp b a n. cs_pcs (pk_cv s) ! i = Cv_Parked lp b a \<and>
    cv_nodes (cs_shared (pk_cv s)) a = Some n \<and>
    (cn_ready n \<longrightarrow> pk_park current_thread (pk_parkers s i) \<noteq> None \<or>
       (\<exists>j nx r. j < length (cs_pcs (pk_cv s)) \<and> cs_pcs (pk_cv s) ! j = Cv_Unpark i nx r)))"
  using thread_parking.pk.reachable_inv[OF assms(1)] assms(2) cv_tokenE
  unfolding pk_inv_def pk_woken_def by meson

text \<open>Thread 0 is inside \<open>park\<close>, thread 1 walks its list.\<close>

definition pk_demo :: "bool \<Rightarrow> cv_pc \<Rightarrow> bool pk_system" where
  "pk_demo ready pc = \<lparr>pk_cv = cv_demo \<lparr>ptr_prov = None, ptr_addr = 1\<rparr>
       [256 \<mapsto> \<lparr>cn_unpark = 0, cn_next = null_mut, cn_ready = ready\<rparr>] (Cv_Parked cv_demo_loop \<lparr>spin_count = 15\<rparr> 256) pc,
     pk_inside = (\<lambda>_. False)(0 := True), pk_parkers = (\<lambda>_. False)\<rparr>"

abbreviation pk_demo_reachable :: "bool \<Rightarrow> cv_pc \<Rightarrow> bool" where
  "pk_demo_reachable ready pc \<equiv>
     reachable (pk_init current_thread) (pk_step current_thread cv_hurry cv_hurry) (pk_demo ready pc)"

lemma pk_demo_inside: "pk_demo_reachable False (Cv_Walk cv_demo_ptr 0)"
proof -
  let ?c = "cv_demo \<lparr>ptr_prov = None, ptr_addr = 1\<rparr> cv_demo_nodes (Cv_Parked cv_demo_loop \<lparr>spin_count = 15\<rparr> 256)
    (Cv_Walk cv_demo_ptr 0)"
  have "pk_step current_thread cv_hurry cv_hurry (pk_of_cv ?c) ((pk_of_cv ?c)\<lparr>pk_inside := (pk_inside (pk_of_cv ?c))(0 := True)\<rparr>)"
    by (rule pk_parks[of 0 _ cv_demo_loop "\<lparr>spin_count = 15\<rparr>" 256]) (auto simp: pk_of_cv_def cv_demo_def cv_demo_nodes_def)
  from reach_step[OF pk_of_cv_reachable[OF cv_demo_waking] this] show ?thesis
    by (simp add: pk_of_cv_def pk_demo_def cv_demo_def cv_demo_nodes_def)
qed

lemma pk_demo_runs:
  assumes "pk_demo_reachable ready pc" and "cv_token pc = None" and "cv_node_of pc = None"
    and "cv_next cv_hurry cv_hurry 512 1 False pc (cs_shared (pk_cv (pk_demo ready pc))) =
      Inr (pc', cs_shared (pk_cv (pk_demo ready' pc')))"
  shows "pk_demo_reachable ready' pc'"
proof -
  let ?s = "pk_cv (pk_demo ready pc)" and ?t = "pk_cv (pk_demo ready' pc')"
  have "cv_step cv_hurry cv_hurry ?s (?s\<lparr>cs_shared := cs_shared ?t, cs_pcs := (cs_pcs ?s)[1 := pc']\<rparr>)"
    using assms(3,4) by (intro cv_runs[of 1 _ 512]) (auto simp: pk_demo_def cv_demo_def cv_leave_def cv_fresh_def)
  then have "cv_step_by cv_hurry cv_hurry 1 ?s ?t"
    by (auto simp: cv_step_by_def pk_demo_def cv_demo_def nth_Cons split: nat.splits)
  with assms(2) have "pk_step current_thread cv_hurry cv_hurry (pk_demo ready pc) ((pk_demo ready pc)\<lparr>pk_cv := ?t\<rparr>)"
    by (intro pk_runs[of 1]) (auto simp: pk_demo_def cv_demo_def)
  from reach_step[OF assms(1) this] show ?thesis by (simp add: pk_demo_def)
qed

lemma pk_demo_ready: "pk_demo_reachable True (Cv_Unpark 0 null_mut 0)"
proof -
  have "pk_demo_reachable False (Cv_Ready cv_demo_ptr 0 null_mut 0)"
    by (rule pk_demo_runs[OF pk_demo_inside]) (simp_all add: pk_demo_def cv_demo_def cv_demo_ptr_def)
  then show ?thesis
    by (rule pk_demo_runs) (simp_all add: pk_demo_def cv_demo_def cv_demo_ptr_def)
qed

theorem condvar_park_never_lost_witness:
  "\<exists>j nx r. j < 2 \<and> [Cv_Parked cv_demo_loop \<lparr>spin_count = 15\<rparr> 256, Cv_Unpark 0 null_mut 0] ! j = Cv_Unpark 0 nx r"
  using condvar_park_never_lost[OF pk_demo_ready, of 0]
  by (auto simp: pk_demo_def cv_demo_def current_thread_def thread_park_def numeral_2_eq_2)

end
