(* ===== verification/Spec2Isabelle.thy ===== *)
theory Spec2Isabelle
  imports Ring_Iter Ring_Type Backoff Cache State_Ptr Broad_Order Flip_Order Flip_Rwlock Arena Sync
    Spin_Order Cond_Var_Order Cond_Var_Wake Triple_Order Park
begin

text \<open>
  Verification of the Rust crate \<open>amity\<close>: concurrency primitives and the containers under them.

  \<^bold>\<open>The program.\<close> The crate has a ring buffer (\<open>src/src/ring_buffer.rs\<close>), a queue for many
  producers that is a ring buffer with two atomic counters behind a read-write lock
  (\<open>src/src/flip_queue.rs\<close>), a triple buffer for one producer and one consumer
  (\<open>src/src/triple.rs\<close>), a broadcast channel that is a triple buffer whose consumer side is shared
  behind a read-write lock (\<open>src/src/broad.rs\<close>), spin locks (\<open>src/src/spin.rs\<close>, the default lock of
  the queue and the channel) with an exponential back-off (\<open>src/src/backoff.rs\<close>), pointers with a
  state in their low bits (\<open>src/src/state_ptr.rs\<close>) and cache-line padding (\<open>src/src/cache.rs\<close>). The
  repository also holds files that the crate root does not declare as modules: a condition variable
  whose waiting threads form a list hanging off one atomic word (\<open>src/src/condvar.rs\<close>, with the
  parking interface \<open>src/src/park.rs\<close>), a mutex and a read-write lock over it (\<open>src/src/mutex.rs\<close>,
  \<open>src/src/rwlock.rs\<close>), and an arena (\<open>src/src/arena.rs\<close>), and wrappers of atomics and cells (\<open>src/src/sync.rs\<close>,
  \<open>src/src/sync_loom.rs\<close>).

  \<^bold>\<open>The theories.\<close> Each theory models one part in the order of its source; a definition has the name of
  the function it models with a prefix for its type (\<open>rb_\<close> for \<open>RingBuffer\<close>, \<open>iter_\<close> and \<open>iter_mut_\<close>,
  \<open>drain_\<close>, \<open>tb_\<close> for \<open>TripleBuffer\<close>, \<open>tp_\<close> and \<open>tc_\<close> for its handles, \<open>bc_\<close>, \<open>sn_\<close>, \<open>rc_\<close>, \<open>cd_\<close> for
  \<open>Broadcast\<close>, \<open>Sender\<close>, \<open>Receiver\<close>, \<open>Cached\<close>, \<open>fb_\<close>, \<open>fd_\<close>, \<open>fq_\<close> for \<open>FlipBuffer\<close>, its \<open>Drain\<close> and
  \<open>FlipQueue\<close>, \<open>spin_\<close> and \<open>rw_\<close> for \<open>RawSpin\<close> and \<open>RawRwSpin\<close>, \<open>ps_\<close> and \<open>aps_\<close> for \<open>PtrState\<close> and
  \<open>AtomicPtrState\<close>, \<open>cv_\<close> for \<open>CondVar\<close>, \<open>mx_\<close> for \<open>RawMutex\<close>, \<open>rl_\<close> for \<open>RawRwLock\<close>, \<open>pk_\<close> for
  parking, \<open>mem_\<close> for memory orderings, \<open>slot_\<close> and \<open>ar_\<close> for \<open>Slot\<close> and \<open>Arena\<close>).

  \<^item> \<open>Amity_Prelude\<close>: failures as values, list lemmas, reachability, and the contracts
    \<open>transition_system\<close> (an invariant of a step relation), \<open>simulation\<close> and \<open>inv_simulation\<close> (a system
    built on another, the second under an invariant),
    \<open>exclusion_system\<close> (threads that exclude each other) and \<open>fifo\<close> (a bounded-use refinement of a
    list). They are interpreted on \<open>RingBuffer\<close>, \<open>FlipBuffer\<close>, \<open>FlipQueue\<close> (\<open>fifo\<close>), \<open>RawSpin\<close>,
    \<open>RawRwSpin\<close>, \<open>RawMutex\<close>, \<open>RawRwLock\<close> (\<open>exclusion_system\<close>), on the last two over the condition
    variable (\<open>simulation\<close>), and on the systems of \<open>Triple\<close>, \<open>Broad_Race\<close>, \<open>Flip_Race\<close> and
    \<open>Cond_Var_Nodes\<close> (\<open>transition_system\<close>).
  \<^item> \<open>Ring_Buffer\<close>: the buffer over memory cells that may be uninitialised, with \<open>ring_index\<close>, growth,
    destructors that may panic, and \<open>Drain\<close>. The invariant \<open>rb_inv\<close> says which cells hold elements,
    \<open>rb_contents\<close> is the queue. Shown: a run is the run of a list, when \<open>push\<close> fails, what \<open>drop\<close> and
    \<open>Drain\<close> drop and yield.
  \<^item> \<open>Ring_Type\<close>: any sequence of its operations, with destructors that panic in the middle, keeps the invariant.
  \<^item> \<open>Ring_Iter\<close>: \<open>Iter\<close> and \<open>IterMut\<close>. Shown: what the overridden loops compute, and what \<open>next\<close> and
    \<open>nth\<close> return, which is not the queue once it wraps around.
  \<^item> \<open>Flip_Queue\<close>, \<open>Flip_Race\<close>: the operations, first one after the other (a \<open>FlipQueue\<close> refines a
    list), then split at the \<open>fetch_add\<close> and interleaved (slots never collide; nothing is lost,
    duplicated or reordered). Shown as well: dropping a buffer after \<open>pop_sync\<close> drops twice.
  \<^item> \<open>Lock_Api\<close>, \<open>Flip_Lock\<close>: the interface of a lock parameter, with the contract \<open>rw_lock_contract\<close> that
    \<open>RawRwSpin\<close> and \<open>RawRwLock\<close> are shown to keep, and a \<open>FlipQueue\<close> with its lock: any number of threads,
    interleaved at the accesses of the lock and of the buffer (\<open>fl_access\<close>). Under the contract this system
    is an \<open>inv_simulation\<close> of that of \<open>Flip_Race\<close>, so what is shown there holds of the interleavings of the queue over
    both locks when their accesses are sequentially consistent. Whether the queue is right with the orderings of a lock is the subject
    of the next two theories: it is over \<open>RawRwSpin\<close>, and is not over \<open>RawRwLock\<close>.
  \<^item> \<open>Flip_Order\<close>: the same system over a lock on the memory of \<open>Mem_Order\<close> (every \<open>ordered_lock\<close> keeps
    \<open>rw_lock_contract\<close>, with loads that may be stale). Every access to the buffer is recorded with the part that it
    touches; shown, over \<open>RawRwSpin\<close>: conflicting accesses are ordered, though elements are written under
    the shared lock.
  \<^item> \<open>Flip_Rwlock\<close>: the same system over \<open>RawRwLock\<close>. Shown: a run in which an element pushed under a read guard and the next
    flush race, because \<open>unlock_shared\<close> does not release; there is such a run exactly if its ordering does not release.
  \<^item> \<open>Broad_Order\<close>: the same for the channel, where the swaps of the flag byte hand elements over between the sender and
    one receiver, and the lock between the receivers. Shown, over \<open>RawRwSpin\<close>, from different indices: no races,
    and the relaxed \<open>consumed()\<close> under the write lock is enough for the assertion of \<open>read\<close>.
  \<^item> \<open>Triple\<close>: the operations on the flag byte, and all interleavings of the two handles (slots never
    alias, \<open>consume\<close> gives the latest publication, in order and at most once).
  \<^item> \<open>Broad\<close>, \<open>Broad_Race\<close>, \<open>Broad_Lock\<close>: the channel sequentially (\<open>last\<close> is the value sent last), and
    interleaved (free of races when the three indices start different, which \<open>Broadcast::new\<close> does not do), first
    with a lock that is taken in one step, then with any lock that keeps \<open>rw_lock_contract\<close>, which is an
    \<open>inv_simulation\<close> of the first.
  \<^item> \<open>Spin\<close>, \<open>Rw_Spin\<close>: both locks with any number of threads, interleaved at the atomic accesses.
    The word of \<open>RawRwSpin\<close> is a sum of the shares of the threads; mutual exclusion, freedom from
    panics, the priority of a queued writer and the return to zero follow from this.
  \<^item> \<open>Cond_Var\<close>, \<open>Cond_Var_Nodes\<close>, \<open>Cond_Var_State\<close>: the condition variable with any number of threads
    at its atomic accesses, the nodes of the waiting threads in a memory whose addresses are reused.
    \<open>cv_next\<close> is the loop that the methods of the file share. The invariant \<open>cv_inv\<close> places every node of
    a waiting thread in one list; it gives memory safety and that no waiting thread is lost. The
    abstract operation \<open>cv_spec\<close> is refined by every access. \<open>cv_alone\<close> runs one thread for a number of
    accesses; three per waiting thread and two more are enough for \<open>set\<close>.
  \<^item> \<open>Cond_Var_Wake\<close>: a waker while the other threads run (\<open>cv_during\<close> counts its accesses). The other threads leave its list as it
    is, so \<open>set\<close> with a wake needs the same number of accesses and unparks everyone in every interleaving.
  \<^item> \<open>Cond_Var_Client\<close>, \<open>Raw_Mutex\<close>, \<open>Raw_Rw_Lock\<close>: the two locks, whose steps are simulated by those of
    the condition variable. Shown: mutual exclusion, freedom from panics, what the state counts, who
    wakes a parked thread; and that \<open>unlock_shared\<close> wakes nobody, so a writer can be left parked, and
    that \<open>unlock\<close> through \<open>lock_api\<close> does not release the mutex.
  \<^item> \<open>Park\<close>: the parkers, with the contract \<open>parking\<close> that \<open>CurrentThread\<close> and \<open>ParkYield\<close> are shown to keep,
    and the condition variable with threads that are inside \<open>park\<close>. Shown: a thread whose node is ready does
    not stay there, and every run of \<open>Cond_Var\<close> is one of this system and the other way round.
  \<^item> \<open>Mem_Order\<close>, \<open>Lock_Order\<close>: memory orderings. A program is the accesses of the threads to one atomic word
    with their orderings, as the code writes them; \<open>mem_step\<close> runs it with loads that may read old values and
    with the accesses to the data that the word protects, and \<open>mem_race_free\<close> says that two accesses to the
    same data are ordered. The contract \<open>ordered_lock\<close> says what a lock has to do for this.
  \<^item> \<open>Spin_Order\<close>, \<open>Cond_Var_Order\<close>, \<open>Triple_Order\<close>: the programs of \<open>RawSpin\<close>, \<open>RawRwSpin\<close>, \<open>RawMutex\<close>,
    \<open>RawRwLock\<close> and \<open>TripleBuffer\<close>. All but \<open>RawRwLock\<close> are free of races; its \<open>unlock_shared\<close> acquires where
    it has to release, and with \<open>Release\<close> there it keeps the contract
    (and serves the queue and the channel, at the end of this theory). The \<open>recv\<close> of the triple buffer races.
  \<^item> \<open>Arena\<close>: the slots and the list of vacant ones, with bits that stay in a slot when its value is moved out or dropped
    (a parameter says whether they may be used again, which is so for a type that is \<open>Copy\<close>). A run that uses occupied indices equals
    that of a reference allocator. \<open>drop\<close> uses the value after dropping it and makes a stale index the head of the vacant list;
    the safe functions do not check that a slot is occupied, so that a second \<open>remove\<close> of an index leads to two values at one index.
  \<^item> \<open>State_Ptr\<close>, \<open>Backoff\<close>, \<open>Cache\<close>, \<open>Sync\<close>: the bit masks, the counter, the alignments, the accesses to
    atomics and cells that are not shared.

  \<^bold>\<open>Modelling choices.\<close> The target has 64 bits. Counters and words that the code lets wrap around or
  packs bits into are words; sizes and indices are naturals, and every subtraction or addition the code
  makes on them is checked (\<open>usize_sub\<close>, \<open>usize_add\<close>), so that an overflow is the value
  \<open>Inl Arith_overflow\<close>. Panics, failed assertions and undefined behaviour (an uninitialised or
  out-of-bounds access, an invalid index) are values of \<open>fault\<close>; a theorem that an operation returns
  \<open>Inr\<close> excludes them. In the theories of the components an atomic operation is a sequentially
  consistent step. For one atomic word this is no restriction on what read-modify-writes see, and what the
  orderings add, that the data is handed over with the word, is the subject of the theories with \<open>Order\<close> in
  their names, where loads may be stale and the invariants of the first are used for the newest value. Threads are a list of places in the code, and a schedule is any sequence of their steps.

  \<^bold>\<open>Bounds.\<close> \<open>RawRwSpin\<close> is verified for at most \<open>SHARED_LOCK_THRESHOLD\<close> = 2^59 simultaneous calls and
  guards, the limit the code states. A \<open>FlipQueue\<close> is verified for fewer than 2^64 calls between two
  flushes, which its 64-bit counters are sized for.

  \<^bold>\<open>Parameters.\<close> \<open>condvar.rs\<close> calls two methods that \<open>BackOff\<close> does not have; they are arguments
  (\<open>lfw\<close>, \<open>blw\<close>) of its model, and every theorem but the concrete runs holds for all of them. What the
  parking primitive does is in the standard library: in \<open>Cond_Var\<close> \<open>park\<close> may return at any time and \<open>unpark\<close>
  is recorded, and \<open>Park\<close> has the token of \<open>std::thread\<close>. The lock of a \<open>FlipQueue\<close> is a parameter; what \<open>lock_api\<close> does with it is described in
  \<open>Lock_Api\<close>. The cells of \<open>loom\<close> are arguments of the functions
  of \<open>sync_loom.rs\<close>. A destructor of a value in the arena that panics is left out. \<open>arena.rs\<close> calls \<open>push\<close> on a boxed slice, which is taken as that of \<open>Vec\<close>.

  \<^bold>\<open>Not modelled.\<close> \<open>src/src/lib.rs\<close> holds documentation, features and re-exports; of its code, the function
  \<open>merge_ordering\<close>, which is commented out there and which \<open>condvar.rs\<close> imports, is in \<open>Mem_Order\<close>, and the
  panic of \<open>capacity_overflow\<close> is \<open>Capacity_overflow\<close>. Orderings are not modelled for the flag of a node of the condition variable, and for the methods of \<open>FlipQueue\<close> that
  take \<open>&mut self\<close>; the provenance of dangling
  pointers is left out everywhere.
\<close>

text \<open>
  What \<open>RawRwLock\<close> lacks as a lock of the queue and the channel is the one ordering: with \<open>Release\<close> in \<open>unlock_shared\<close> both
  are free of data races over it, whichever of its events are the calls.
\<close>

lemma repaired_rwlock_serves_clients:
  fixes lfw blw :: "back_off \<Rightarrow> back_off"
  defines "P \<equiv> rl_program Release lfw blw"
  shows "reachable (fo_init sz (mem_raw P (cv_atomic rl_new) rl_order_starts rl_writes rl_reads idle calls runs unlocks))
      (fo_step sz (mem_raw P (cv_atomic rl_new) rl_order_starts rl_writes rl_reads idle calls runs unlocks)) s \<Longrightarrow> fo_race_free s"
    and "reachable (bo_init (mem_raw P (cv_atomic rl_new) rl_order_starts rl_writes rl_reads idle calls runs unlocks))
      (bo_step (mem_raw P (cv_atomic rl_new) rl_order_starts rl_writes rl_reads idle calls runs unlocks)) t \<Longrightarrow> bo_race_free t"
proof -
  have P: "ordered_lock P rl_word_inv (\<lambda>_. True) (\<lambda>_. False) rl_writes rl_reads (\<lambda>_. False) (cv_atomic rl_new) rl_order_starts"
    using rl_ordered[of Release lfw blw] by (simp add: P_def)
  show "reachable (fo_init sz (mem_raw P (cv_atomic rl_new) rl_order_starts rl_writes rl_reads idle calls runs unlocks))
      (fo_step sz (mem_raw P (cv_atomic rl_new) rl_order_starts rl_writes rl_reads idle calls runs unlocks)) s \<Longrightarrow> fo_race_free s"
    by (rule ordered_lock.fo_reachable_race_free[OF P])
  show "reachable (bo_init (mem_raw P (cv_atomic rl_new) rl_order_starts rl_writes rl_reads idle calls runs unlocks))
      (bo_step (mem_raw P (cv_atomic rl_new) rl_order_starts rl_writes rl_reads idle calls runs unlocks)) t \<Longrightarrow> bo_race_free t"
    by (rule ordered_lock.bo_reachable_race_free[OF P])
qed

end
